(* ===== verification/Kernel_Prelude.thy ===== *)
theory Kernel_Prelude
  imports Main "HOL-Library.Word"
begin

text \<open>
  Shared vocabulary of the development: the machine types of the PIC32 port (a MIPS32
  with 32-bit \<^verbatim>\<open>int\<close>, \<^verbatim>\<open>long\<close> and \<^verbatim>\<open>size_t\<close>), the two ways in which kernel code stops
  instead of returning (a call of \<^verbatim>\<open>panic\<close> and an access outside an object), arrays with
  their bounds, and the generic list and word lemmas the components use.
\<close>

unbundle bit_operations_syntax

type_synonym u8 = "8 word"
type_synonym u32 = "32 word"

text \<open>
  \<open>Panic\<close> carries the argument of the \<^verbatim>\<open>panic\<close> call. \<open>Fault\<close> is an access of the C code
  outside the object it points into, which the language leaves undefined; a theorem that a
  result is an \<open>Inr\<close> therefore shows that neither happens.
\<close>

datatype kstop = Panic string | Fault

type_synonym 'a kres = "kstop + 'a"

named_theorems kinv \<open>definitions of the component invariants\<close>
named_theorems kops \<open>defining equations of non-recursive kernel operations\<close>

section \<open>Results\<close>

definition kbind :: "'a kres \<Rightarrow> ('a \<Rightarrow> 'b kres) \<Rightarrow> 'b kres" where
  "kbind r f = (case r of Inl e \<Rightarrow> Inl e | Inr x \<Rightarrow> f x)"

lemma kbind_Inl [simp]: "kbind (Inl e) f = Inl e"
  by (simp add: kbind_def)

lemma kbind_Inr [simp]: "kbind (Inr x) f = f x"
  by (simp add: kbind_def)

lemma kbind_eq_Inr_iff: "kbind r f = Inr y \<longleftrightarrow> (\<exists>x. r = Inr x \<and> f x = Inr y)"
  by (cases r) auto

section \<open>Arrays\<close>

text \<open>A C array is the list of its elements; reading or writing outside it is a \<open>Fault\<close>.\<close>

definition aget :: "'a list \<Rightarrow> nat \<Rightarrow> 'a kres" where
  "aget a i = (if i < length a then Inr (a ! i) else Inl Fault)"

definition aset :: "'a list \<Rightarrow> nat \<Rightarrow> 'a \<Rightarrow> 'a list kres" where
  "aset a i x = (if i < length a then Inr (a[i := x]) else Inl Fault)"

lemma aget_append [simp]: "aget (xs @ x # ys) (length xs) = Inr x"
  by (simp add: aget_def)

lemma aset_append [simp]: "aset (xs @ x # ys) (length xs) y = Inr (xs @ y # ys)"
  by (simp add: aset_def)

lemma aget_append_Suc [simp]: "aget (xs @ x # y # ys) (Suc (length xs)) = Inr y"
  by (simp add: aget_def nth_append)

lemma aset_append_Suc [simp]:
  "aset (xs @ x # y # ys) (Suc (length xs)) z = Inr (xs @ x # z # ys)"
  by (simp add: aset_def list_update_append)

lemma aget_Inr: "i < length a \<Longrightarrow> aget a i = Inr (a ! i)"
  by (simp add: aget_def)

lemma aset_Inr: "i < length a \<Longrightarrow> aset a i x = Inr (a[i := x])"
  by (simp add: aset_def)

text \<open>
  A pointer that walks over an array while its element satisfies \<open>P\<close>: the common form of
  \<^verbatim>\<open>for (bp = a; P(*bp); ++bp);\<close>.
\<close>

function advance :: "('a \<Rightarrow> bool) \<Rightarrow> 'a list \<Rightarrow> nat \<Rightarrow> nat kres" where
  "advance P a i =
     (if i < length a then (if P (a ! i) then advance P a (Suc i) else Inr i)
      else Inl Fault)"
  by pat_completeness auto
termination
  by (relation "measure (\<lambda>(P, a, i). length a - i)") auto

declare advance.simps [simp del]

lemma advance_append:
  assumes "\<forall>x\<in>set xs. P x" and "\<not> P y"
  shows "advance P (ws @ xs @ y # ys) (length ws) = Inr (length ws + length xs)"
  using assms
proof (induction xs arbitrary: ws)
  case Nil
  then show ?case by (simp add: advance.simps)
next
  case (Cons x xs)
  from Cons.IH [of "ws @ [x]"] Cons.prems show ?case
    by (simp add: advance.simps [of P "ws @ x # xs @ y # ys" "length ws"])
qed

lemmas advance_from_0 = advance_append [of _ _ _ "[]", simplified]

section \<open>Words\<close>

lemma unat_add_le:
  fixes a b :: "'w::len word"
  assumes "unat a + unat b < 2 ^ LENGTH('w)"
  shows "unat (a + b) = unat a + unat b"
  using assms by (simp add: unat_word_ariths)

lemma unat_sub_le:
  fixes a b :: "'w::len word"
  assumes "b \<le> a"
  shows "unat (a - b) = unat a - unat b"
  using assms by (simp add: unat_sub)

lemma unat_nonzero_iff: "a \<noteq> (0 :: 'w::len word) \<longleftrightarrow> 0 < unat a"
  using unat_eq_zero [of a] by auto

lemma word_le_unat: "a \<le> b \<longleftrightarrow> unat a \<le> unat b" for a b :: "'w::len word"
  by (simp add: word_le_nat_alt)

lemma word_less_unat: "a < b \<longleftrightarrow> unat a < unat b" for a b :: "'w::len word"
  by (simp add: word_less_nat_alt)

end
