(* ===== verification/Rmap.thy ===== *)
theory Rmap
  imports Kernel_Prelude
begin

text \<open>
  Resource maps (sys/kernel/subr_rmap.c, sys/include/map.h): first-fit allocation of
  contiguous address ranges from an array of free segments, used for the swap area.
  The array is modelled slot by slot, with its terminator of size 0 and with the bound of
  the C array, so that the loops that move slots up and down can run out of it.
\<close>

section \<open>Model\<close>

record mapent =
  m_size :: u32
  m_addr :: u32

record rmap =
  m_map :: "mapent list"
  m_limit :: nat
  m_name :: string

text \<open>\<^verbatim>\<open>m_limit\<close> is a pointer into the array; the model keeps its index.\<close>

text \<open>
  Moving the rest of the map one slot to the left:
  \<^verbatim>\<open>for (ep = bp;; ++ep) { *ep = *++bp; if (!bp->m_size) break; }\<close> in \<^verbatim>\<open>malloc\<close> and
  \<^verbatim>\<open>do { *++ep = *++bp; } while (bp->m_size)\<close> in \<^verbatim>\<open>mfree\<close>, where \<open>ep\<close> is the slot written
  and \<open>Suc ep\<close> the slot read.
\<close>

function shift_down :: "mapent list \<Rightarrow> nat \<Rightarrow> mapent list kres" where
  "shift_down a ep =
     (if Suc ep < length a then
        (let a' = a[ep := a ! Suc ep]
         in if m_size (a' ! Suc ep) = 0 then Inr a' else shift_down a' (Suc ep))
      else Inl Fault)"
  by pat_completeness auto
termination
  by (relation "measure (\<lambda>(a, ep). length a - ep)") auto

definition malloc :: "rmap \<Rightarrow> u32 \<Rightarrow> (u32 \<times> rmap) kres" where
  "malloc mp sz =
     (if sz = 0 then Inl (Panic ''malloc: size = 0'')
      else kbind (advance (\<lambda>e. m_size e \<noteq> 0 \<and> \<not> m_size e \<ge> sz) (m_map mp) 0) (\<lambda>bp.
        let a = m_map mp; e = a ! bp; addr = m_addr e; rest = m_size e - sz in
        if m_size e = 0 then Inr (0, mp)
        else if rest \<noteq> 0 then
          Inr (addr, mp\<lparr>m_map := a[bp := e\<lparr>m_size := rest, m_addr := addr + sz\<rparr>]\<rparr>)
        else kbind (shift_down (a[bp := e\<lparr>m_size := rest\<rparr>]) bp)
               (\<lambda>a1. Inr (addr, mp\<lparr>m_map := a1\<rparr>))))"

text \<open>\<^verbatim>\<open>for (ep = bp - 1; ep >= start; *bp-- = *ep--);\<close> with \<open>ep = bp - 1\<close> throughout.\<close>

fun shift_up :: "mapent list \<Rightarrow> nat \<Rightarrow> nat \<Rightarrow> mapent list kres" where
  "shift_up a start 0 = Inr a"
| "shift_up a start (Suc ep) =
     (if start \<le> ep
      then (if Suc ep < length a then shift_up (a[Suc ep := a ! ep]) start ep else Inl Fault)
      else Inr a)"

text \<open>
  \<^verbatim>\<open>mfree\<close> as built, that is without \<^verbatim>\<open>DIAGNOSTIC\<close> (no configuration defines it). The
  Boolean result tells whether the overflow message was printed and the segment lost.
\<close>

definition mfree :: "rmap \<Rightarrow> u32 \<Rightarrow> u32 \<Rightarrow> (bool \<times> rmap) kres" where
  "mfree mp sz addr =
     (if sz = 0 then Inr (False, mp)
      else if addr = 0 then Inl (Panic ''mfree: addr = 0'')
      else kbind (advance (\<lambda>e. m_size e \<noteq> 0 \<and> m_addr e \<le> addr) (m_map mp) 0) (\<lambda>bp.
        let a = m_map mp; e = a ! (bp - 1); b = a ! bp in
        if bp \<noteq> 0 \<and> m_addr e + m_size e \<ge> addr then
          (let a1 = a[bp - 1 := e\<lparr>m_size := m_size e + sz\<rparr>] in
           if m_size b \<noteq> 0 \<and> addr + sz \<ge> m_addr b then
             kbind (shift_down (a1[bp - 1 := e\<lparr>m_size := m_size e + sz + m_size b\<rparr>]) bp)
               (\<lambda>a2. Inr (False, mp\<lparr>m_map := a2\<rparr>))
           else Inr (False, mp\<lparr>m_map := a1\<rparr>))
        else if m_size b \<noteq> 0 \<and> addr + sz \<ge> m_addr b then
          Inr (False, mp\<lparr>m_map := a[bp := b\<lparr>m_addr := addr, m_size := m_size b + sz\<rparr>]\<rparr>)
        else kbind (advance (\<lambda>e. m_size e \<noteq> 0) a bp) (\<lambda>z.
          if Suc z > m_limit mp then Inr (True, mp)
          else kbind (shift_up a bp (Suc z)) (\<lambda>a1.
            kbind (aget a1 bp) (\<lambda>s.
              kbind (aset a1 bp (s\<lparr>m_addr := addr, m_size := sz\<rparr>)) (\<lambda>a2.
                Inr (False, mp\<lparr>m_map := a2\<rparr>)))))))"

text \<open>
  \<^verbatim>\<open>malloc3\<close>: the state of the search (the array, \<^verbatim>\<open>madd\<close>, \<^verbatim>\<open>remap\<close> and \<^verbatim>\<open>found\<close>), the
  inner loop over \<^verbatim>\<open>next\<close> with its \<^verbatim>\<open>goto resolve\<close>, and the outer loop over the entries.
\<close>

record m3state =
  m3_map :: "mapent list"
  madd :: "nat option list"
  remap :: "nat option"
  found :: nat

fun malloc3_inner :: "u32 list \<Rightarrow> nat \<Rightarrow> nat list \<Rightarrow> m3state \<Rightarrow> m3state \<times> bool" where
  "malloc3_inner sizes bp [] s = (s, False)"
| "malloc3_inner sizes bp (n # ns) s =
     (if madd s ! n = None \<and> sizes ! n \<le> m_size (m3_map s ! bp) then
        (let e = m3_map s ! bp;
             r = m_size e - sizes ! n;
             s' = s\<lparr>m3_map := (m3_map s)[bp := e\<lparr>m_size := r\<rparr>],
                    madd := (madd s)[n := Some bp],
                    remap := (if r = 0 \<and> remap s = None then Some bp else remap s),
                    found := Suc (found s)\<rparr>
         in if found s' = 3 then (s', True) else malloc3_inner sizes bp ns s')
      else malloc3_inner sizes bp ns s)"

lemma length_malloc3_inner [simp]:
  "length (m3_map (fst (malloc3_inner sizes bp ns s))) = length (m3_map s)"
  by (induction ns arbitrary: s) (auto simp: Let_def)

function malloc3_scan :: "u32 list \<Rightarrow> nat \<Rightarrow> m3state \<Rightarrow> (m3state \<times> bool) kres" where
  "malloc3_scan sizes bp s =
     (if bp < length (m3_map s) then
        (if m_size (m3_map s ! bp) = 0 then Inr (s, False)
         else let r = malloc3_inner sizes bp [0, 1, 2] s in
           if snd r then Inr r else malloc3_scan sizes (Suc bp) (fst r))
      else Inl Fault)"
  by pat_completeness auto
termination
  by (relation "measure (\<lambda>(sizes, bp, s). length (m3_map s) - bp)")
    (simp_all del: malloc3_inner.simps)

fun malloc3_restore :: "u32 list \<Rightarrow> nat option list \<Rightarrow> nat list \<Rightarrow> mapent list \<Rightarrow> mapent list" where
  "malloc3_restore sizes md [] a = a"
| "malloc3_restore sizes md (n # ns) a =
     malloc3_restore sizes md ns
       (case md ! n of None \<Rightarrow> a
        | Some i \<Rightarrow> a[i := (a ! i)\<lparr>m_size := m_size (a ! i) + sizes ! n\<rparr>])"

fun malloc3_resolve ::
  "u32 list \<Rightarrow> nat option list \<Rightarrow> nat list \<Rightarrow> u32 list \<Rightarrow> mapent list \<Rightarrow> (u32 list \<times> mapent list) kres"
where
  "malloc3_resolve sizes md [] out a = Inr (out, a)"
| "malloc3_resolve sizes md (n # ns) out a =
     (case md ! n of None \<Rightarrow> Inl Fault
      | Some i \<Rightarrow> malloc3_resolve sizes md ns (out[n := m_addr (a ! i)])
                    (a[i := (a ! i)\<lparr>m_addr := m_addr (a ! i) + sizes ! n\<rparr>]))"

text \<open>\<^verbatim>\<open>for (bp = remap + 1;; ++bp) if (bp->m_size || !bp->m_addr) { *remap++ = *bp; ... }\<close>\<close>

function malloc3_compact :: "mapent list \<Rightarrow> nat \<Rightarrow> nat \<Rightarrow> mapent list kres" where
  "malloc3_compact a rm bp =
     (if bp < length a then
        (if m_size (a ! bp) \<noteq> 0 \<or> m_addr (a ! bp) = 0 then
           (if m_addr (a ! bp) = 0 then Inr (a[rm := a ! bp])
            else malloc3_compact (a[rm := a ! bp]) (Suc rm) (Suc bp))
         else malloc3_compact a rm (Suc bp))
      else Inl Fault)"
  by pat_completeness auto
termination
  by (relation "measure (\<lambda>(a, rm, bp). length a - bp)") auto

definition malloc3 ::
  "rmap \<Rightarrow> u32 \<Rightarrow> u32 \<Rightarrow> u32 \<Rightarrow> u32 list \<Rightarrow> (u32 \<times> u32 list \<times> rmap) kres" where
  "malloc3 mp d_size s_size u_size out =
     (let sizes = [d_size, s_size, u_size];
          s0 = \<lparr>m3_map = m_map mp, madd = [None, None, None], remap = None, found = 0\<rparr> in
      kbind (malloc3_scan sizes 0 s0) (\<lambda>r.
        let s = fst r in
        if \<not> snd r then
          Inr (0, out, mp\<lparr>m_map := malloc3_restore sizes (madd s) [0, 1, 2] (m3_map s)\<rparr>)
        else kbind (malloc3_resolve sizes (madd s) [0, 1, 2] out (m3_map s)) (\<lambda>(out', a).
          case remap s of
            None \<Rightarrow> Inr (out' ! 2, out', mp\<lparr>m_map := a\<rparr>)
          | Some rm \<Rightarrow> kbind (malloc3_compact a rm (Suc rm)) (\<lambda>a'.
              Inr (out' ! 2, out', mp\<lparr>m_map := a'\<rparr>)))))"

text \<open>The swap map as sys/pic32/machdep.c declares it; SMAPSIZ is NPROC, 10 by default.\<close>

definition SMAPSIZ :: nat where
  "SMAPSIZ = 10"

definition swapmap :: rmap where
  "swapmap = \<lparr>m_map = replicate SMAPSIZ \<lparr>m_size = 0, m_addr = 0\<rparr>, m_limit = SMAPSIZ, m_name = ''swapmap''\<rparr>"

section \<open>Segments, free units, the invariant\<close>

text \<open>
  The live part of the array is what precedes the terminator. \<open>segs_ok lo xs\<close>: the
  segments start above \<open>lo\<close>, are not empty, do not wrap around the address space, are
  sorted, and are separated by gaps (so that the map is fully coalesced).
\<close>

definition segs :: "mapent list \<Rightarrow> mapent list" where
  "segs a = takeWhile (\<lambda>e. m_size e \<noteq> 0) a"

definition seg_lo :: "mapent \<Rightarrow> nat" where
  "seg_lo e = unat (m_addr e)"

definition seg_hi :: "mapent \<Rightarrow> nat" where
  "seg_hi e = unat (m_addr e) + unat (m_size e)"

fun segs_ok :: "nat \<Rightarrow> mapent list \<Rightarrow> bool" where
  "segs_ok lo [] = True"
| "segs_ok lo (e # es) =
     (lo < seg_lo e \<and> m_size e \<noteq> 0 \<and> seg_hi e < 2 ^ 32 \<and> segs_ok (seg_hi e) es)"

definition units :: "mapent \<Rightarrow> nat set" where
  "units e = {seg_lo e ..< seg_hi e}"

definition free_units :: "mapent list \<Rightarrow> nat set" where
  "free_units xs = (\<Union>e\<in>set xs. units e)"

definition rmap_inv :: "rmap \<Rightarrow> bool" where
  "rmap_inv mp \<longleftrightarrow>
     (let a = m_map mp; n = length (segs a)
      in n < length a \<and> a ! n = \<lparr>m_size = 0, m_addr = 0\<rparr> \<and> segs_ok 0 (segs a))"

text \<open>
  \<^verbatim>\<open>m_limit\<close> is the last slot of the array, as map.h says, and there are at most that
  many segments, so that the terminator fits.
\<close>

definition limit_ok :: "rmap \<Rightarrow> bool" where
  "limit_ok mp \<longleftrightarrow> m_limit mp < length (m_map mp) \<and> length (segs (m_map mp)) \<le> m_limit mp"

definition rmap_free :: "rmap \<Rightarrow> nat set" where
  "rmap_free mp = free_units (segs (m_map mp))"

abbreviation map_end :: mapent where
  "map_end \<equiv> \<lparr>m_size = 0, m_addr = 0\<rparr>"

lemma free_units_simps [simp]:
  "free_units [] = {}"
  "free_units (e # es) = units e \<union> free_units es"
  "free_units (xs @ ys) = free_units xs \<union> free_units ys"
  by (auto simp: free_units_def)

lemma segs_ok_nonzero: "segs_ok lo xs \<Longrightarrow> e \<in> set xs \<Longrightarrow> m_size e \<noteq> 0"
  by (induction xs arbitrary: lo) auto

lemma segs_ok_mono: "segs_ok lo xs \<Longrightarrow> lo' \<le> lo \<Longrightarrow> segs_ok lo' xs"
  by (cases xs) auto

lemma seg_lo_less_hi: "m_size e \<noteq> 0 \<Longrightarrow> seg_lo e < seg_hi e"
  by (simp add: seg_lo_def seg_hi_def unat_nonzero_iff)

lemma segs_append_end:
  "segs_ok lo xs \<Longrightarrow> segs (xs @ map_end # ys) = xs"
  by (simp add: segs_def takeWhile_append2 segs_ok_nonzero)

text \<open>The shape of an array that satisfies the invariant.\<close>

lemma rmap_inv_iff:
  "rmap_inv mp \<longleftrightarrow> (\<exists>xs ys. m_map mp = xs @ map_end # ys \<and> segs_ok 0 xs)"
proof
  assume inv: "rmap_inv mp"
  define a where "a = m_map mp"
  define n where "n = length (segs a)"
  from inv have n: "n < length a" and t: "a ! n = map_end" and ok: "segs_ok 0 (segs a)"
    by (auto simp: rmap_inv_def Let_def a_def n_def)
  have "segs a = take n a"
    unfolding segs_def n_def by (rule takeWhile_eq_take)
  then have "a = segs a @ map_end # drop (Suc n) a"
    using id_take_nth_drop [OF n] t by simp
  with ok show "\<exists>xs ys. m_map mp = xs @ map_end # ys \<and> segs_ok 0 xs"
    unfolding a_def by blast
next
  assume "\<exists>xs ys. m_map mp = xs @ map_end # ys \<and> segs_ok 0 xs"
  then show "rmap_inv mp"
    by (auto simp: rmap_inv_def Let_def segs_append_end)
qed

lemma rmap_invE:
  assumes "rmap_inv mp"
  obtains xs ys where "m_map mp = xs @ map_end # ys" and "segs_ok 0 xs"
    and "segs (m_map mp) = xs" and "rmap_free mp = free_units xs"
  using assms segs_append_end unfolding rmap_inv_iff rmap_free_def by metis

lemma rmap_invI:
  assumes "m_map mp = xs @ map_end # ys" and "segs_ok 0 xs"
  shows "rmap_inv mp" and "rmap_free mp = free_units xs" and "segs (m_map mp) = xs"
  using assms by (auto simp: rmap_inv_iff rmap_free_def segs_append_end)

lemma segs_ok_append:
  "segs_ok lo (xs @ ys) \<longleftrightarrow>
     segs_ok lo xs \<and> segs_ok (if xs = [] then lo else seg_hi (last xs)) ys"
  by (induction xs arbitrary: lo) auto

lemma free_units_above: "segs_ok lo xs \<Longrightarrow> u \<in> free_units xs \<Longrightarrow> lo < u"
proof (induction xs arbitrary: lo)
  case Nil
  then show ?case by simp
next
  case (Cons e es)
  then show ?case
    using seg_lo_less_hi [of e] by (fastforce simp: units_def)
qed

lemma free_units_bound: "segs_ok lo xs \<Longrightarrow> u \<in> free_units xs \<Longrightarrow> u < 2 ^ 32"
  by (induction xs arbitrary: lo) (auto simp: units_def)

lemma free_units_below: "segs_ok lo xs \<Longrightarrow> u \<in> free_units xs \<Longrightarrow> u < seg_hi (last xs)"
proof (induction xs arbitrary: lo)
  case (Cons e es)
  show ?case
  proof (cases "es = []")
    case False
    then have "last es \<in> set es" by simp
    moreover have "segs_ok (seg_hi e) es" using Cons.prems(1) by simp
    ultimately have "seg_hi e < seg_hi (last es)"
      using free_units_above [of "seg_hi e" es "seg_lo (last es)"] seg_lo_less_hi [of "last es"]
        segs_ok_nonzero [of "seg_hi e" es "last es"]
      by (force simp: free_units_def units_def)
    with Cons False show ?thesis by (auto simp: units_def)
  qed (use Cons in \<open>simp add: units_def\<close>)
qed simp

lemma free_units_from: "segs_ok lo xs \<Longrightarrow> u \<in> free_units xs \<Longrightarrow> seg_lo (hd xs) \<le> u"
  using seg_lo_less_hi free_units_above
  by (cases xs) (fastforce simp: units_def)+

lemma gap_after:
  assumes "segs_ok lo (e # es)"
  shows "seg_hi e \<notin> free_units (e # es)"
  using assms free_units_above [of "seg_hi e" es "seg_hi e"] by (auto simp: units_def)

text \<open>A coalesced map is determined by its free units.\<close>

lemma segs_ok_unique:
  assumes "segs_ok lo xs" "segs_ok lo' ys" "free_units xs = free_units ys"
  shows "xs = ys"
  using assms
proof (induction xs arbitrary: ys lo lo')
  case Nil
  then show ?case
    by (cases ys) (use seg_lo_less_hi in \<open>fastforce simp: units_def\<close>)+
next
  case (Cons e es)
  have ne: "seg_lo e < seg_hi e" using Cons.prems(1) by (simp add: seg_lo_less_hi)
  obtain f fs where ys: "ys = f # fs"
    using Cons.prems(3) ne by (cases ys) (auto simp: units_def)
  have nf: "seg_lo f < seg_hi f" using Cons.prems(2) ys by (simp add: seg_lo_less_hi)
  note ae = free_units_above [of "seg_hi e" es] and af = free_units_above [of "seg_hi f" fs]
  have es: "segs_ok (seg_hi e) es" and fs: "segs_ok (seg_hi f) fs"
    using Cons.prems ys by auto
  have eq: "units e \<union> free_units es = units f \<union> free_units fs"
    using Cons.prems(3) ys by simp
  have lo: "seg_lo e = seg_lo f"
  proof -
    have "seg_lo e \<in> units f \<union> free_units fs" "seg_lo f \<in> units e \<union> free_units es"
      using eq ne nf by (auto simp: units_def)
    then show ?thesis
      using ae [OF es] af [OF fs] ne nf by (fastforce simp: units_def)
  qed
  have hi: "seg_hi e = seg_hi f"
  proof (rule ccontr)
    assume "seg_hi e \<noteq> seg_hi f"
    then consider "seg_hi e < seg_hi f" | "seg_hi f < seg_hi e" by linarith
    then show False
    proof cases
      case 1
      then have "seg_hi e \<in> units f" using lo ne by (simp add: units_def)
      with eq gap_after [OF Cons.prems(1)] show False by auto
    next
      case 2
      then have "seg_hi f \<in> units e" using lo nf by (simp add: units_def)
      with eq gap_after [OF Cons.prems(2) [unfolded ys]] show False by auto
    qed
  qed
  have "m_addr e = m_addr f" using lo by (simp add: seg_lo_def word_unat_eq_iff)
  moreover have "m_size e = m_size f" using lo hi by (simp add: seg_lo_def seg_hi_def word_unat_eq_iff)
  ultimately have "e = f" by simp
  moreover have "free_units es = free_units fs"
  proof -
    have "units e = units f" using lo hi by (simp add: units_def)
    moreover have "units e \<inter> free_units es = {}" "units f \<inter> free_units fs = {}"
      using ae [OF es] af [OF fs] by (fastforce simp: units_def)+
    ultimately show ?thesis using eq by blast
  qed
  ultimately show ?case using Cons.IH [OF es fs] ys by simp
qed

section \<open>The array loops\<close>

declare shift_down.simps [simp del] malloc3_scan.simps [simp del] malloc3_compact.simps [simp del]

lemma shift_down_append:
  assumes "\<forall>x\<in>set xs. m_size x \<noteq> 0"
  shows "shift_down (ws @ e # xs @ map_end # ys) (length ws) =
           Inr (ws @ xs @ map_end # map_end # ys)"
  using assms
proof (induction xs arbitrary: ws e)
  case Nil
  then show ?case
    by (simp add: shift_down.simps list_update_append nth_append)
next
  case (Cons x xs)
  then show ?case
    using Cons.IH [of "ws @ [x]" x]
    by (simp add: shift_down.simps [of _ "length ws"] list_update_append nth_append)
qed

lemma shift_up_append:
  "shift_up (ws @ zs @ y # ys) (length ws) (length ws + length zs) =
     Inr (ws @ hd (zs @ [y]) # zs @ ys)"
proof (induction zs arbitrary: y ys rule: rev_induct)
  case Nil
  then show ?case by (cases "length ws") auto
next
  case (snoc z zs)
  have "shift_up (ws @ (zs @ [z]) @ y # ys) (length ws) (length ws + length (zs @ [z])) =
        shift_up (ws @ zs @ z # z # ys) (length ws) (length ws + length zs)"
    by (simp add: list_update_append nth_append)
  also have "\<dots> = Inr (ws @ hd (zs @ [z]) # zs @ z # ys)"
    by (rule snoc.IH)
  finally show ?case by (cases zs) simp_all
qed

section \<open>Allocation\<close>

text \<open>What is left of a segment after \<open>sz\<close> units were taken from its front.\<close>

definition carve :: "mapent \<Rightarrow> u32 \<Rightarrow> mapent list" where
  "carve e sz = (if m_size e = sz then []
                 else [e\<lparr>m_size := m_size e - sz, m_addr := m_addr e + sz\<rparr>])"

lemma carve_bounds:
  assumes "segs_ok lo (e # es)" "sz \<le> m_size e" "m_size e \<noteq> sz"
  shows "seg_lo (e\<lparr>m_size := m_size e - sz, m_addr := m_addr e + sz\<rparr>) = seg_lo e + unat sz"
    and "seg_hi (e\<lparr>m_size := m_size e - sz, m_addr := m_addr e + sz\<rparr>) = seg_hi e"
proof -
  have "unat sz \<le> unat (m_size e)" using assms(2) by (simp add: word_le_unat)
  moreover have "unat (m_addr e) + unat (m_size e) < 2 ^ 32"
    using assms(1) by (simp add: seg_hi_def)
  ultimately have "unat (m_addr e + sz) = unat (m_addr e) + unat sz"
    by (intro unat_add_le) simp
  then show "seg_lo (e\<lparr>m_size := m_size e - sz, m_addr := m_addr e + sz\<rparr>) = seg_lo e + unat sz"
    and "seg_hi (e\<lparr>m_size := m_size e - sz, m_addr := m_addr e + sz\<rparr>) = seg_hi e"
    using \<open>unat sz \<le> unat (m_size e)\<close> assms(2)
    by (simp_all add: seg_lo_def seg_hi_def unat_sub_le)
qed

lemma carve_ok:
  assumes "segs_ok lo (us @ e # vs)" "sz \<le> m_size e" "sz \<noteq> 0"
  shows "segs_ok lo (us @ carve e sz @ vs)"
proof -
  define b where "b = (if us = [] then lo else seg_hi (last us))"
  from assms(1) have us: "segs_ok lo us" and e: "segs_ok b (e # vs)"
    by (simp_all add: segs_ok_append b_def)
  have "segs_ok b (carve e sz @ vs)"
  proof (cases "m_size e = sz")
    case True
    have "b \<le> seg_hi e" using e seg_lo_less_hi [of e] by simp
    with True e show ?thesis by (auto simp: carve_def intro: segs_ok_mono)
  next
    case False
    then have "m_size e - sz \<noteq> 0" by simp
    with False e carve_bounds [OF e assms(2) False] show ?thesis by (simp add: carve_def)
  qed
  with us show ?thesis by (simp add: segs_ok_append b_def)
qed

lemma segs_below:
  assumes "segs_ok lo (us @ e # vs)" "u \<in> free_units us"
  shows "u < seg_lo e"
  using assms
proof (induction us arbitrary: lo)
  case (Cons x us)
  have "seg_lo e \<in> free_units (us @ e # vs)"
    using Cons.prems(1) seg_lo_less_hi [of e] by (simp add: units_def segs_ok_append)
  with Cons.prems(1) have "seg_hi x < seg_lo e" by (auto dest: free_units_above)
  with Cons show ?case by (auto simp: units_def)
qed simp

lemma carve_free:
  assumes "segs_ok lo (us @ e # vs)" "sz \<le> m_size e"
  shows "free_units (us @ carve e sz @ vs) =
         free_units (us @ e # vs) - {seg_lo e ..< seg_lo e + unat sz}"
    and "{seg_lo e ..< seg_lo e + unat sz} \<subseteq> free_units (us @ e # vs)"
proof -
  define b where "b = (if us = [] then lo else seg_hi (last us))"
  from assms(1) have us: "segs_ok lo us" and e: "segs_ok b (e # vs)"
    by (simp_all add: segs_ok_append b_def)
  have sz: "seg_lo e + unat sz \<le> seg_hi e"
    using assms(2) by (simp add: seg_lo_def seg_hi_def word_le_unat)
  show "{seg_lo e ..< seg_lo e + unat sz} \<subseteq> free_units (us @ e # vs)"
    using sz by (auto simp: units_def)
  have above: "u \<in> free_units vs \<Longrightarrow> seg_hi e < u" for u
    using e free_units_above by auto
  have below: "u \<in> free_units us \<Longrightarrow> u < seg_lo e" for u
    using assms(1) by (rule segs_below)
  have "free_units (carve e sz) = units e - {seg_lo e ..< seg_lo e + unat sz}"
  proof (cases "m_size e = sz")
    case True
    then show ?thesis by (simp add: carve_def units_def seg_lo_def seg_hi_def)
  next
    case False
    then show ?thesis
      using carve_bounds [OF e assms(2) False] by (auto simp: carve_def units_def)
  qed
  then show "free_units (us @ carve e sz @ vs) =
         free_units (us @ e # vs) - {seg_lo e ..< seg_lo e + unat sz}"
    using above below sz by (auto dest: below above)
qed

lemma malloc_cases:
  assumes a: "m_map mp = xs @ map_end # ys" and ok: "segs_ok 0 xs" and sz: "sz \<noteq> 0"
  obtains (none) "\<forall>e\<in>set xs. m_size e < sz" and "malloc mp sz = Inr (0, mp)"
  | (fit) us e vs ys' where "xs = us @ e # vs" and "\<forall>x\<in>set us. m_size x < sz"
      and "sz \<le> m_size e"
      and "malloc mp sz =
             Inr (m_addr e, mp\<lparr>m_map := (us @ carve e sz @ vs) @ map_end # ys'\<rparr>)"
      and "length ((us @ carve e sz @ vs) @ map_end # ys') = length (m_map mp)"
proof (cases "\<exists>e\<in>set xs. sz \<le> m_size e")
  case False
  then have small: "\<forall>e\<in>set xs. m_size e < sz" by (auto simp: not_le)
  then have "advance (\<lambda>e. m_size e \<noteq> 0 \<and> \<not> m_size e \<ge> sz) (m_map mp) 0 = Inr (length xs)"
    unfolding a by (intro advance_from_0) (auto simp: segs_ok_nonzero [OF ok] not_le)
  then have "malloc mp sz = Inr (0, mp)"
    using sz by (simp add: malloc_def a Let_def)
  with small show thesis by (rule none)
next
  case True
  then obtain us e vs where xs: "xs = us @ e # vs" and e: "sz \<le> m_size e"
    and us: "\<forall>x\<in>set us. \<not> sz \<le> m_size x"
    using split_list_first_prop [of xs "\<lambda>e. sz \<le> m_size e"] by auto
  have nz: "\<forall>x\<in>set us. m_size x \<noteq> 0" "m_size e \<noteq> 0" "\<forall>x\<in>set vs. m_size x \<noteq> 0"
    using segs_ok_nonzero [OF ok] xs by auto
  have adv: "advance (\<lambda>e. m_size e \<noteq> 0 \<and> \<not> m_size e \<ge> sz) (m_map mp) 0 = Inr (length us)"
    unfolding a xs append.assoc append_Cons using us nz e by (intro advance_from_0) auto
  have small: "\<forall>x\<in>set us. m_size x < sz" using us by (auto simp: not_le)
  show thesis
  proof (cases "m_size e = sz")
    case True
    have "malloc mp sz = Inr (m_addr e, mp\<lparr>m_map := (us @ carve e sz @ vs) @ map_end # map_end # ys\<rparr>)"
      using sz nz adv True shift_down_append [OF nz(3), of us "e\<lparr>m_size := 0\<rparr>" ys]
      by (simp add: malloc_def a xs Let_def carve_def)
    then show thesis by (rule fit [OF xs small e]) (simp add: a xs carve_def True)
  next
    case False
    have "malloc mp sz = Inr (m_addr e, mp\<lparr>m_map := (us @ carve e sz @ vs) @ map_end # ys\<rparr>)"
      using sz nz adv False by (simp add: malloc_def a xs Let_def carve_def)
    then show thesis by (rule fit [OF xs small e]) (simp add: a xs carve_def False)
  qed
qed

text \<open>A contiguous run of free units lies inside one segment.\<close>

lemma run_in_segment:
  assumes "segs_ok lo xs" "{a ..< a + n} \<subseteq> free_units xs" "0 < n"
  shows "\<exists>e\<in>set xs. seg_lo e \<le> a \<and> a + n \<le> seg_hi e"
  using assms(1,2)
proof (induction xs arbitrary: lo)
  case Nil
  with \<open>0 < n\<close> show ?case by simp
next
  case (Cons e es)
  have "a \<in> {a ..< a + n}" using \<open>0 < n\<close> by simp
  with Cons.prems(2) have a: "a \<in> units e \<union> free_units es" by fastforce
  have gap: "seg_hi e \<notin> free_units (e # es)" by (rule gap_after [OF Cons.prems(1)])
  have es: "segs_ok (seg_hi e) es" using Cons.prems(1) by simp
  show ?case
  proof (cases "a \<in> units e")
    case True
    have "a + n \<le> seg_hi e"
    proof (rule ccontr)
      assume "\<not> a + n \<le> seg_hi e"
      then have "seg_hi e \<in> {a ..< a + n}" using True by (simp add: units_def)
      with Cons.prems(2) gap show False by blast
    qed
    with True show ?thesis by (auto simp: units_def)
  next
    case False
    with a have "seg_hi e < a" using free_units_above [OF es] by blast
    then have "{a ..< a + n} \<subseteq> free_units es"
      using Cons.prems(2) by (auto simp: units_def)
    from Cons.IH [OF es this] show ?thesis by auto
  qed
qed

lemma segs_lo_mono:
  assumes "segs_ok lo (us @ e # vs)" "x \<in> set vs"
  shows "seg_hi e < seg_lo x"
proof -
  have "segs_ok (seg_hi e) vs" using assms(1) by (simp add: segs_ok_append)
  moreover have "seg_lo x \<in> free_units vs"
    using assms segs_ok_nonzero [OF assms(1)] seg_lo_less_hi [of x]
    by (force simp: free_units_def units_def)
  ultimately show ?thesis by (rule free_units_above)
qed

lemma no_run_before:
  assumes ok: "segs_ok lo (us @ e # vs)" and us: "\<forall>x\<in>set us. m_size x < sz"
    and sz: "sz \<noteq> 0" and b: "b < seg_lo e"
  shows "\<not> {b ..< b + unat sz} \<subseteq> free_units (us @ e # vs)"
proof
  assume "{b ..< b + unat sz} \<subseteq> free_units (us @ e # vs)"
  then obtain x where x: "x \<in> set (us @ e # vs)" "seg_lo x \<le> b" "b + unat sz \<le> seg_hi x"
    using run_in_segment [OF ok, of b "unat sz"] sz by (auto simp: unat_nonzero_iff)
  have "unat sz \<le> unat (m_size x)" using x(2,3) by (simp add: seg_lo_def seg_hi_def)
  then have "x \<notin> set us" using us by (auto simp: word_less_unat)
  moreover have "x \<noteq> e" using x(2) b by auto
  moreover have "seg_lo e < seg_hi e"
    using segs_ok_nonzero [OF ok] by (simp add: seg_lo_less_hi)
  ultimately show False using segs_lo_mono [OF ok] x b by fastforce
qed

lemma malloc_spec:
  assumes inv: "rmap_inv mp" and sz: "sz \<noteq> 0"
  obtains (none) "malloc mp sz = Inr (0, mp)"
      and "\<forall>b. \<not> {b ..< b + unat sz} \<subseteq> rmap_free mp"
  | (fit) addr mp' where "malloc mp sz = Inr (addr, mp')" and "addr \<noteq> 0"
      and "{unat addr ..< unat addr + unat sz} \<subseteq> rmap_free mp"
      and "\<forall>b < unat addr. \<not> {b ..< b + unat sz} \<subseteq> rmap_free mp"
      and "rmap_inv mp'"
      and "rmap_free mp' = rmap_free mp - {unat addr ..< unat addr + unat sz}"
      and "m_limit mp' = m_limit mp" and "m_name mp' = m_name mp"
      and "length (m_map mp') = length (m_map mp)"
      and "limit_ok mp \<Longrightarrow> limit_ok mp'"
      and "unat addr + unat sz \<in> rmap_free mp' \<or>
             length (segs (m_map mp')) < length (segs (m_map mp))"
proof -
  obtain xs ys where a: "m_map mp = xs @ map_end # ys" and ok: "segs_ok 0 xs"
    and sg: "segs (m_map mp) = xs" and free: "rmap_free mp = free_units xs"
    using inv by (rule rmap_invE)
  from a ok sz show thesis
  proof (cases rule: malloc_cases)
    case none
    have "\<not> {b ..< b + unat sz} \<subseteq> free_units xs" for b
    proof
      assume "{b ..< b + unat sz} \<subseteq> free_units xs"
      then obtain e where "e \<in> set xs" "seg_lo e \<le> b" "b + unat sz \<le> seg_hi e"
        using run_in_segment [OF ok, of b "unat sz"] sz by (auto simp: unat_nonzero_iff)
      moreover from this have "unat sz \<le> unat (m_size e)" by (simp add: seg_lo_def seg_hi_def)
      ultimately show False using none(1) by (auto simp: word_less_unat)
    qed
    with none(2) show thesis by (intro that(1)) (simp_all add: free)
  next
    case (fit us e vs ys')
    let ?mp = "mp\<lparr>m_map := (us @ carve e sz @ vs) @ map_end # ys'\<rparr>"
    have ok': "segs_ok 0 (us @ carve e sz @ vs)"
      using carve_ok ok fit sz by simp
    note inv' = rmap_invI [of ?mp, OF _ ok']
    have rest: "unat (m_addr e) + unat sz \<in> rmap_free ?mp \<or>
        length (segs (m_map ?mp)) < length (segs (m_map mp))"
    proof (cases "m_size e = sz")
      case False
      moreover have e: "segs_ok (if us = [] then 0 else seg_hi (last us)) (e # vs)"
        using ok fit(1) by (simp add: segs_ok_append)
      moreover note carve_bounds [OF e fit(3) False]
      moreover have "unat sz < unat (m_size e)"
        using False fit(3) by (simp add: word_le_unat word_unat_eq_iff)
      ultimately show ?thesis
        using inv' by (auto simp: carve_def units_def seg_lo_def seg_hi_def)
    qed (use inv' fit(1) sg in \<open>simp add: carve_def\<close>)
    have "seg_lo e \<in> free_units xs"
      using fit(1) segs_ok_nonzero [OF ok] seg_lo_less_hi [of e] by (auto simp: units_def)
    then have "0 < seg_lo e" using free_units_above [OF ok] by blast
    then have nz: "m_addr e \<noteq> 0" by (simp add: seg_lo_def unat_nonzero_iff)
    show thesis
    proof (rule that(2) [OF fit(4)])
      show "rmap_inv ?mp" using inv' by simp
      show "limit_ok mp \<Longrightarrow> limit_ok ?mp"
        using inv' fit(1,5) sg by (auto simp: limit_ok_def carve_def split: if_splits)
    qed (use nz rest fit(5) carve_free [OF ok [unfolded fit(1)] fit(3)] free inv' fit(1)
           no_run_before [OF ok [unfolded fit(1)] fit(2) sz] in
         \<open>auto simp: seg_lo_def\<close>)
  qed
qed

section \<open>Release\<close>

text \<open>A range that may be returned: not empty, not at 0, not wrapping, not free already.\<close>

definition returnable :: "rmap \<Rightarrow> u32 \<Rightarrow> u32 \<Rightarrow> bool" where
  "returnable mp sz addr \<longleftrightarrow>
     sz \<noteq> 0 \<and> addr \<noteq> 0 \<and> unat addr + unat sz < 2 ^ 32 \<and>
     rmap_free mp \<inter> {unat addr ..< unat addr + unat sz} = {}"

lemma segs_ok_lift:
  "segs_ok b vs \<Longrightarrow> vs = [] \<or> c < seg_lo (hd vs) \<Longrightarrow> segs_ok c vs"
  by (cases vs) auto

lemma seg_end_word: "seg_hi e < 2 ^ 32 \<Longrightarrow> unat (m_addr e + m_size e) = seg_hi e"
  by (simp add: seg_hi_def unat_add_le)

lemma segs_ok_hi: "segs_ok lo xs \<Longrightarrow> e \<in> set xs \<Longrightarrow> seg_hi e < 2 ^ 32"
  by (induction xs arbitrary: lo) auto

text \<open>The four ways in which a range can enter the list of segments.\<close>

lemma join_both:
  assumes ok: "segs_ok lo (us @ e # v # vs)" and e: "seg_hi e = unat addr"
    and v: "unat addr + unat sz = seg_lo v"
  defines "n \<equiv> e\<lparr>m_size := m_size e + sz + m_size v\<rparr>"
  shows "segs_ok lo (us @ n # vs)"
    and "free_units (us @ n # vs) =
           free_units (us @ e # v # vs) \<union> {unat addr ..< unat addr + unat sz}"
proof -
  have ev: "m_size e \<noteq> 0" "m_size v \<noteq> 0" "seg_hi v < 2 ^ 32"
    using ok by (simp_all add: segs_ok_append)
  have sum: "unat (m_addr e) + (unat (m_size e) + unat sz + unat (m_size v)) = seg_hi v"
    using e v by (simp add: seg_lo_def seg_hi_def)
  then have "unat (m_size e + sz + m_size v) = unat (m_size e) + unat sz + unat (m_size v)"
    using ev(3) by (simp add: unat_add_le)
  with sum have n: "seg_lo n = seg_lo e" "seg_hi n = seg_hi v" "m_size n \<noteq> 0"
    using ev by (auto simp: n_def seg_lo_def seg_hi_def unat_nonzero_iff)
  from ok n show "segs_ok lo (us @ n # vs)" by (simp add: segs_ok_append)
  have "units n = units e \<union> units v \<union> {unat addr ..< unat addr + unat sz}"
    using n e v seg_lo_less_hi [OF ev(1)] seg_lo_less_hi [OF ev(2)] by (auto simp: units_def)
  then show "free_units (us @ n # vs) =
           free_units (us @ e # v # vs) \<union> {unat addr ..< unat addr + unat sz}"
    by auto
qed

lemma join_left:
  assumes ok: "segs_ok lo (us @ e # vs)" and e: "seg_hi e = unat addr"
    and r: "unat addr + unat sz < 2 ^ 32"
    and vs: "vs = [] \<or> unat addr + unat sz < seg_lo (hd vs)"
  defines "n \<equiv> e\<lparr>m_size := m_size e + sz\<rparr>"
  shows "segs_ok lo (us @ n # vs)"
    and "free_units (us @ n # vs) =
           free_units (us @ e # vs) \<union> {unat addr ..< unat addr + unat sz}"
proof -
  have ne: "m_size e \<noteq> 0" using ok by (simp add: segs_ok_append)
  have sum: "unat (m_addr e) + (unat (m_size e) + unat sz) = unat addr + unat sz"
    using e by (simp add: seg_hi_def)
  then have "unat (m_size e + sz) = unat (m_size e) + unat sz"
    using r by (simp add: unat_add_le)
  with sum have n: "seg_lo n = seg_lo e" "seg_hi n = unat addr + unat sz" "m_size n \<noteq> 0"
    using ne by (auto simp: n_def seg_lo_def seg_hi_def unat_nonzero_iff)
  from ok have "segs_ok (seg_hi e) vs" by (simp add: segs_ok_append)
  then have "segs_ok (seg_hi n) vs" using vs n(2) by (auto intro: segs_ok_lift)
  with ok n r show "segs_ok lo (us @ n # vs)" by (simp add: segs_ok_append)
  have "units n = units e \<union> {unat addr ..< unat addr + unat sz}"
    using n e seg_lo_less_hi [OF ne] by (auto simp: units_def)
  then show "free_units (us @ n # vs) =
           free_units (us @ e # vs) \<union> {unat addr ..< unat addr + unat sz}"
    by auto
qed

lemma join_right:
  assumes ok: "segs_ok lo (us @ v # vs)" and v: "unat addr + unat sz = seg_lo v"
    and us: "(if us = [] then lo else seg_hi (last us)) < unat addr"
  defines "n \<equiv> v\<lparr>m_addr := addr, m_size := m_size v + sz\<rparr>"
  shows "segs_ok lo (us @ n # vs)"
    and "free_units (us @ n # vs) =
           free_units (us @ v # vs) \<union> {unat addr ..< unat addr + unat sz}"
proof -
  have nv: "m_size v \<noteq> 0" "seg_hi v < 2 ^ 32" using ok by (simp_all add: segs_ok_append)
  have sum: "unat addr + (unat (m_size v) + unat sz) = seg_hi v"
    using v by (simp add: seg_lo_def seg_hi_def)
  then have "unat (m_size v + sz) = unat (m_size v) + unat sz"
    using nv by (simp add: unat_add_le)
  with sum have n: "seg_lo n = unat addr" "seg_hi n = seg_hi v" "m_size n \<noteq> 0"
    using nv by (auto simp: n_def seg_lo_def seg_hi_def unat_nonzero_iff)
  from ok n us show "segs_ok lo (us @ n # vs)" by (simp add: segs_ok_append)
  have "units n = units v \<union> {unat addr ..< unat addr + unat sz}"
    using n v seg_lo_less_hi [OF nv(1)] by (auto simp: units_def)
  then show "free_units (us @ n # vs) =
           free_units (us @ v # vs) \<union> {unat addr ..< unat addr + unat sz}"
    by auto
qed

lemma join_new:
  assumes ok: "segs_ok lo (us @ vs)"
    and us: "(if us = [] then lo else seg_hi (last us)) < unat addr"
    and vs: "vs = [] \<or> unat addr + unat sz < seg_lo (hd vs)"
    and r: "sz \<noteq> 0" "unat addr + unat sz < 2 ^ 32"
  defines "n \<equiv> \<lparr>m_size = sz, m_addr = addr\<rparr>"
  shows "segs_ok lo (us @ n # vs)"
    and "free_units (us @ n # vs) =
           free_units (us @ vs) \<union> {unat addr ..< unat addr + unat sz}"
proof -
  have n: "seg_lo n = unat addr" "seg_hi n = unat addr + unat sz"
    by (simp_all add: n_def seg_lo_def seg_hi_def)
  from ok have "segs_ok (if us = [] then lo else seg_hi (last us)) vs"
    by (simp add: segs_ok_append)
  then have "segs_ok (seg_hi n) vs" using vs n(2) by (auto intro: segs_ok_lift)
  with ok n r us show "segs_ok lo (us @ n # vs)" by (simp add: segs_ok_append n_def)
  show "free_units (us @ n # vs) =
           free_units (us @ vs) \<union> {unat addr ..< unat addr + unat sz}"
    using n by (auto simp: units_def)
qed

text \<open>
  Where \<^verbatim>\<open>mfree\<close> stops its search: the segments before that point lie below the returned
  range, those after it above.
\<close>

definition mfree_at :: "mapent list \<Rightarrow> u32 \<Rightarrow> u32 \<Rightarrow> mapent list \<Rightarrow> mapent list \<Rightarrow> bool" where
  "mfree_at xs sz addr us vs \<longleftrightarrow>
     xs = us @ vs \<and> (\<forall>e\<in>set us. m_addr e \<le> addr) \<and> (vs = [] \<or> \<not> m_addr (hd vs) \<le> addr) \<and>
     (us = [] \<or> seg_hi (last us) \<le> unat addr) \<and>
     (vs = [] \<or> unat addr + unat sz \<le> seg_lo (hd vs))"

lemma mfree_split:
  assumes ok: "segs_ok 0 xs" and r: "sz \<noteq> 0"
    and dis: "free_units xs \<inter> {unat addr ..< unat addr + unat sz} = {}"
  obtains us vs where "mfree_at xs sz addr us vs"
proof -
  define us where "us = takeWhile (\<lambda>e. m_addr e \<le> addr) xs"
  define vs where "vs = dropWhile (\<lambda>e. m_addr e \<le> addr) xs"
  have xs: "xs = us @ vs" by (simp add: us_def vs_def)
  have below: "\<forall>e\<in>set us. m_addr e \<le> addr" by (auto simp: us_def dest: set_takeWhileD)
  have above: "vs = [] \<or> \<not> m_addr (hd vs) \<le> addr"
    using hd_dropWhile [of "\<lambda>e. m_addr e \<le> addr" xs] by (auto simp: vs_def)
  have out: "u \<notin> free_units xs" if "unat addr \<le> u" "u < unat addr + unat sz" for u
    using dis that by auto
  have "us = [] \<or> seg_hi (last us) \<le> unat addr"
  proof (rule disjCI, rule ccontr)
    assume "us \<noteq> []" and big: "\<not> seg_hi (last us) \<le> unat addr"
    then have l: "last us \<in> set us" by simp
    then have "seg_lo (last us) \<le> unat addr"
      using below by (auto simp: seg_lo_def word_le_unat)
    with big have "unat addr \<in> units (last us)" by (simp add: units_def)
    with l have "unat addr \<in> free_units xs" by (auto simp: free_units_def xs)
    with out [of "unat addr"] r show False by (simp add: unat_nonzero_iff)
  qed
  moreover have "vs = [] \<or> unat addr + unat sz \<le> seg_lo (hd vs)"
  proof (rule disjCI, rule ccontr)
    assume ne: "vs \<noteq> []" and small: "\<not> unat addr + unat sz \<le> seg_lo (hd vs)"
    then have h: "hd vs \<in> set xs" by (simp add: xs)
    then have "seg_lo (hd vs) \<in> units (hd vs)"
      using segs_ok_nonzero [OF ok] seg_lo_less_hi [of "hd vs"] by (simp add: units_def)
    with h have "seg_lo (hd vs) \<in> free_units xs" by (auto simp: free_units_def)
    moreover have "unat addr \<le> seg_lo (hd vs)"
      using above ne by (auto simp: seg_lo_def word_le_unat)
    ultimately show False using out small by auto
  qed
  ultimately show thesis using that xs below above unfolding mfree_at_def by blast
qed

lemma mfree_unfold:
  assumes a: "m_map mp = xs @ map_end # ys" and ok: "segs_ok 0 xs"
    and sz: "sz \<noteq> 0" and addr: "addr \<noteq> 0" and nw: "unat addr + unat sz < 2 ^ 32"
    and at: "mfree_at xs sz addr us vs"
  defines "b \<equiv> m_map mp ! length us" and "e \<equiv> m_map mp ! (length us - 1)"
  shows "mfree mp sz addr =
      (if us \<noteq> [] \<and> seg_hi (last us) = unat addr then
         (let a1 = (m_map mp)[length us - 1 := e\<lparr>m_size := m_size e + sz\<rparr>] in
          if vs \<noteq> [] \<and> unat addr + unat sz = seg_lo (hd vs) then
            kbind (shift_down (a1[length us - 1 := e\<lparr>m_size := m_size e + sz + m_size b\<rparr>])
              (length us)) (\<lambda>a2. Inr (False, mp\<lparr>m_map := a2\<rparr>))
          else Inr (False, mp\<lparr>m_map := a1\<rparr>))
       else if vs \<noteq> [] \<and> unat addr + unat sz = seg_lo (hd vs) then
         Inr (False, mp\<lparr>m_map := (m_map mp)[length us :=
            b\<lparr>m_addr := addr, m_size := m_size b + sz\<rparr>]\<rparr>)
       else kbind (advance (\<lambda>e. m_size e \<noteq> 0) (m_map mp) (length us)) (\<lambda>z.
          if Suc z > m_limit mp then Inr (True, mp)
          else kbind (shift_up (m_map mp) (length us) (Suc z)) (\<lambda>a1.
            kbind (aget a1 (length us)) (\<lambda>s.
              kbind (aset a1 (length us) (s\<lparr>m_addr := addr, m_size := sz\<rparr>)) (\<lambda>a2.
                Inr (False, mp\<lparr>m_map := a2\<rparr>))))))"
proof -
  have xs: "xs = us @ vs"
    and us: "\<forall>e\<in>set us. m_addr e \<le> addr" and vs: "vs = [] \<or> \<not> m_addr (hd vs) \<le> addr"
    and ub: "us = [] \<or> seg_hi (last us) \<le> unat addr"
    and vb: "vs = [] \<or> unat addr + unat sz \<le> seg_lo (hd vs)"
    using at by (auto simp: mfree_at_def)
  have nz: "\<forall>x\<in>set us. m_size x \<noteq> 0" "\<forall>x\<in>set vs. m_size x \<noteq> 0"
    using segs_ok_nonzero [OF ok] xs by auto
  have adv: "advance (\<lambda>e. m_size e \<noteq> 0 \<and> m_addr e \<le> addr) (m_map mp) 0 = Inr (length us)"
    using us nz vs by (cases vs) (auto simp: a xs intro: advance_from_0)
  have "unat (addr + sz) = unat addr + unat sz" using nw by (simp add: unat_add_le)
  then have rgt: "m_size b \<noteq> 0 \<and> addr + sz \<ge> m_addr b \<longleftrightarrow>
      vs \<noteq> [] \<and> unat addr + unat sz = seg_lo (hd vs)"
    using vb nz(2) by (cases vs) (auto simp: b_def a xs word_le_unat seg_lo_def)
  have lft: "length us \<noteq> 0 \<and> m_addr e + m_size e \<ge> addr \<longleftrightarrow>
      us \<noteq> [] \<and> seg_hi (last us) = unat addr"
  proof (cases us rule: rev_cases)
    case (snoc us' e')
    then have "unat (m_addr e + m_size e) = seg_hi (last us)"
      using segs_ok_hi [OF ok, of e'] xs by (auto simp: e_def a nth_append intro: seg_end_word)
    then show ?thesis using ub snoc by (auto simp: word_le_unat)
  qed simp
  show ?thesis
    unfolding lft [symmetric] rgt [symmetric]
    using sz addr adv by (simp add: mfree_def Let_def b_def e_def)
qed

lemma mfree_cases:
  assumes a: "m_map mp = xs @ map_end # ys" and ok: "segs_ok 0 xs"
    and lim: "length xs \<le> m_limit mp" and ret: "returnable mp sz addr"
  obtains (both) us e v vs where "xs = us @ e # v # vs" and "seg_hi e = unat addr"
      and "unat addr + unat sz = seg_lo v"
      and "mfree mp sz addr = Inr (False, mp\<lparr>m_map :=
             (us @ e\<lparr>m_size := m_size e + sz + m_size v\<rparr> # vs) @ map_end # map_end # ys\<rparr>)"
  | (left) us e vs where "xs = us @ e # vs" and "seg_hi e = unat addr"
      and "vs = [] \<or> unat addr + unat sz < seg_lo (hd vs)"
      and "mfree mp sz addr = Inr (False, mp\<lparr>m_map :=
             (us @ e\<lparr>m_size := m_size e + sz\<rparr> # vs) @ map_end # ys\<rparr>)"
  | (right) us v vs where "xs = us @ v # vs" and "unat addr + unat sz = seg_lo v"
      and "(if us = [] then 0 else seg_hi (last us)) < unat addr"
      and "mfree mp sz addr = Inr (False, mp\<lparr>m_map :=
             (us @ v\<lparr>m_addr := addr, m_size := m_size v + sz\<rparr> # vs) @ map_end # ys\<rparr>)"
  | (new) us vs y ys' where "xs = us @ vs" and "ys = y # ys'"
      and "(if us = [] then 0 else seg_hi (last us)) < unat addr"
      and "vs = [] \<or> unat addr + unat sz < seg_lo (hd vs)"
      and "Suc (length xs) \<le> m_limit mp"
      and "mfree mp sz addr = Inr (False, mp\<lparr>m_map :=
             (us @ \<lparr>m_size = sz, m_addr = addr\<rparr> # vs) @ map_end # ys'\<rparr>)"
  | (lost) us vs where "xs = us @ vs" and "(if us = [] then 0 else seg_hi (last us)) < unat addr"
      and "vs = [] \<or> unat addr + unat sz < seg_lo (hd vs)"
      and "m_limit mp = length xs" and "mfree mp sz addr = Inr (True, mp)"
  | (over) us vs where "xs = us @ vs" and "(if us = [] then 0 else seg_hi (last us)) < unat addr"
      and "vs = [] \<or> unat addr + unat sz < seg_lo (hd vs)"
      and "ys = []" and "length xs < m_limit mp" and "mfree mp sz addr = Inl Fault"
proof -
  have sg: "segs (m_map mp) = xs" and free: "rmap_free mp = free_units xs"
    using rmap_invI [OF a ok] by auto
  have sz: "sz \<noteq> 0" and addr: "addr \<noteq> 0" and nw: "unat addr + unat sz < 2 ^ 32"
    and dis: "free_units xs \<inter> {unat addr ..< unat addr + unat sz} = {}"
    using ret by (auto simp: returnable_def free)
  from ok sz dis obtain us vs where at: "mfree_at xs sz addr us vs" by (rule mfree_split)
  then have xs: "xs = us @ vs" and ub: "us = [] \<or> seg_hi (last us) \<le> unat addr"
    and vb: "vs = [] \<or> unat addr + unat sz \<le> seg_lo (hd vs)"
    by (auto simp: mfree_at_def)
  have nz: "\<forall>x\<in>set us. m_size x \<noteq> 0" "\<forall>x\<in>set vs. m_size x \<noteq> 0"
    using segs_ok_nonzero [OF ok] xs by auto
  have ll: "length us + length vs \<le> m_limit mp"
    using lim by (simp add: xs)
  define b where "b = m_map mp ! length us"
  define e where "e = m_map mp ! (length us - 1)"
  note mf = mfree_unfold [OF a ok sz addr nw at, folded b_def e_def]
  show thesis
  proof (cases "us \<noteq> [] \<and> seg_hi (last us) = unat addr")
    case L: True
    then obtain us' where u: "us = us' @ [e]"
      by (cases us rule: rev_cases) (simp_all add: e_def a xs nth_append)
    show thesis
    proof (cases "vs \<noteq> [] \<and> unat addr + unat sz = seg_lo (hd vs)")
      case R: True
      then obtain vs' where v: "vs = b # vs'"
        by (cases vs) (simp_all add: b_def a xs nth_append)
      have "\<forall>x\<in>set vs'. m_size x \<noteq> 0" using nz(2) v by simp
      note sd = shift_down_append [OF this,
        of "us' @ [e\<lparr>m_size := m_size e + sz + m_size b\<rparr>]" b ys]
      show thesis
        by (rule both [of us' e b vs']) (use L R sd in \<open>simp_all add: mf a xs u v Let_def\<close>)
    next
      case False
      then show thesis
        by (intro left [of us' e vs]) (use L vb in \<open>auto simp: mf a xs u Let_def\<close>)
    qed
  next
    case L: False
    then have less: "(if us = [] then 0 else seg_hi (last us)) < unat addr"
      using ub addr by (auto simp: unat_nonzero_iff)
    show thesis
    proof (cases "vs \<noteq> [] \<and> unat addr + unat sz = seg_lo (hd vs)")
      case R: True
      then obtain vs' where v: "vs = b # vs'"
        by (cases vs) (simp_all add: b_def a xs nth_append)
      show thesis
        by (rule right [of us b vs']) (use L R less in \<open>auto simp: mf a xs v\<close>)
    next
      case R: False
      then have vl: "vs = [] \<or> unat addr + unat sz < seg_lo (hd vs)" using vb by auto
      note mfn = mf [unfolded if_not_P [OF L] if_not_P [OF R]]
      have z: "advance (\<lambda>e. m_size e \<noteq> 0) (m_map mp) (length us) = Inr (length us + length vs)"
        using nz(2) unfolding a xs append.assoc by (intro advance_append) auto
      show thesis
      proof (cases "Suc (length us + length vs) > m_limit mp")
        case True
        then show thesis
          using z ll by (intro lost [OF xs less vl]) (auto simp: mfn xs)
      next
        case False
        show thesis
        proof (cases ys)
          case Nil
          with False z show thesis by (intro over [OF xs less vl]) (simp_all add: mfn xs a)
        next
          case y: (Cons y ys')
        have "shift_up (m_map mp) (length us) (Suc (length us + length vs)) =
              Inr (us @ hd (vs @ [map_end, y]) # vs @ map_end # ys')"
          using shift_up_append [of us "vs @ [map_end]" y ys'] by (simp add: a xs y)
        then show thesis
          using z False by (intro new [OF xs y less vl]) (simp_all add: mfn xs)
        qed
      qed
    qed
  qed
qed

text \<open>
  A release when the slots are all in use: the segment abuts none and all slots but that of the
  terminator are taken.
\<close>

definition abuts_none :: "rmap \<Rightarrow> u32 \<Rightarrow> u32 \<Rightarrow> bool" where
  "abuts_none mp sz addr \<longleftrightarrow> unat addr - 1 \<notin> rmap_free mp \<and> unat addr + unat sz \<notin> rmap_free mp"

definition slots_full :: "rmap \<Rightarrow> bool" where
  "slots_full mp \<longleftrightarrow> Suc (length (segs (m_map mp))) = length (m_map mp)"

lemma apart_abuts_none:
  assumes ok: "segs_ok 0 (us @ vs)" and u: "(if us = [] then 0 else seg_hi (last us)) < unat addr"
    and v: "vs = [] \<or> unat addr + unat sz < seg_lo (hd vs)" and free: "rmap_free mp = free_units (us @ vs)"
  shows "abuts_none mp sz addr"
proof -
  have oku: "segs_ok 0 us" and okv: "segs_ok (if us = [] then 0 else seg_hi (last us)) vs"
    using ok by (simp_all add: segs_ok_append)
  have "u \<in> free_units us \<Longrightarrow> u < unat addr - 1" for u
    using free_units_below [OF oku, of u] u by (cases "us = []") auto
  moreover have "u \<in> free_units vs \<Longrightarrow> unat addr + unat sz < u" for u
    using free_units_from [OF okv, of u] v by (cases "vs = []") auto
  ultimately show ?thesis unfolding abuts_none_def free by fastforce
qed

lemma mfree_any:
  assumes inv: "rmap_inv mp" and lim: "length (segs (m_map mp)) \<le> m_limit mp" and ret: "returnable mp sz addr"
  obtains (lost) "mfree mp sz addr = Inr (True, mp)" and "m_limit mp = length (segs (m_map mp))" and "abuts_none mp sz addr"
  | (kept) mp' where "mfree mp sz addr = Inr (False, mp')" and "rmap_inv mp'"
      and "rmap_free mp' = rmap_free mp \<union> {unat addr ..< unat addr + unat sz}"
      and "length (segs (m_map mp')) \<le> m_limit mp" and "m_limit mp' = m_limit mp" and "m_name mp' = m_name mp"
      and "length (m_map mp') = length (m_map mp)"
  | (fault) "mfree mp sz addr = Inl Fault" and "slots_full mp" and "abuts_none mp sz addr" and "length (m_map mp) \<le> m_limit mp"
proof -
  obtain xs ys where a: "m_map mp = xs @ map_end # ys" and ok: "segs_ok 0 xs"
    and sg: "segs (m_map mp) = xs" and free: "rmap_free mp = free_units xs"
    using inv by (rule rmap_invE)
  have sz: "sz \<noteq> 0" and nw: "unat addr + unat sz < 2 ^ 32"
    using ret by (auto simp: returnable_def)
  have ll: "length xs \<le> m_limit mp" using lim by (simp add: sg)
  have fin: thesis
    if r: "mfree mp sz addr = Inr (False, mp\<lparr>m_map := zs @ map_end # ws\<rparr>)"
      and z: "segs_ok 0 zs" "free_units zs = free_units xs \<union> {unat addr ..< unat addr + unat sz}"
      and l: "length zs \<le> m_limit mp" "length (zs @ map_end # ws) = length (m_map mp)" for zs ws
  proof (rule kept [OF r])
    show "rmap_inv (mp\<lparr>m_map := zs @ map_end # ws\<rparr>)"
      by (rule rmap_invI(1) [OF _ z(1)]) simp
  qed (use z l segs_append_end [OF z(1)] free in \<open>auto simp: rmap_free_def\<close>)
  from a ok ll ret show thesis
  proof (cases rule: mfree_cases)
    case (both us e v vs)
    show thesis
      by (rule fin [OF both(4)])
        (use join_both [OF ok [unfolded both(1)] both(2,3)] both(1) ll a in simp_all)
  next
    case (left us e vs)
    show thesis
      by (rule fin [OF left(4)])
        (use join_left [OF ok [unfolded left(1)] left(2) nw left(3)] left(1) ll a in simp_all)
  next
    case (right us v vs)
    show thesis
      by (rule fin [OF right(4)])
        (use join_right [OF ok [unfolded right(1)] right(2,3)] right(1) ll a in simp_all)
  next
    case (new us vs y ys')
    show thesis
      by (rule fin [OF new(6)])
        (use join_new [OF ok [unfolded new(1)] new(3,4) sz nw] new(1,2,5) a in simp_all)
  next
    case l: (lost us vs)
    have "abuts_none mp sz addr" by (rule apart_abuts_none [OF ok [unfolded l(1)] l(2,3) free [unfolded l(1)]])
    then show thesis using l(4,5) sg by (intro lost) auto
  next
    case o: (over us vs)
    have "abuts_none mp sz addr" by (rule apart_abuts_none [OF ok [unfolded o(1)] o(2,3) free [unfolded o(1)]])
    moreover have "slots_full mp" unfolding slots_full_def sg by (simp add: a o(4))
    ultimately show thesis using o(4-6) by (intro fault) (simp_all add: a)
  qed
qed

lemma mfree_spec:
  assumes inv: "rmap_inv mp" and lim: "limit_ok mp" and ret: "returnable mp sz addr"
  obtains (lost) "mfree mp sz addr = Inr (True, mp)"
      and "m_limit mp = length (segs (m_map mp))"
      and "unat addr - 1 \<notin> rmap_free mp" and "unat addr + unat sz \<notin> rmap_free mp"
  | (kept) mp' where "mfree mp sz addr = Inr (False, mp')" and "rmap_inv mp'"
      and "rmap_free mp' = rmap_free mp \<union> {unat addr ..< unat addr + unat sz}"
      and "limit_ok mp'" and "m_limit mp' = m_limit mp" and "m_name mp' = m_name mp"
      and "length (m_map mp') = length (m_map mp)"
proof -
  have l: "length (segs (m_map mp)) \<le> m_limit mp" using lim by (simp add: limit_ok_def)
  from inv l ret show thesis
  proof (cases rule: mfree_any)
    case lost
    then show thesis using that(1) by (auto simp: abuts_none_def)
  next
    case (kept mp')
    then show thesis using that(2) lim by (auto simp: limit_ok_def)
  next
    case fault
    then show thesis using lim by (simp add: limit_ok_def)
  qed
qed

text \<open>
  A limit that lies past the last slot, as that of \<open>swapmap\<close> does: when the slots are all in use, a release
  that needs a new one moves the terminator out of the array.
\<close>

lemma mfree_overrun:
  assumes inv: "rmap_inv mp" and ret: "returnable mp sz addr" and lim: "length (m_map mp) \<le> m_limit mp"
    and full: "slots_full mp" and ab: "abuts_none mp sz addr"
  shows "mfree mp sz addr = Inl Fault"
proof -
  obtain xs ys where a: "m_map mp = xs @ map_end # ys" and ok: "segs_ok 0 xs"
    and sg: "segs (m_map mp) = xs" and free: "rmap_free mp = free_units xs"
    using inv by (rule rmap_invE)
  have ys: "ys = []" using full unfolding slots_full_def sg by (simp add: a)
  have sz: "sz \<noteq> 0" and addr: "addr \<noteq> 0" and nw: "unat addr + unat sz < 2 ^ 32"
    and dis: "free_units xs \<inter> {unat addr ..< unat addr + unat sz} = {}"
    using ret by (auto simp: returnable_def free)
  from ok sz dis obtain us vs where at: "mfree_at xs sz addr us vs" by (rule mfree_split)
  then have xs: "xs = us @ vs" by (simp add: mfree_at_def)
  have nz: "\<forall>x\<in>set us. m_size x \<noteq> 0" "\<forall>x\<in>set vs. m_size x \<noteq> 0"
    using segs_ok_nonzero [OF ok] xs by auto
  have L: "\<not> (us \<noteq> [] \<and> seg_hi (last us) = unat addr)"
  proof
    assume u: "us \<noteq> [] \<and> seg_hi (last us) = unat addr"
    then have "seg_lo (last us) < seg_hi (last us)" using nz(1) by (intro seg_lo_less_hi) simp
    then have "unat addr - 1 \<in> units (last us)" using u by (auto simp: units_def)
    then show False using ab u by (auto simp: abuts_none_def free xs free_units_def)
  qed
  have R: "\<not> (vs \<noteq> [] \<and> unat addr + unat sz = seg_lo (hd vs))"
  proof
    assume v: "vs \<noteq> [] \<and> unat addr + unat sz = seg_lo (hd vs)"
    then have "unat addr + unat sz \<in> units (hd vs)" using nz(2) seg_lo_less_hi [of "hd vs"] by (simp add: units_def)
    then show False using ab v by (auto simp: abuts_none_def free xs free_units_def)
  qed
  have z: "advance (\<lambda>e. m_size e \<noteq> 0) (m_map mp) (length us) = Inr (length us + length vs)"
    using nz(2) unfolding a xs append.assoc by (intro advance_append) auto
  note mf = mfree_unfold [OF a ok sz addr nw at, unfolded if_not_P [OF L] if_not_P [OF R]]
  have "length us + length vs < m_limit mp" using lim by (simp add: a xs)
  then show ?thesis
    unfolding mf z by (simp add: a xs ys)
qed

end
