(* ===== verification/Rmap_Three.thy ===== *)
theory Rmap_Three
  imports Rmap
begin

text \<open>
  The three-segment allocator \<^verbatim>\<open>malloc3\<close> of sys/kernel/subr_rmap.c: lemmas on its search, its
  rollback, its address assignment and its compaction of the array.
\<close>

section \<open>Allocation of three segments\<close>

text \<open>While \<^verbatim>\<open>malloc3\<close> works, segments may be empty: the invariant without that condition.\<close>

fun segs_ok0 :: "nat \<Rightarrow> mapent list \<Rightarrow> bool" where
  "segs_ok0 lo [] = True"
| "segs_ok0 lo (e # es) = (lo < seg_lo e \<and> seg_hi e < 2 ^ 32 \<and> segs_ok0 (seg_hi e) es)"

lemma segs_ok_imp_ok0: "segs_ok lo xs \<Longrightarrow> segs_ok0 lo xs"
  by (induction xs arbitrary: lo) auto

lemma segs_ok0_filter: "segs_ok0 lo xs \<Longrightarrow> segs_ok lo (filter (\<lambda>e. m_size e \<noteq> 0) xs)"
proof (induction xs arbitrary: lo)
  case (Cons e es)
  then have "segs_ok (seg_hi e) (filter (\<lambda>e. m_size e \<noteq> 0) es)" and "lo \<le> seg_hi e"
    by (auto simp: seg_lo_def seg_hi_def)
  with Cons.prems show ?case by (auto intro: segs_ok_mono)
qed simp

lemma free_units_filter: "free_units (filter (\<lambda>e. m_size e \<noteq> 0) xs) = free_units xs"
  by (auto simp: free_units_def units_def seg_lo_def seg_hi_def)

lemma segs_ok0_addr: "segs_ok0 lo xs \<Longrightarrow> e \<in> set xs \<Longrightarrow> m_addr e \<noteq> 0"
  by (induction xs arbitrary: lo) (auto simp: seg_lo_def)

text \<open>Taking \<open>z\<close> units from the front of entry \<open>i\<close>, and a sequence of such steps.\<close>

definition front :: "mapent \<Rightarrow> u32 \<Rightarrow> mapent" where
  "front e z = e\<lparr>m_size := m_size e - z, m_addr := m_addr e + z\<rparr>"

fun carve_all :: "(nat \<times> u32) list \<Rightarrow> mapent list \<Rightarrow> mapent list" where
  "carve_all [] c = c"
| "carve_all ((i, z) # ps) c = carve_all ps (c[i := front (c ! i) z])"

fun takes :: "(nat \<times> u32) list \<Rightarrow> nat \<Rightarrow> nat" where
  "takes [] i = 0"
| "takes ((j, z) # ps) i = (if j = i then unat z else 0) + takes ps i"

fun ranges :: "(nat \<times> u32) list \<Rightarrow> mapent list \<Rightarrow> nat set list" where
  "ranges [] c = []"
| "ranges ((i, z) # ps) c =
     {seg_lo (c ! i) ..< seg_lo (c ! i) + unat z} # ranges ps (c[i := front (c ! i) z])"

lemma front_bounds:
  assumes "z \<le> m_size e" "seg_hi e < 2 ^ 32"
  shows "seg_lo (front e z) = seg_lo e + unat z" "seg_hi (front e z) = seg_hi e"
    "unat (m_size (front e z)) = unat (m_size e) - unat z"
proof -
  have le: "unat z \<le> unat (m_size e)" using assms(1) by (simp add: word_le_unat)
  with assms(2) have "unat (m_addr e + z) = unat (m_addr e) + unat z"
    by (intro unat_add_le) (simp add: seg_hi_def)
  with le assms(1) show "seg_lo (front e z) = seg_lo e + unat z"
    "seg_hi (front e z) = seg_hi e" "unat (m_size (front e z)) = unat (m_size e) - unat z"
    by (simp_all add: front_def seg_lo_def seg_hi_def unat_sub_le)
qed

lemma segs_ok0_split:
  "segs_ok0 lo (xs @ ys) \<longleftrightarrow>
     segs_ok0 lo xs \<and> segs_ok0 (if xs = [] then lo else seg_hi (last xs)) ys"
  by (induction xs arbitrary: lo) auto

lemma free_units_above0: "segs_ok0 lo xs \<Longrightarrow> u \<in> free_units xs \<Longrightarrow> lo < u"
proof (induction xs arbitrary: lo)
  case (Cons e es)
  moreover have "seg_lo e \<le> seg_hi e" by (simp add: seg_lo_def seg_hi_def)
  ultimately show ?case by (fastforce simp: units_def)
qed simp

lemma free_units_below0: "segs_ok0 lo (us @ e # vs) \<Longrightarrow> u \<in> free_units us \<Longrightarrow> u < seg_lo e"
proof (induction us arbitrary: lo)
  case (Cons x us)
  have ok: "segs_ok0 (seg_hi x) (us @ e # vs)" using Cons.prems(1) by simp
  then have "seg_hi x < seg_lo e"
  proof (induction us arbitrary: x)
    case (Cons y us)
    from Cons.prems have "seg_hi x < seg_lo y" "segs_ok0 (seg_hi y) (us @ e # vs)" by auto
    with Cons.IH [of y] show ?case by (simp add: seg_lo_def seg_hi_def)
  qed simp
  with Cons ok show ?case by (auto simp: units_def)
qed simp

lemma front_step:
  assumes ok: "segs_ok0 lo c" and i: "i < length c" and z: "z \<le> m_size (c ! i)"
  shows "segs_ok0 lo (c[i := front (c ! i) z])"
    and "free_units (c[i := front (c ! i) z]) =
           free_units c - {seg_lo (c ! i) ..< seg_lo (c ! i) + unat z}"
    and "{seg_lo (c ! i) ..< seg_lo (c ! i) + unat z} \<subseteq> free_units c"
proof -
  obtain us e vs where c: "c = us @ e # vs" "length us = i"
    using id_take_nth_drop [OF i] i by (metis length_take min.absorb2 less_imp_le)
  then have e: "c ! i = e" "c[i := front e z] = us @ front e z # vs" by auto
  have hi: "seg_hi e < 2 ^ 32" and vs: "segs_ok0 (seg_hi e) vs"
    using ok by (simp_all add: c segs_ok0_split)
  have ze: "z \<le> m_size e" using z e by simp
  note fb = front_bounds [OF ze hi]
  from ok show "segs_ok0 lo (c[i := front (c ! i) z])"
    unfolding e by (simp add: c(1) segs_ok0_split fb)
  have in_e: "seg_lo e + unat z \<le> seg_hi e"
    using ze by (simp add: seg_lo_def seg_hi_def word_le_unat)
  show "{seg_lo (c ! i) ..< seg_lo (c ! i) + unat z} \<subseteq> free_units c"
    unfolding e using in_e by (auto simp: c(1) units_def)
  have "units (front e z) = units e - {seg_lo e ..< seg_lo e + unat z}"
    by (auto simp: units_def fb)
  then show "free_units (c[i := front (c ! i) z]) =
           free_units c - {seg_lo (c ! i) ..< seg_lo (c ! i) + unat z}"
    unfolding e using in_e free_units_below0 [OF ok [unfolded c(1)]] free_units_above0 [OF vs]
    by (fastforce simp: c(1))
qed

lemma carve_all_spec:
  assumes "segs_ok0 lo c" "\<forall>(i, z)\<in>set ps. i < length c"
    and "\<forall>i<length c. takes ps i \<le> unat (m_size (c ! i))"
  shows "segs_ok0 lo (carve_all ps c) \<and>
    free_units (carve_all ps c) = free_units c - \<Union>(set (ranges ps c)) \<and>
    \<Union>(set (ranges ps c)) \<subseteq> free_units c \<and> sorted_wrt disjnt (ranges ps c)"
  using assms
proof (induction ps arbitrary: c)
  case (Cons p ps)
  obtain i z where p: "p = (i, z)" by fastforce
  have i: "i < length c" using Cons.prems(2) p by simp
  have "takes (p # ps) i \<le> unat (m_size (c ! i))" using Cons.prems(3) i by blast
  then have z: "z \<le> m_size (c ! i)" by (simp add: p word_le_unat)
  define c' where "c' = c[i := front (c ! i) z]"
  note fs = front_step [OF Cons.prems(1) i z, folded c'_def]
  have "takes ps j \<le> unat (m_size (c' ! j))" if "j < length c'" for j
    using Cons.prems(3) [rule_format, of j] that z i
    by (cases "i = j") (auto simp: p c'_def front_def unat_sub_le)
  then have IH: "segs_ok0 lo (carve_all ps c') \<and>
    free_units (carve_all ps c') = free_units c' - \<Union>(set (ranges ps c')) \<and>
    \<Union>(set (ranges ps c')) \<subseteq> free_units c' \<and> sorted_wrt disjnt (ranges ps c')"
    using Cons.IH [OF fs(1)] Cons.prems(2) by (auto simp: c'_def)
  have "disjnt {seg_lo (c ! i) ..< seg_lo (c ! i) + unat z} r" if "r \<in> set (ranges ps c')" for r
    using that IH fs(2) by (auto simp: disjnt_def)
  with IH fs show ?case by (auto simp: p c'_def [symmetric])
qed simp

text \<open>The entries after a sequence of steps, with word arithmetic.\<close>

fun wtakes :: "(nat \<times> u32) list \<Rightarrow> nat \<Rightarrow> u32" where
  "wtakes [] i = 0"
| "wtakes ((j, z) # ps) i = (if j = i then z else 0) + wtakes ps i"

lemma length_carve_all [simp]: "length (carve_all ps c) = length c"
  by (induction ps arbitrary: c) auto

lemma carve_all_nth:
  assumes "i < length c"
  shows "m_addr (carve_all ps c ! i) = m_addr (c ! i) + wtakes ps i"
    and "m_size (carve_all ps c ! i) = m_size (c ! i) - wtakes ps i"
  using assms
  by (induction ps arbitrary: c) (auto simp: front_def nth_list_update algebra_simps)

lemma wtakes_takes: "wtakes ps i = of_nat (takes ps i)"
  by (induction ps) auto

text \<open>The choices made so far, in the order \<^verbatim>\<open>next\<close> counts, and the invariant of the search.\<close>

definition picks :: "u32 list \<Rightarrow> nat option list \<Rightarrow> (nat \<times> u32) list" where
  "picks sizes md =
     concat (map (\<lambda>k. case md ! k of None \<Rightarrow> [] | Some i \<Rightarrow> [(i, sizes ! k)]) [0, 1, 2])"

definition remap_ok :: "mapent list \<Rightarrow> nat \<Rightarrow> nat option \<Rightarrow> bool" where
  "remap_ok c bp rm \<longleftrightarrow>
     (case rm of None \<Rightarrow> (\<forall>e\<in>set c. m_size e \<noteq> 0)
      | Some r \<Rightarrow> r < length c \<and> r \<le> bp \<and> m_size (c ! r) = 0 \<and>
                  (\<forall>e\<in>set (take r c). m_size e \<noteq> 0))"

definition m3_inv :: "mapent list \<Rightarrow> mapent list \<Rightarrow> u32 list \<Rightarrow> nat \<Rightarrow> m3state \<Rightarrow> bool" where
  "m3_inv xs ys sizes bp s \<longleftrightarrow>
     length (madd s) = 3 \<and> found s = length (picks sizes (madd s)) \<and>
     (\<forall>(i, z)\<in>set (picks sizes (madd s)). i < length xs) \<and>
     (\<exists>c. m3_map s = c @ map_end # ys \<and> length c = length xs \<and> remap_ok c bp (remap s) \<and>
        (\<forall>i<length xs. m_addr (c ! i) = m_addr (xs ! i) \<and>
           unat (m_size (c ! i)) + takes (picks sizes (madd s)) i = unat (m_size (xs ! i))))"

lemma list_of_3: "length xs = 3 \<Longrightarrow> xs = [xs ! 0, xs ! 1, xs ! 2]"
  by (rule nth_equalityI) (auto simp: less_Suc_eq numeral_3_eq_3 numeral_2_eq_2)

lemma picks_update:
  assumes "length md = 3" "k < 3" "md ! k = None"
  shows "takes (picks sizes (md[k := Some b])) i =
           takes (picks sizes md) i + (if b = i then unat (sizes ! k) else 0)"
    and "length (picks sizes (md[k := Some b])) = Suc (length (picks sizes md))"
    and "set (picks sizes (md[k := Some b])) = insert (b, sizes ! k) (set (picks sizes md))"
proof -
  have md: "md = [md ! 0, md ! 1, md ! 2]" using assms(1) by (rule list_of_3)
  from assms(2) consider "k = 0" | "k = 1" | "k = 2" by linarith
  then have "md[k := Some b] = [Some b, md ! 1, md ! 2] \<and> k = 0 \<or>
      md[k := Some b] = [md ! 0, Some b, md ! 2] \<and> k = 1 \<or>
      md[k := Some b] = [md ! 0, md ! 1, Some b] \<and> k = 2"
    by cases (subst md, simp)+
  then show "takes (picks sizes (md[k := Some b])) i =
           takes (picks sizes md) i + (if b = i then unat (sizes ! k) else 0)"
    "length (picks sizes (md[k := Some b])) = Suc (length (picks sizes md))"
    "set (picks sizes (md[k := Some b])) = insert (b, sizes ! k) (set (picks sizes md))"
    using assms(3)
    by (elim disjE conjE; simp add: picks_def split: option.split; fail)+
qed

lemma remap_ok_step:
  assumes "remap_ok c bp rm" "bp < length c" "z \<le> m_size (c ! bp)"
  defines "r \<equiv> m_size (c ! bp) - z"
  shows "remap_ok (c[bp := (c ! bp)\<lparr>m_size := r\<rparr>]) bp
           (if r = 0 \<and> rm = None then Some bp else rm)"
proof (cases rm)
  case None
  with assms(1) have nz: "\<forall>e\<in>set c. m_size e \<noteq> 0" by (simp add: remap_ok_def)
  moreover have "set (c[bp := x]) \<subseteq> insert x (set c)" for x
    by (rule set_update_subset_insert)
  ultimately show ?thesis
    using None assms(2) by (force simp: remap_ok_def dest: in_set_takeD)
next
  case (Some q)
  with assms(1) have q: "q < length c" "q \<le> bp" "m_size (c ! q) = 0"
    "\<forall>e\<in>set (take q c). m_size e \<noteq> 0" by (auto simp: remap_ok_def)
  moreover have "q = bp \<Longrightarrow> r = 0" using q(3) assms(3) by (simp add: r_def)
  ultimately show ?thesis
    using Some assms(2) by (cases "q = bp") (auto simp: remap_ok_def)
qed

lemma malloc3_inner_inv:
  assumes "m3_inv xs ys sizes bp s" "bp < length xs" "\<forall>k\<in>set ns. k < 3"
  shows "m3_inv xs ys sizes bp (fst (malloc3_inner sizes bp ns s)) \<and>
    (snd (malloc3_inner sizes bp ns s) \<longrightarrow> found (fst (malloc3_inner sizes bp ns s)) = 3)"
  using assms(1,3)
proof (induction ns arbitrary: s)
  case (Cons k ns)
  show ?case
  proof (cases "madd s ! k = None \<and> sizes ! k \<le> m_size (m3_map s ! bp)")
    case False
    then show ?thesis using Cons by auto
  next
    case True
    obtain c where c: "m3_map s = c @ map_end # ys" "length c = length xs"
      "remap_ok c bp (remap s)"
      "\<forall>i<length xs. m_addr (c ! i) = m_addr (xs ! i) \<and>
         unat (m_size (c ! i)) + takes (picks sizes (madd s)) i = unat (m_size (xs ! i))"
      using Cons.prems(1) by (auto simp: m3_inv_def)
    define r where "r = m_size (c ! bp) - sizes ! k"
    define c' where "c' = c[bp := (c ! bp)\<lparr>m_size := r\<rparr>]"
    define s' where "s' = s\<lparr>m3_map := c' @ map_end # ys, madd := (madd s)[k := Some bp],
        remap := (if r = 0 \<and> remap s = None then Some bp else remap s),
        found := Suc (found s)\<rparr>"
    have bp: "m3_map s ! bp = c ! bp" "bp < length c"
      using c assms(2) by (simp_all add: nth_append)
    have k: "k < 3" "madd s ! k = None" "length (madd s) = 3"
      using Cons.prems True by (auto simp: m3_inv_def)
    have z: "sizes ! k \<le> m_size (c ! bp)" using True bp by simp
    note pu = picks_update [OF k(3,1,2), of sizes bp]
    have "\<forall>i<length xs. m_addr (c' ! i) = m_addr (xs ! i) \<and>
        unat (m_size (c' ! i)) + takes (picks sizes (madd s')) i = unat (m_size (xs ! i))"
      using c(2,4) z pu(1) bp(2)
      by (auto simp: c'_def s'_def r_def nth_list_update unat_sub_le word_le_unat)
    moreover have "remap_ok c' bp (remap s')"
      using remap_ok_step [OF c(3) bp(2) z] by (simp add: c'_def r_def s'_def)
    ultimately have inv: "m3_inv xs ys sizes bp s'"
      using Cons.prems(1) pu(2,3) c(2) k assms(2)
      by (auto simp: m3_inv_def s'_def c'_def)
    have "malloc3_inner sizes bp (k # ns) s =
        (if found s' = 3 then (s', True) else malloc3_inner sizes bp ns s')"
      using True by (simp add: Let_def s'_def c'_def r_def c(1) bp nth_append list_update_append)
    with inv Cons show ?thesis by auto
  qed
qed simp

lemma m3_inv_weaken:
  assumes "m3_inv xs ys sizes b s" "b \<le> b'"
  shows "m3_inv xs ys sizes b' s"
proof -
  have "remap_ok c b rm \<Longrightarrow> remap_ok c b' rm" for c rm
    using assms(2) by (auto simp: remap_ok_def split: option.splits)
  with assms(1) show ?thesis unfolding m3_inv_def by blast
qed

lemma malloc3_scan_inv:
  assumes "m3_inv xs ys sizes bp s" "bp \<le> length xs"
  shows "\<exists>s' b. malloc3_scan sizes bp s = Inr (s', b) \<and> m3_inv xs ys sizes (length xs) s' \<and>
           (b \<longrightarrow> found s' = 3)"
  using assms
proof (induction sizes bp s rule: malloc3_scan.induct)
  case (1 sizes bp s)
  note weaken = m3_inv_weaken
  have len: "bp < length (m3_map s)" using 1 by (auto simp: m3_inv_def)
  show ?case
  proof (cases "m_size (m3_map s ! bp) = 0")
    case True
    then have "malloc3_scan sizes bp s = Inr (s, False)"
      using len by (simp add: malloc3_scan.simps)
    then show ?thesis using weaken [OF "1.prems"] by blast
  next
    case False
    then have bp: "bp < length xs" using 1 by (cases "bp = length xs") (auto simp: m3_inv_def nth_append)
    define r where "r = malloc3_inner sizes bp [0, 1, 2] s"
    have r: "m3_inv xs ys sizes bp (fst r) \<and> (snd r \<longrightarrow> found (fst r) = 3)"
      unfolding r_def by (rule malloc3_inner_inv [OF "1.prems"(1) bp]) simp
    have eq: "malloc3_scan sizes bp s = (if snd r then Inr r else malloc3_scan sizes (Suc bp) (fst r))"
      unfolding r_def using len False by (subst malloc3_scan.simps) (simp add: Let_def del: malloc3_inner.simps)
    show ?thesis
    proof (cases "snd r")
      case True
      then show ?thesis using eq r weaken [of xs ys sizes bp "fst r" "length xs"] bp by (cases r) auto
    next
      case nd: False
      have "\<exists>s' b. malloc3_scan sizes (Suc bp) (fst r) = Inr (s', b) \<and>
          m3_inv xs ys sizes (length xs) s' \<and> (b \<longrightarrow> found s' = 3)"
        by (rule "1.IH" [OF len False r_def nd])
          (use r bp weaken [of xs ys sizes bp "fst r" "Suc bp"] in auto)
      with eq nd show ?thesis by simp
    qed
  qed
qed

lemma picks_3:
  assumes "length md = 3" "length (picks sizes md) = 3"
  obtains i0 i1 i2 where "md = [Some i0, Some i1, Some i2]"
    and "picks sizes md = [(i0, sizes ! 0), (i1, sizes ! 1), (i2, sizes ! 2)]"
  using list_of_3 [OF assms(1)] assms(2)
  by (cases "md ! 0"; cases "md ! 1"; cases "md ! 2")
    (auto simp: picks_def intro: that)

lemma restore_nth:
  assumes "\<forall>k\<in>set ns. \<forall>j. md ! k = Some j \<longrightarrow> j < length a"
  shows "length (malloc3_restore sizes md ns a) = length a"
    and "i < length a \<Longrightarrow> malloc3_restore sizes md ns a ! i =
           (a ! i)\<lparr>m_size := m_size (a ! i) +
             (\<Sum>k\<leftarrow>ns. if md ! k = Some i then sizes ! k else 0)\<rparr>"
  using assms
  by (induction ns arbitrary: a) (auto split: option.splits simp: nth_list_update)

lemma picks_wtakes:
  "wtakes (picks sizes md) i = (\<Sum>k\<leftarrow>[0, 1, 2]. if md ! k = Some i then sizes ! k else 0)"
  by (auto simp: picks_def split: option.splits)

lemma picks_mem:
  "k < 3 \<Longrightarrow> md ! k = Some i \<Longrightarrow> (i, sizes ! k) \<in> set (picks sizes md)"
  by (auto simp: picks_def less_Suc_eq numeral_3_eq_3 numeral_2_eq_2)

lemma unat_eq_word: "unat a + n = unat b \<Longrightarrow> a + of_nat n = b" for a b :: u32
proof -
  assume *: "unat a + n = unat b"
  have "a + of_nat n = of_nat (unat a) + of_nat n" by simp
  also have "\<dots> = of_nat (unat a + n)" by simp
  also have "\<dots> = b" unfolding * by simp
  finally show ?thesis .
qed

lemma malloc3_restores:
  assumes inv: "m3_inv xs ys sizes bp s"
  shows "malloc3_restore sizes (madd s) [0, 1, 2] (m3_map s) = xs @ map_end # ys"
proof -
  obtain c where c: "m3_map s = c @ map_end # ys" "length c = length xs"
    "\<forall>i<length xs. m_addr (c ! i) = m_addr (xs ! i) \<and>
       unat (m_size (c ! i)) + takes (picks sizes (madd s)) i = unat (m_size (xs ! i))"
    and pk: "\<forall>(i, z)\<in>set (picks sizes (madd s)). i < length xs"
    using inv by (auto simp: m3_inv_def)
  have idx: "k \<in> set [0, 1, 2] \<Longrightarrow> madd s ! k = Some j \<Longrightarrow> j < length xs" for k j
    using pk picks_mem [of k "madd s" j sizes] by auto
  have v: "\<forall>k\<in>set [0, 1, 2]. \<forall>j. madd s ! k = Some j \<longrightarrow> j < length (m3_map s)"
    using idx c by fastforce
  note rn = restore_nth [OF v]
  show ?thesis
  proof (rule nth_equalityI)
    show "length (malloc3_restore sizes (madd s) [0, 1, 2] (m3_map s)) = length (xs @ map_end # ys)"
      using rn(1) c by simp
    fix i assume "i < length (malloc3_restore sizes (madd s) [0, 1, 2] (m3_map s))"
    then have i: "i < length (m3_map s)" using rn(1) by simp
    show "malloc3_restore sizes (madd s) [0, 1, 2] (m3_map s) ! i = (xs @ map_end # ys) ! i"
    proof (cases "i < length xs")
      case True
      with c(3) have "m_size (c ! i) + wtakes (picks sizes (madd s)) i = m_size (xs ! i)"
        by (simp add: wtakes_takes unat_eq_word)
      with True c show ?thesis
        unfolding rn(2) [OF i] picks_wtakes [symmetric] by (simp add: nth_append)
    next
      case False
      then have "(\<Sum>k\<leftarrow>[0, 1, 2]. if madd s ! k = Some i then sizes ! k else 0) = 0"
        using idx by (auto dest: idx [rotated])
      with False c show ?thesis unfolding rn(2) [OF i] by (simp add: nth_append)
    qed
  qed
qed

lemma malloc3_compact_append:
  assumes "mid \<noteq> []" "\<forall>e\<in>set vs. m_addr e \<noteq> 0"
  shows "\<exists>ws. malloc3_compact (ps @ mid @ vs @ map_end # ys) (length ps) (length ps + length mid) =
           Inr ((ps @ filter (\<lambda>e. m_size e \<noteq> 0) vs) @ map_end # ws) \<and>
           length ((ps @ filter (\<lambda>e. m_size e \<noteq> 0) vs) @ map_end # ws) =
           length (ps @ mid @ vs @ map_end # ys)"
  using assms
proof (induction vs arbitrary: ps mid)
  case Nil
  then obtain m mid' where "mid = m # mid'" by (cases mid) auto
  then show ?case
    by (auto simp: malloc3_compact.simps nth_append list_update_append)
next
  case (Cons v vs)
  obtain m mid' where mid: "mid = m # mid'" using Cons.prems by (cases mid) auto
  show ?case
  proof (cases "m_size v = 0")
    case True
    then show ?thesis
      using Cons.IH [of "mid @ [v]" ps] Cons.prems
      by (subst malloc3_compact.simps) (simp add: nth_append)
  next
    case False
    then show ?thesis
      using Cons.IH [of "mid' @ [v]" "ps @ [v]"] Cons.prems mid
      by (subst malloc3_compact.simps) (simp add: nth_append)
  qed
qed

lemma remap_ok_cong:
  assumes "map m_size c = map m_size c'"
  shows "remap_ok c bp rm = remap_ok c' bp rm"
proof -
  have all: "(\<forall>e\<in>set (take r d). m_size e \<noteq> 0) \<longleftrightarrow> 0 \<notin> set (take r (map m_size d))" for r d
    by (auto simp: take_map)
  have "length c = length c'" using assms by (rule map_eq_imp_length_eq)
  moreover have "r < length c' \<Longrightarrow> m_size (c ! r) = m_size (c' ! r)" for r
    using assms calculation by (metis nth_map)
  ultimately show ?thesis
    using all [of "length c" c] all [of "length c'" c'] all [of _ c] all [of _ c'] assms
    by (auto simp: remap_ok_def split: option.split)
qed

lemma malloc3_resolves:
  assumes inv: "m3_inv xs ys sizes bp s" and f: "found s = 3" and out: "length out = 3"
  defines "ps \<equiv> picks sizes (madd s)"
  shows "\<exists>a0 a1 a2. malloc3_resolve sizes (madd s) [0, 1, 2] out (m3_map s) =
             Inr ([a0, a1, a2], carve_all ps xs @ map_end # ys) \<and>
           ranges ps xs = [{unat a0 ..< unat a0 + unat (sizes ! 0)},
             {unat a1 ..< unat a1 + unat (sizes ! 1)}, {unat a2 ..< unat a2 + unat (sizes ! 2)}] \<and>
           remap_ok (carve_all ps xs) bp (remap s)"
proof -
  obtain c where c: "m3_map s = c @ map_end # ys" "length c = length xs"
    "\<forall>i<length xs. m_addr (c ! i) = m_addr (xs ! i) \<and>
       unat (m_size (c ! i)) + takes ps i = unat (m_size (xs ! i))"
    and rm: "remap_ok c bp (remap s)" and pk: "\<forall>(i, z)\<in>set ps. i < length xs"
    and l3: "length (madd s) = 3" "length ps = 3"
    using inv f by (auto simp: m3_inv_def ps_def)
  from l3 obtain i0 i1 i2 where md: "madd s = [Some i0, Some i1, Some i2]"
    and ps: "ps = [(i0, sizes ! 0), (i1, sizes ! 1), (i2, sizes ! 2)]"
    unfolding ps_def by (rule picks_3)
  have i: "i0 < length xs" "i1 < length xs" "i2 < length xs" using pk ps by auto
  have same: "m_size (c ! i) = m_size (carve_all ps xs ! i)" if "i < length xs" for i
  proof -
    have "m_size (c ! i) + of_nat (takes ps i) = m_size (xs ! i)"
      using c(3) that by (simp add: unat_eq_word)
    then show ?thesis
      using that by (simp add: carve_all_nth wtakes_takes algebra_simps)
  qed
  have out3: "out = [out ! 0, out ! 1, out ! 2]" using out by (rule list_of_3)
  let ?b = "\<lambda>a j z. a[j := (a ! j)\<lparr>m_addr := m_addr (a ! j) + z\<rparr>]"
  let ?c3 = "?b (?b (?b c i0 (sizes ! 0)) i1 (sizes ! 1)) i2 (sizes ! 2)"
  have c3: "?c3 = carve_all ps xs"
  proof (rule nth_equalityI)
    fix i assume "i < length ?c3"
    then have ixs: "i < length xs" using c(2) by simp
    have "m_addr (?c3 ! i) = m_addr (xs ! i) + wtakes ps i" "m_size (?c3 ! i) = m_size (c ! i)"
      using c(2,3) i ixs by (auto simp: ps nth_list_update algebra_simps)
    then show "?c3 ! i = carve_all ps xs ! i"
      using same [OF ixs] carve_all_nth [OF ixs, of ps] by simp
  qed (simp add: c)
  have r: "malloc3_resolve sizes (madd s) [0, 1, 2] out (m3_map s) =
      Inr ([m_addr (c ! i0), m_addr (?b c i0 (sizes ! 0) ! i1),
            m_addr (?b (?b c i0 (sizes ! 0)) i1 (sizes ! 1) ! i2)], ?c3 @ map_end # ys)"
    using i c(2) by (subst out3) (simp add: md c(1) nth_append list_update_append)
  have "map m_size c = map m_size (carve_all ps xs)"
    by (rule nth_equalityI) (use c(2) same in simp_all)
  then have "remap_ok (carve_all ps xs) bp (remap s)" using rm remap_ok_cong by blast
  moreover have "ranges ps xs = [{unat (m_addr (c ! i0)) ..< unat (m_addr (c ! i0)) + unat (sizes ! 0)},
     {unat (m_addr (?b c i0 (sizes ! 0) ! i1)) ..< unat (m_addr (?b c i0 (sizes ! 0) ! i1)) + unat (sizes ! 1)},
     {unat (m_addr (?b (?b c i0 (sizes ! 0)) i1 (sizes ! 1) ! i2)) ..<
      unat (m_addr (?b (?b c i0 (sizes ! 0)) i1 (sizes ! 1) ! i2)) + unat (sizes ! 2)}]"
    using i c(2,3) by (simp add: ps seg_lo_def front_def nth_list_update)
  ultimately show ?thesis using r unfolding c3 by blast
qed

lemma malloc3_finish:
  assumes ok: "segs_ok0 0 zs" and rm: "remap_ok zs bp rm"
  shows "\<exists>ws. (case rm of None \<Rightarrow> Inr (zs @ map_end # ys)
              | Some r \<Rightarrow> malloc3_compact (zs @ map_end # ys) r (Suc r)) =
           Inr (filter (\<lambda>e. m_size e \<noteq> 0) zs @ map_end # ws) \<and>
         length (filter (\<lambda>e. m_size e \<noteq> 0) zs @ map_end # ws) = length (zs @ map_end # ys)"
proof (cases rm)
  case None
  with rm have "filter (\<lambda>e. m_size e \<noteq> 0) zs = zs" by (simp add: remap_ok_def)
  with None show ?thesis by simp
next
  case (Some r)
  with rm have r: "r < length zs" "m_size (zs ! r) = 0" "\<forall>e\<in>set (take r zs). m_size e \<noteq> 0"
    by (auto simp: remap_ok_def)
  obtain ps z vs where zs: "zs = ps @ z # vs" and l: "length ps = r"
    using id_take_nth_drop [OF r(1)] r(1) by (metis length_take min.absorb2 less_imp_le)
  have f: "filter (\<lambda>e. m_size e \<noteq> 0) zs = ps @ filter (\<lambda>e. m_size e \<noteq> 0) vs"
    using r zs l by auto
  have "\<forall>e\<in>set vs. m_addr e \<noteq> 0" using segs_ok0_addr [OF ok] zs by auto
  from malloc3_compact_append [OF _ this, of "[z]" ps ys] show ?thesis
    unfolding f using Some zs l by auto
qed

lemma malloc3_spec:
  assumes inv: "rmap_inv mp" and out: "length out = 3"
  obtains (none) "malloc3 mp d_size s_size u_size out = Inr (0, out, mp)"
  | (fit) a0 a1 a2 mp' where "malloc3 mp d_size s_size u_size out = Inr (a2, [a0, a1, a2], mp')"
      and "u_size \<noteq> 0 \<Longrightarrow> a2 \<noteq> 0" and "rmap_inv mp'"
      and "sorted_wrt disjnt [{unat a0 ..< unat a0 + unat d_size},
             {unat a1 ..< unat a1 + unat s_size}, {unat a2 ..< unat a2 + unat u_size}]"
      and "{unat a0 ..< unat a0 + unat d_size} \<union> {unat a1 ..< unat a1 + unat s_size} \<union>
             {unat a2 ..< unat a2 + unat u_size} \<subseteq> rmap_free mp"
      and "rmap_free mp' = rmap_free mp - ({unat a0 ..< unat a0 + unat d_size} \<union>
             {unat a1 ..< unat a1 + unat s_size} \<union> {unat a2 ..< unat a2 + unat u_size})"
      and "limit_ok mp \<Longrightarrow> limit_ok mp'" and "m_limit mp' = m_limit mp"
      and "m_name mp' = m_name mp" and "length (m_map mp') = length (m_map mp)"
proof -
  obtain xs ys where a: "m_map mp = xs @ map_end # ys" and ok: "segs_ok 0 xs"
    and sg: "segs (m_map mp) = xs" and free: "rmap_free mp = free_units xs"
    using inv by (rule rmap_invE)
  let ?sizes = "[d_size, s_size, u_size]"
  define s0 where "s0 = \<lparr>m3_map = m_map mp, madd = [None, None, None], remap = None, found = 0\<rparr>"
  have "m3_inv xs ys ?sizes 0 s0"
    using segs_ok_nonzero [OF ok] by (auto simp: m3_inv_def s0_def picks_def remap_ok_def a)
  from malloc3_scan_inv [OF this] obtain s b where scan: "malloc3_scan ?sizes 0 s0 = Inr (s, b)"
    and minv: "m3_inv xs ys ?sizes (length xs) s" and f: "b \<Longrightarrow> found s = 3" by auto
  show thesis
  proof (cases b)
    case False
    then have "malloc3 mp d_size s_size u_size out = Inr (0, out, mp)"
      using scan malloc3_restores [OF minv]
      by (simp add: malloc3_def Let_def s0_def [symmetric] a [symmetric])
    then show thesis by (rule none)
  next
    case True
    define ps where "ps = picks ?sizes (madd s)"
    define zs where "zs = carve_all ps xs"
    from malloc3_resolves [OF minv f [OF True] out, folded ps_def, folded zs_def]
    obtain a0 a1 a2 where res: "malloc3_resolve ?sizes (madd s) [0, 1, 2] out (m3_map s) =
        Inr ([a0, a1, a2], zs @ map_end # ys)"
      and rng: "ranges ps xs = [{unat a0 ..< unat a0 + unat d_size},
             {unat a1 ..< unat a1 + unat s_size}, {unat a2 ..< unat a2 + unat u_size}]"
      and rm: "remap_ok zs (length xs) (remap s)"
      by auto
    have tk: "\<forall>i<length xs. takes ps i \<le> unat (m_size (xs ! i))"
      using minv unfolding m3_inv_def ps_def by (metis le_add2)
    have pk: "\<forall>(i, z)\<in>set ps. i < length xs" using minv by (simp add: m3_inv_def ps_def)
    note cs = carve_all_spec [OF segs_ok_imp_ok0 [OF ok] pk tk, folded zs_def]
    obtain ws where fin: "(case remap s of None \<Rightarrow> Inr (zs @ map_end # ys)
          | Some r \<Rightarrow> malloc3_compact (zs @ map_end # ys) r (Suc r)) =
        Inr (filter (\<lambda>e. m_size e \<noteq> 0) zs @ map_end # ws)"
      and len: "length (filter (\<lambda>e. m_size e \<noteq> 0) zs @ map_end # ws) = length (zs @ map_end # ys)"
      using malloc3_finish [OF _ rm, of ys] cs by blast
    let ?mp = "mp\<lparr>m_map := filter (\<lambda>e. m_size e \<noteq> 0) zs @ map_end # ws\<rparr>"
    have "malloc3 mp d_size s_size u_size out = Inr (a2, [a0, a1, a2], ?mp)"
      using scan True res fin
      by (cases "remap s") (simp_all add: malloc3_def Let_def s0_def [symmetric])
    moreover have okf: "segs_ok 0 (filter (\<lambda>e. m_size e \<noteq> 0) zs)"
      using cs by (intro segs_ok0_filter) blast
    moreover note inv' = rmap_invI [of ?mp, OF _ okf]
    moreover have "a2 \<noteq> 0" if "u_size \<noteq> 0"
    proof -
      have "unat a2 \<in> free_units xs" using cs rng that by (auto simp: unat_nonzero_iff)
      then show ?thesis using free_units_above [OF ok] by fastforce
    qed
    moreover have "length (filter (\<lambda>e. m_size e \<noteq> 0) zs) \<le> length xs"
      by (metis length_carve_all length_filter_le zs_def)
    ultimately show thesis
      using cs len rng free sg a
      by (intro fit [of a2 a0 a1 ?mp]) (auto simp: limit_ok_def free_units_filter zs_def)
  qed
qed

end
