(* ===== verification/Rmap_Clients.thy ===== *)
theory Rmap_Clients
  imports Rmap_Three
begin

text \<open>
  What the users of a resource map rely on (sys/kernel/vm_swap.c, kern_exec.c): the interface
  as two locales, clients of it, its interpretation on the code of subr_rmap.c, and the
  properties of that code.
\<close>

section \<open>The interface the clients of a map use\<close>

definition rng :: "u32 \<Rightarrow> u32 \<Rightarrow> nat set" where
  "rng addr sz = {unat addr ..< unat addr + unat sz}"

locale resource_map =
  fixes invar :: "'m \<Rightarrow> bool" and bounded :: "'m \<Rightarrow> bool" and free :: "'m \<Rightarrow> nat set"
    and alloc :: "'m \<Rightarrow> u32 \<Rightarrow> (u32 \<times> 'm) kres"
    and release :: "'m \<Rightarrow> u32 \<Rightarrow> u32 \<Rightarrow> (bool \<times> 'm) kres"
  assumes free_bound: "invar m \<Longrightarrow> u \<in> free m \<Longrightarrow> 0 < u \<and> Suc u < 2 ^ 32"
    and alloc_law: "invar m \<Longrightarrow> sz \<noteq> 0 \<Longrightarrow>
      \<exists>addr m'. alloc m sz = Inr (addr, m') \<and> invar m' \<and> bounded m' = bounded m \<and>
        (if addr = 0 then m' = m
         else rng addr sz \<subseteq> free m \<and> free m' = free m - rng addr sz)"
    and release_law: "invar m \<Longrightarrow> sz \<noteq> 0 \<Longrightarrow> addr \<noteq> 0 \<Longrightarrow> unat addr + unat sz < 2 ^ 32 \<Longrightarrow>
      free m \<inter> rng addr sz = {} \<Longrightarrow>
      \<not> bounded m \<and> release m sz addr = Inl Fault \<or>
      (\<exists>lost m'. release m sz addr = Inr (lost, m') \<and> invar m' \<and> bounded m' = bounded m \<and>
        (if lost then m' = m else free m' = free m \<union> rng addr sz))"
begin

lemma range_bound:
  assumes "invar m" "rng addr sz \<subseteq> free m" "sz \<noteq> 0"
  shows "addr \<noteq> 0" "unat addr + unat sz < 2 ^ 32"
proof -
  have "unat addr \<in> rng addr sz" "unat addr + unat sz - 1 \<in> rng addr sz"
    using assms(3) by (auto simp: rng_def unat_nonzero_iff)
  with assms free_bound have "0 < unat addr" "Suc (unat addr + unat sz - 1) < 2 ^ 32"
    by blast+
  then show "addr \<noteq> 0" "unat addr + unat sz < 2 ^ 32" by auto
qed

lemma alloc_then_release:
  assumes "invar m" "bounded m" "sz \<noteq> 0" "alloc m sz = Inr (addr, m')" "addr \<noteq> 0"
  shows "\<exists>lost m''. release m' sz addr = Inr (lost, m'') \<and> invar m'' \<and>
           (lost \<or> free m'' = free m)"
proof -
  from alloc_law [OF assms(1,3)] assms(2,4,5)
  have m': "invar m'" "rng addr sz \<subseteq> free m" "free m' = free m - rng addr sz" "bounded m'" by auto
  from range_bound [OF assms(1) m'(2) assms(3)] release_law [OF m'(1) assms(3)] m'(2-4)
  show ?thesis by (fastforce split: if_splits)
qed

end

text \<open>
  A client: it holds the ranges it was given, and returns each of them at most once.
  \<open>Alloc3\<close> is a request of the three segments of a process.
\<close>

datatype mreq = Alloc u32 | Alloc3 u32 u32 u32 | Release nat

type_synonym holdings = "(u32 \<times> u32) list"

fun client_step ::
  "('m \<Rightarrow> u32 \<Rightarrow> (u32 \<times> 'm) kres) \<Rightarrow>
   ('m \<Rightarrow> u32 \<Rightarrow> u32 \<Rightarrow> u32 \<Rightarrow> u32 list \<Rightarrow> (u32 \<times> u32 list \<times> 'm) kres) \<Rightarrow>
   ('m \<Rightarrow> u32 \<Rightarrow> u32 \<Rightarrow> (bool \<times> 'm) kres) \<Rightarrow> mreq \<Rightarrow> 'm \<times> holdings \<Rightarrow> ('m \<times> holdings) kres"
where
  "client_step alloc alloc3 release (Alloc sz) (m, live) =
     (if sz = 0 then Inr (m, live)
      else kbind (alloc m sz) (\<lambda>(addr, m').
        Inr (m', if addr = 0 then live else (addr, sz) # live)))"
| "client_step alloc alloc3 release (Alloc3 d s u) (m, live) =
     (if u = 0 then Inr (m, live)
      else kbind (alloc3 m d s u [0, 0, 0]) (\<lambda>(r, a, m').
        Inr (m', if r = 0 then live
                 else filter (\<lambda>(addr, sz). sz \<noteq> 0) [(a ! 0, d), (a ! 1, s), (a ! 2, u)] @ live)))"
| "client_step alloc alloc3 release (Release i) (m, live) =
     (if i < length live then
        kbind (release m (snd (live ! i)) (fst (live ! i))) (\<lambda>(lost, m').
          Inr (m', take i live @ drop (Suc i) live))
      else Inr (m, live))"

fun client_run ::
  "('m \<Rightarrow> u32 \<Rightarrow> (u32 \<times> 'm) kres) \<Rightarrow>
   ('m \<Rightarrow> u32 \<Rightarrow> u32 \<Rightarrow> u32 \<Rightarrow> u32 list \<Rightarrow> (u32 \<times> u32 list \<times> 'm) kres) \<Rightarrow>
   ('m \<Rightarrow> u32 \<Rightarrow> u32 \<Rightarrow> (bool \<times> 'm) kres) \<Rightarrow> mreq list \<Rightarrow> 'm \<times> holdings \<Rightarrow> ('m \<times> holdings) kres"
where
  "client_run alloc alloc3 release [] s = Inr s"
| "client_run alloc alloc3 release (r # rs) s =
     kbind (client_step alloc alloc3 release r s) (client_run alloc alloc3 release rs)"

definition held :: "holdings \<Rightarrow> nat set list" where
  "held live = map (\<lambda>(addr, sz). rng addr sz) live"

definition holdings_ok :: "nat set \<Rightarrow> nat set \<Rightarrow> holdings \<Rightarrow> bool" where
  "holdings_ok tot fr live \<longleftrightarrow>
     sorted_wrt disjnt (held live) \<and> (\<forall>r\<in>set (held live). disjnt fr r) \<and>
     fr \<union> \<Union>(set (held live)) \<subseteq> tot \<and>
     (\<forall>(addr, sz)\<in>set live. addr \<noteq> 0 \<and> sz \<noteq> 0 \<and> unat addr + unat sz < 2 ^ 32)"

lemma held_simps [simp]:
  "held [] = []" "held ((addr, sz) # live) = rng addr sz # held live"
  "held (xs @ ys) = held xs @ held ys"
  by (simp_all add: held_def)

lemma rng_empty_iff [simp]: "rng addr sz = {} \<longleftrightarrow> sz = 0"
  using unat_nonzero_iff [of sz] by (auto simp: rng_def)

lemma holdings_ok_add:
  assumes "holdings_ok tot fr live" "rng addr sz \<subseteq> fr"
    and "sz \<noteq> 0 \<Longrightarrow> addr \<noteq> 0 \<and> unat addr + unat sz < 2 ^ 32"
  shows "holdings_ok tot (fr - rng addr sz) (filter (\<lambda>(addr, sz). sz \<noteq> 0) [(addr, sz)] @ live)"
  using assms by (auto simp: holdings_ok_def disjnt_def held_def)

lemma holdings_ok_remove:
  assumes ok: "holdings_ok tot fr live" and i: "i < length live"
    and fr': "fr' = fr \<or> fr' = fr \<union> rng (fst (live ! i)) (snd (live ! i))"
  shows "holdings_ok tot fr' (take i live @ drop (Suc i) live)"
proof -
  obtain us p vs where live: "live = us @ p # vs" "length us = i"
    using id_take_nth_drop [OF i] i by (metis length_take min.absorb2 less_imp_le)
  obtain addr sz where p: "p = (addr, sz)" by fastforce
  show ?thesis
    using ok fr' live p
    by (fastforce simp: holdings_ok_def sorted_wrt_append disjnt_def)
qed

locale swap_map = resource_map +
  fixes alloc3 :: "'a \<Rightarrow> u32 \<Rightarrow> u32 \<Rightarrow> u32 \<Rightarrow> u32 list \<Rightarrow> (u32 \<times> u32 list \<times> 'a) kres"
  assumes alloc3_law: "invar m \<Longrightarrow> u \<noteq> 0 \<Longrightarrow>
      \<exists>r a0 a1 a2 m'. alloc3 m d s u [0, 0, 0] = Inr (r, [a0, a1, a2], m') \<and> invar m' \<and> bounded m' = bounded m \<and>
        (if r = 0 then m' = m
         else sorted_wrt disjnt [rng a0 d, rng a1 s, rng a2 u] \<and>
              rng a0 d \<union> rng a1 s \<union> rng a2 u \<subseteq> free m \<and>
              free m' = free m - (rng a0 d \<union> rng a1 s \<union> rng a2 u))"
begin

lemma client_step_ok:
  assumes inv: "invar m" and ok: "holdings_ok tot (free m) live"
  shows "\<not> bounded m \<and> client_step alloc alloc3 release r (m, live) = Inl Fault \<or>
     (\<exists>m' live'. client_step alloc alloc3 release r (m, live) = Inr (m', live') \<and>
           invar m' \<and> bounded m' = bounded m \<and> holdings_ok tot (free m') live')"
proof (cases r)
  case (Alloc sz)
  show ?thesis
  proof (cases "sz = 0")
    case False
    from alloc_law [OF inv this] obtain addr m' where
      al: "alloc m sz = Inr (addr, m')" "invar m'" "bounded m' = bounded m" and
      m': "if addr = 0 then m' = m else rng addr sz \<subseteq> free m \<and> free m' = free m - rng addr sz"
      by blast
    then show ?thesis
      using Alloc False ok holdings_ok_add [OF ok, of addr sz] range_bound [OF inv _ False, of addr]
      by auto
  qed (use Alloc inv ok in simp)
next
  case (Alloc3 d s u)
  show ?thesis
  proof (cases "u = 0")
    case False
    from alloc3_law [OF inv this, of d s] obtain q a0 a1 a2 m' where
      al: "alloc3 m d s u [0, 0, 0] = Inr (q, [a0, a1, a2], m')" "invar m'" "bounded m' = bounded m" and
      m': "if q = 0 then m' = m else sorted_wrt disjnt [rng a0 d, rng a1 s, rng a2 u] \<and>
              rng a0 d \<union> rng a1 s \<union> rng a2 u \<subseteq> free m \<and>
              free m' = free m - (rng a0 d \<union> rng a1 s \<union> rng a2 u)" by metis
    show ?thesis
    proof (cases "q = 0")
      case nz: False
      let ?f = "filter (\<lambda>(addr, sz). sz \<noteq> (0::u32))"
      have sub: "rng a0 d \<subseteq> free m" "rng a1 s \<subseteq> free m" "rng a2 u \<subseteq> free m"
        and dj: "disjnt (rng a0 d) (rng a1 s)" "disjnt (rng a0 d) (rng a2 u)"
          "disjnt (rng a1 s) (rng a2 u)"
        and fr: "free m' = free m - rng a2 u - rng a1 s - rng a0 d"
        using m' nz by auto
      note rb = range_bound [OF inv]
      have 1: "holdings_ok tot (free m - rng a2 u) (?f [(a2, u)] @ live)"
        using holdings_ok_add [OF ok sub(3)] rb sub by blast
      have "rng a1 s \<subseteq> free m - rng a2 u" using sub dj by (auto simp: disjnt_def)
      from holdings_ok_add [OF 1 this] rb sub
      have 2: "holdings_ok tot (free m - rng a2 u - rng a1 s) (?f [(a1, s)] @ ?f [(a2, u)] @ live)"
        by blast
      have "rng a0 d \<subseteq> free m - rng a2 u - rng a1 s" using sub dj by (auto simp: disjnt_def)
      from holdings_ok_add [OF 2 this] rb sub
      have 3: "holdings_ok tot (free m') (?f [(a0, d)] @ ?f [(a1, s)] @ ?f [(a2, u)] @ live)"
        unfolding fr by blast
      have "?f [(a0, d)] @ ?f [(a1, s)] @ ?f [(a2, u)] @ live = ?f [(a0, d), (a1, s), (a2, u)] @ live"
        by simp
      with 3 show ?thesis using Alloc3 False al nz by (auto simp: numeral_2_eq_2)
    qed (use Alloc3 False al m' ok in auto)
  qed (use Alloc3 inv ok in simp)
next
  case (Release i)
  show ?thesis
  proof (cases "i < length live")
    case True
    obtain addr sz where p: "live ! i = (addr, sz)" by fastforce
    then have "(addr, sz) \<in> set live" using True by (metis nth_mem)
    with ok have a: "addr \<noteq> 0" "sz \<noteq> 0" "unat addr + unat sz < 2 ^ 32" "free m \<inter> rng addr sz = {}"
      by (auto simp: holdings_ok_def held_def disjnt_def)
    from release_law [OF inv a(2,1,3,4)] consider "\<not> bounded m" "release m sz addr = Inl Fault"
      | lost m' where "release m sz addr = Inr (lost, m')" "invar m'" "bounded m' = bounded m"
        "free m' = free m \<or> free m' = free m \<union> rng addr sz" by (metis (full_types))
    then show ?thesis
    proof cases
      case 1
      then show ?thesis using Release True p by simp
    next
      case 2
      then show ?thesis using Release True p holdings_ok_remove [OF ok True, of "free m'"] by auto
    qed
  qed (use Release inv ok in simp)
qed

lemma client_run_ok:
  assumes "invar m" "holdings_ok tot (free m) live"
  shows "\<not> bounded m \<and> client_run alloc alloc3 release rs (m, live) = Inl Fault \<or>
     (\<exists>m' live'. client_run alloc alloc3 release rs (m, live) = Inr (m', live') \<and>
           invar m' \<and> bounded m' = bounded m \<and> holdings_ok tot (free m') live')"
  using assms
proof (induction rs arbitrary: m live)
  case (Cons r rs)
  from client_step_ok [OF Cons.prems, of r] consider "\<not> bounded m" "client_step alloc alloc3 release r (m, live) = Inl Fault"
    | m1 live1 where "client_step alloc alloc3 release r (m, live) = Inr (m1, live1)"
      "invar m1" "bounded m1 = bounded m" "holdings_ok tot (free m1) live1" by blast
  then show ?case
  proof cases
    case 2
    with Cons.IH [of m1 live1] show ?thesis by simp
  qed simp
qed simp

end

text \<open>The maps of subr_rmap.c provide the interface.\<close>

definition rmap_ok :: "rmap \<Rightarrow> bool" where
  "rmap_ok mp \<longleftrightarrow> rmap_inv mp \<and> limit_ok mp"

text \<open>Maps with any limit, and those whose limit lies inside the array.\<close>

definition map_ok :: "rmap \<Rightarrow> bool" where
  "map_ok mp \<longleftrightarrow> rmap_inv mp \<and> length (segs (m_map mp)) \<le> m_limit mp"

definition limit_inside :: "rmap \<Rightarrow> bool" where
  "limit_inside mp \<longleftrightarrow> m_limit mp < length (m_map mp)"

lemma rmap_ok_map_ok: "rmap_ok mp \<longleftrightarrow> map_ok mp \<and> limit_inside mp"
  by (auto simp: rmap_ok_def map_ok_def limit_inside_def limit_ok_def)

lemma free_units_below_top: "segs_ok lo xs \<Longrightarrow> u \<in> free_units xs \<Longrightarrow> Suc u < 2 ^ 32"
  by (induction xs arbitrary: lo) (auto simp: units_def)

lemma map_ok_step:
  assumes "map_ok m" "rmap_inv m'" "limit_ok m \<Longrightarrow> limit_ok m'" "m_limit m' = m_limit m" "length (m_map m') = length (m_map m)"
  shows "map_ok m'" "limit_inside m' = limit_inside m"
proof -
  show "limit_inside m' = limit_inside m" using assms(4,5) by (simp add: limit_inside_def)
  have n: "length (segs (m_map m')) < length (m_map m')" using assms(2) by (simp add: rmap_inv_def Let_def)
  show "map_ok m'"
  proof (cases "limit_inside m")
    case True
    then have "limit_ok m'" using assms(1,3) by (simp add: map_ok_def limit_inside_def limit_ok_def)
    then show ?thesis using assms(2) by (simp add: map_ok_def limit_ok_def)
  next
    case False
    then show ?thesis using assms(2,4,5) n by (simp add: map_ok_def limit_inside_def)
  qed
qed

interpretation rm: swap_map map_ok limit_inside rmap_free malloc mfree malloc3
proof unfold_locales
  fix m u assume "map_ok m" "u \<in> rmap_free m"
  then show "0 < u \<and> Suc u < 2 ^ 32"
    by (auto simp: map_ok_def elim!: rmap_invE dest: free_units_above free_units_below_top)
next
  fix m :: rmap and sz :: u32 assume m: "map_ok m" and sz: "sz \<noteq> 0"
  then have "rmap_inv m" by (simp add: map_ok_def)
  from this sz show "\<exists>addr m'. malloc m sz = Inr (addr, m') \<and> map_ok m' \<and> limit_inside m' = limit_inside m \<and>
      (if addr = 0 then m' = m
       else rng addr sz \<subseteq> rmap_free m \<and> rmap_free m' = rmap_free m - rng addr sz)"
  proof (cases rule: malloc_spec)
    case none
    then show ?thesis using m by auto
  next
    case (fit addr m')
    then show ?thesis using map_ok_step [OF m fit(5,10,7,9)] by (auto simp: rng_def)
  qed
next
  fix m :: rmap and sz addr :: u32
  assume m: "map_ok m" "sz \<noteq> 0" "addr \<noteq> 0" "unat addr + unat sz < 2 ^ 32" "rmap_free m \<inter> rng addr sz = {}"
  then have "rmap_inv m" "length (segs (m_map m)) \<le> m_limit m" "returnable m sz addr"
    by (auto simp: map_ok_def returnable_def rng_def)
  then show "\<not> limit_inside m \<and> mfree m sz addr = Inl Fault \<or>
      (\<exists>lost m'. mfree m sz addr = Inr (lost, m') \<and> map_ok m' \<and> limit_inside m' = limit_inside m \<and>
      (if lost then m' = m else rmap_free m' = rmap_free m \<union> rng addr sz))"
  proof (cases rule: mfree_any)
    case lost
    then show ?thesis using m(1) by auto
  next
    case (kept m')
    then have "map_ok m'" "limit_inside m' = limit_inside m" by (simp_all add: map_ok_def limit_inside_def)
    with kept(1,3) show ?thesis by (auto simp: rng_def)
  next
    case fault
    then show ?thesis by (simp add: limit_inside_def)
  qed
next
  fix m :: rmap and d s u :: u32 assume m: "map_ok m" and u: "u \<noteq> 0"
  then have i: "rmap_inv m" "length [0, 0, 0 :: u32] = 3" by (simp_all add: map_ok_def)
  from i show "\<exists>r a0 a1 a2 m'. malloc3 m d s u [0, 0, 0] = Inr (r, [a0, a1, a2], m') \<and> map_ok m' \<and> limit_inside m' = limit_inside m \<and>
      (if r = 0 then m' = m
       else sorted_wrt disjnt [rng a0 d, rng a1 s, rng a2 u] \<and>
            rng a0 d \<union> rng a1 s \<union> rng a2 u \<subseteq> rmap_free m \<and>
            rmap_free m' = rmap_free m - (rng a0 d \<union> rng a1 s \<union> rng a2 u))"
  proof (cases rule: malloc3_spec [of m "[0, 0, 0]" d s u])
    case none
    then show ?thesis using m by (intro exI [of _ 0] exI [of _ m]) simp
  next
    case (fit a0 a1 a2 m')
    have "if a2 = 0 then m' = m
       else sorted_wrt disjnt [rng a0 d, rng a1 s, rng a2 u] \<and>
            rng a0 d \<union> rng a1 s \<union> rng a2 u \<subseteq> rmap_free m \<and>
            rmap_free m' = rmap_free m - (rng a0 d \<union> rng a1 s \<union> rng a2 u)"
      using fit(2,4-6) u unfolding rng_def by simp
    with fit(1) map_ok_step [OF m fit(3,7,8,10)] show ?thesis by blast
  qed
qed

section \<open>Properties\<close>

definition small_map :: rmap where
  "small_map = \<lparr>m_map = [\<lparr>m_size = 4, m_addr = 8\<rparr>, \<lparr>m_size = 20, m_addr = 16\<rparr>] @ replicate 4 map_end,
     m_limit = 5, m_name = ''swapmap''\<rparr>"

lemma small_map_ok: "rmap_ok small_map"
  by (simp add: rmap_ok_def rmap_inv_def limit_ok_def small_map_def segs_def seg_lo_def seg_hi_def)

text \<open>
  C1. First fit: \<^verbatim>\<open>malloc\<close> never stops in a panic or outside the array on a well-formed map
  and a size other than 0. If some run of that many contiguous units is free, it returns the
  lowest address at which one starts and removes exactly those units from the free set;
  otherwise it returns 0 and leaves the map as it was.
\<close>

theorem malloc_first_fit:
  assumes "rmap_inv mp" and "sz \<noteq> 0"
  shows "\<exists>addr mp'. malloc mp sz = Inr (addr, mp') \<and> rmap_inv mp' \<and>
     (if \<exists>b. {b ..< b + unat sz} \<subseteq> rmap_free mp
      then unat addr = (LEAST b. {b ..< b + unat sz} \<subseteq> rmap_free mp) \<and> addr \<noteq> 0 \<and>
           rmap_free mp' = rmap_free mp - {unat addr ..< unat addr + unat sz}
      else addr = 0 \<and> mp' = mp)"
  using assms
proof (cases rule: malloc_spec)
  case none
  then show ?thesis using assms(1) by auto
next
  case (fit addr mp')
  have "(LEAST b. {b ..< b + unat sz} \<subseteq> rmap_free mp) = unat addr"
    by (rule Least_equality) (use fit(3,4) in \<open>auto simp: not_less [symmetric]\<close>)
  with fit show ?thesis by auto
qed

theorem malloc_first_fit_witness:
  "rmap_inv small_map \<and> (\<exists>addr mp'. malloc small_map 6 = Inr (addr, mp') \<and> rmap_inv mp')"
  using malloc_first_fit [of small_map 6] small_map_ok by (auto simp: rmap_ok_def)

text \<open>
  C2. Release: returning a range that is allocated leaves a well-formed (sorted, coalesced)
  map whose free units are the old ones and the returned ones, unless all slots are taken and
  the range abuts no free segment: then, and only then, the range is dropped with a message.
\<close>

theorem mfree_returns_range:
  assumes "rmap_ok mp" and "returnable mp sz addr"
  shows "\<exists>lost mp'. mfree mp sz addr = Inr (lost, mp') \<and> rmap_ok mp' \<and>
     (if lost then mp' = mp \<and> length (segs (m_map mp)) = m_limit mp \<and>
        unat addr - 1 \<notin> rmap_free mp \<and> unat addr + unat sz \<notin> rmap_free mp
      else rmap_free mp' = rmap_free mp \<union> {unat addr ..< unat addr + unat sz})"
proof -
  have "rmap_inv mp" "limit_ok mp" using assms(1) by (auto simp: rmap_ok_def)
  from this assms(2) show ?thesis
  proof (cases rule: mfree_spec)
    case lost
    with assms(1) show ?thesis by auto
  next
    case (kept mp')
    then have "rmap_ok mp'" by (simp add: rmap_ok_def)
    with kept(1,3) show ?thesis by auto
  qed
qed

theorem mfree_returns_range_witness:
  "returnable small_map 4 12 \<and> (\<exists>lost mp'. mfree small_map 4 12 = Inr (lost, mp') \<and> rmap_ok mp')"
proof -
  have r: "returnable small_map 4 12"
    by (auto simp: returnable_def rmap_free_def small_map_def segs_def units_def seg_lo_def seg_hi_def)
  from mfree_returns_range [OF small_map_ok r] r show ?thesis by blast
qed

text \<open>
  C3. Round trip: giving back what \<^verbatim>\<open>malloc\<close> returned never overflows the map and restores
  the same segments, in the same order.
\<close>

theorem malloc_mfree_roundtrip:
  assumes "rmap_ok mp" and "sz \<noteq> 0" and "malloc mp sz = Inr (addr, mp')" and "addr \<noteq> 0"
  shows "\<exists>mp''. mfree mp' sz addr = Inr (False, mp'') \<and> segs (m_map mp'') = segs (m_map mp)"
proof -
  have inv: "rmap_inv mp" and lim: "limit_ok mp" using assms(1) by (auto simp: rmap_ok_def)
  from inv assms(2) obtain
    sub: "{unat addr ..< unat addr + unat sz} \<subseteq> rmap_free mp" and inv': "rmap_inv mp'"
    and fr: "rmap_free mp' = rmap_free mp - {unat addr ..< unat addr + unat sz}"
    and l: "m_limit mp' = m_limit mp" and lim': "limit_ok mp'"
    and room: "unat addr + unat sz \<in> rmap_free mp' \<or>
             length (segs (m_map mp')) < length (segs (m_map mp))"
    by (cases rule: malloc_spec) (use assms(3,4) lim in auto)
  have "unat addr + unat sz < 2 ^ 32"
    using rm.range_bound [of mp addr sz, OF _ _ assms(2)] assms(1) sub by (simp add: rng_def rmap_ok_map_ok)
  then have ret: "returnable mp' sz addr"
    using assms(2,4) fr by (auto simp: returnable_def)
  from inv' lim' ret show ?thesis
  proof (cases rule: mfree_spec)
    case lost
    then show ?thesis using room lim l by (auto simp: limit_ok_def)
  next
    case (kept mp'')
    have "rmap_free mp'' = rmap_free mp" using kept(3) fr sub by auto
    then have "segs (m_map mp'') = segs (m_map mp)"
      using kept(2) inv segs_ok_unique unfolding rmap_inv_def rmap_free_def Let_def by blast
    with kept(1) show ?thesis by blast
  qed
qed

theorem malloc_mfree_roundtrip_witness:
  "\<exists>mp' mp''. malloc small_map 4 = Inr (8, mp') \<and> mfree mp' 4 8 = Inr (False, mp'') \<and>
     segs (m_map mp'') = segs (m_map small_map)"
proof -
  have m: "malloc small_map 4 =
      Inr (8, small_map\<lparr>m_map := \<lparr>m_size = 20, m_addr = 16\<rparr> # replicate 5 map_end\<rparr>)"
    by code_simp
  with malloc_mfree_roundtrip [OF small_map_ok _ m] show ?thesis by auto
qed

text \<open>
  C4. The three segments of a process: \<^verbatim>\<open>malloc3\<close> either changes nothing and returns 0, or
  stores three pairwise disjoint ranges of free units, returns the third, and removes exactly
  them from a map that stays well-formed, also when the data or stack size is 0.
\<close>

theorem malloc3_disjoint_segments:
  assumes "rmap_ok mp" and "u_size \<noteq> 0" and "length out = 3"
  shows "malloc3 mp d_size s_size u_size out = Inr (0, out, mp) \<or>
    (\<exists>a0 a1 a2 mp'. malloc3 mp d_size s_size u_size out = Inr (a2, [a0, a1, a2], mp') \<and>
       a2 \<noteq> 0 \<and> rmap_ok mp' \<and>
       sorted_wrt disjnt [rng a0 d_size, rng a1 s_size, rng a2 u_size] \<and>
       rng a0 d_size \<union> rng a1 s_size \<union> rng a2 u_size \<subseteq> rmap_free mp \<and>
       rmap_free mp' = rmap_free mp - (rng a0 d_size \<union> rng a1 s_size \<union> rng a2 u_size))"
proof -
  have inv: "rmap_inv mp" and lim: "limit_ok mp" using assms(1) by (auto simp: rmap_ok_def)
  from inv assms(3) show ?thesis
  proof (cases rule: malloc3_spec [of mp out d_size s_size u_size])
    case none
    then show ?thesis by blast
  next
    case (fit a0 a1 a2 mp')
    then have "rmap_ok mp'" using lim by (simp add: rmap_ok_def)
    with fit(1-6) assms(2) show ?thesis unfolding rng_def by blast
  qed
qed

theorem malloc3_disjoint_segments_witness:
  "malloc3 small_map 0 4 6 [0, 0, 0] = Inr (0, [0, 0, 0], small_map) \<or>
   (\<exists>a0 a1 a2 mp'. malloc3 small_map 0 4 6 [0, 0, 0] = Inr (a2, [a0, a1, a2], mp') \<and> rmap_ok mp')"
  using malloc3_disjoint_segments [OF small_map_ok, of 6 "[0, 0, 0]" 0 4] by auto

text \<open>
  C5. Any sequence of requests of a client that returns each range at most once, on any
  well-formed map, whatever its limit: the run never panics, and as long as it goes on the ranges handed out
  are pairwise disjoint, disjoint from the free units, and inside what was free at the start. It
  goes on to the end when the limit is the last slot of the array or lower, as map.h asks; a limit past the last slot, which
  is what \<open>swapmap\<close> has, leaves one other outcome, a write outside the array.
\<close>

theorem swap_clients_never_overlap:
  assumes "map_ok mp"
  shows "length (m_map mp) \<le> m_limit mp \<and> client_run malloc malloc3 mfree reqs (mp, []) = Inl Fault \<or>
     (\<exists>mp' live. client_run malloc malloc3 mfree reqs (mp, []) = Inr (mp', live) \<and>
           map_ok mp' \<and> m_limit mp' < length (m_map mp') = (m_limit mp < length (m_map mp)) \<and> sorted_wrt disjnt (held live) \<and>
           (\<forall>r. r \<in> set (held live) \<longrightarrow> disjnt (rmap_free mp') r) \<and>
           rmap_free mp' \<union> \<Union>(set (held live)) \<subseteq> rmap_free mp)"
proof -
  have "holdings_ok (rmap_free mp) (rmap_free mp) []" by (simp add: holdings_ok_def)
  from rm.client_run_ok [OF assms this, of reqs] show ?thesis
    unfolding holdings_ok_def limit_inside_def by (auto simp: not_less)
qed

text \<open>The swap map after \<^verbatim>\<open>main\<close> has put a swap area of 40 blocks into it.\<close>

definition boot_map :: rmap where
  "boot_map = swapmap\<lparr>m_map := \<lparr>m_size = 40, m_addr = 1\<rparr> # replicate 9 map_end\<rparr>"

lemma boot_map_ok: "mfree swapmap 40 1 = Inr (False, boot_map)" "map_ok boot_map"
proof -
  show "mfree swapmap 40 1 = Inr (False, boot_map)" by code_simp
  show "map_ok boot_map"
    by (simp add: map_ok_def rmap_inv_def boot_map_def swapmap_def SMAPSIZ_def segs_def seg_lo_def seg_hi_def)
qed

theorem swap_clients_never_overlap_witness:
  "\<exists>mp' live. client_run malloc malloc3 mfree [Alloc 4, Alloc3 2 1 3, Release 2] (boot_map, []) =
     Inr (mp', live) \<and> map_ok mp' \<and> sorted_wrt disjnt (held live)"
proof -
  have "client_run malloc malloc3 mfree [Alloc 4, Alloc3 2 1 3, Release 2] (boot_map, []) \<noteq> Inl Fault" by code_simp
  with swap_clients_never_overlap [OF boot_map_ok(2), of "[Alloc 4, Alloc3 2 1 3, Release 2]"] show ?thesis by blast
qed

text \<open>
  C6. The overrun: on every well-formed map whose limit lies past the last slot, a release that abuts no free segment
  writes outside the array when all slots but that of the terminator are in use, instead of
  reporting the overflow. \<open>swapmap\<close> is declared with such a limit, and the state is reached from
  boot by taking 18 blocks one by one and returning every second one.
\<close>

theorem swapmap_limit_overrun:
  assumes "rmap_inv mp" and "length (m_map mp) \<le> m_limit mp" and "Suc (length (segs (m_map mp))) = length (m_map mp)"
    and "returnable mp sz addr" and "unat addr - 1 \<notin> rmap_free mp" and "unat addr + unat sz \<notin> rmap_free mp"
  shows "mfree mp sz addr = Inl Fault"
  by (rule mfree_overrun) (use assms in \<open>simp_all add: slots_full_def abuts_none_def\<close>)

definition full_map :: rmap where
  "full_map = boot_map\<lparr>m_map := map (\<lambda>a. \<lparr>m_size = 1, m_addr = a\<rparr>) [3, 5, 7, 9, 11, 13, 15, 17] @
     [\<lparr>m_size = 22, m_addr = 19\<rparr>, map_end]\<rparr>"

lemma full_map_reached:
  "map_option fst (case client_run malloc malloc3 mfree (replicate 18 (Alloc 1) @ map Release [1..<9]) (boot_map, []) of
     Inr x \<Rightarrow> Some x | Inl e \<Rightarrow> None) = Some full_map"
  by code_simp

theorem swapmap_limit_overrun_witness:
  "(\<exists>live. client_run malloc malloc3 mfree (replicate 18 (Alloc 1) @ map Release [1..<9]) (boot_map, []) = Inr (full_map, live)) \<and>
   mfree full_map 1 1 = Inl Fault"
proof
  show "\<exists>live. client_run malloc malloc3 mfree (replicate 18 (Alloc 1) @ map Release [1..<9]) (boot_map, []) = Inr (full_map, live)"
    using full_map_reached by (auto split: sum.splits)
  have m: "m_map full_map = map (\<lambda>a. \<lparr>m_size = 1, m_addr = a\<rparr>) [3, 5, 7, 9, 11, 13, 15, 17] @ [\<lparr>m_size = 22, m_addr = 19\<rparr>, map_end]"
    and l: "m_limit full_map = 10" by (simp_all add: full_map_def boot_map_def swapmap_def SMAPSIZ_def)
  have f: "rmap_free full_map = {3, 5, 7, 9, 11, 13, 15, 17} \<union> {19 ..< 41}"
    by (auto simp: rmap_free_def m segs_def free_units_def units_def seg_lo_def seg_hi_def)
  show "mfree full_map 1 1 = Inl Fault"
  proof (rule swapmap_limit_overrun)
    show "rmap_inv full_map" by (simp add: rmap_inv_def m segs_def seg_lo_def seg_hi_def)
    show "Suc (length (segs (m_map full_map))) = length (m_map full_map)" by (simp add: m segs_def)
  qed (simp_all add: l m returnable_def f)
qed

end
