(* ===== verification/Callout.thy ===== *)
theory Callout
  imports Kernel_Prelude
begin

text \<open>
  The callout queue of sys/kernel/kern_clock.c: \<^verbatim>\<open>timeout\<close>, \<^verbatim>\<open>untimeout\<close>, the part of
  \<^verbatim>\<open>hardclock\<close> that counts the queue down, the part of \<^verbatim>\<open>softclock\<close> that runs what is due, and
  \<^verbatim>\<open>coutinit\<close>. The linked lists \<^verbatim>\<open>calltodo\<close> and \<^verbatim>\<open>callfree\<close> are the lists of their nodes.
  The abstract view is the schedule: for every pending call the number of ticks that are
  left, which the code stores as differences.
\<close>

section \<open>Model\<close>

record callout =
  c_time :: int
  c_arg :: u32
  c_func :: u32

record ctab =
  calltodo :: "callout list"
  callfree :: "callout list"

text \<open>The loop of \<^verbatim>\<open>timeout\<close> and the linking that follows it; \<open>t\<close> is positive here.\<close>

fun timeout_insert :: "callout \<Rightarrow> int \<Rightarrow> callout list \<Rightarrow> callout list" where
  "timeout_insert pnew t [] = [pnew\<lparr>c_time := t\<rparr>]"
| "timeout_insert pnew t (p2 # ps) =
     (if c_time p2 < t then
        p2 # timeout_insert pnew (if c_time p2 > 0 then t - c_time p2 else t) ps
      else pnew\<lparr>c_time := t\<rparr> # p2\<lparr>c_time := c_time p2 - t\<rparr> # ps)"

definition timeout :: "u32 \<Rightarrow> u32 \<Rightarrow> int \<Rightarrow> ctab \<Rightarrow> ctab kres" where
  "timeout fn arg t s =
     (let t' = (if t \<le> 0 then 1 else t) in
      case callfree s of
        [] \<Rightarrow> Inl (Panic ''timeout table overflow'')
      | pnew # fr \<Rightarrow>
          Inr \<lparr>calltodo = timeout_insert (pnew\<lparr>c_arg := arg, c_func := fn\<rparr>) t' (calltodo s),
               callfree = fr\<rparr>)"

text \<open>The node found, if any, and the queue without it.\<close>

fun untimeout_remove :: "u32 \<Rightarrow> u32 \<Rightarrow> callout list \<Rightarrow> callout option \<times> callout list" where
  "untimeout_remove fn arg [] = (None, [])"
| "untimeout_remove fn arg (p2 # ps) =
     (if c_func p2 = fn \<and> c_arg p2 = arg then
        (Some p2,
         case ps of [] \<Rightarrow> []
         | n # ns \<Rightarrow> (if c_time p2 > 0 then n\<lparr>c_time := c_time n + c_time p2\<rparr> else n) # ns)
      else let r = untimeout_remove fn arg ps in (fst r, p2 # snd r))"

definition untimeout :: "u32 \<Rightarrow> u32 \<Rightarrow> ctab \<Rightarrow> ctab" where
  "untimeout fn arg s =
     (case untimeout_remove fn arg (calltodo s) of
        (None, q) \<Rightarrow> s\<lparr>calltodo := q\<rparr>
      | (Some p2, q) \<Rightarrow> s\<lparr>calltodo := q, callfree := p2 # callfree s\<rparr>)"

text \<open>The first loop of \<^verbatim>\<open>hardclock\<close>; the Boolean is \<^verbatim>\<open>needsoft\<close> after it.\<close>

fun hardclock_callouts :: "callout list \<Rightarrow> callout list \<times> bool" where
  "hardclock_callouts [] = ([], False)"
| "hardclock_callouts (p1 # ps) =
     (let p1' = p1\<lparr>c_time := c_time p1 - 1\<rparr> in
      if c_time p1' > 0 then (p1' # ps, False)
      else if c_time p1' = 0 then (p1' # ps, True)
      else (p1' # fst (hardclock_callouts ps), True))"

text \<open>
  What a called function can do to the queue is to call \<^verbatim>\<open>timeout\<close> and \<^verbatim>\<open>untimeout\<close>; the
  table \<open>acts\<close> gives, for a function and its argument, the calls it makes.
\<close>

datatype callop = Timeout u32 u32 int | Untimeout u32 u32

fun do_callops :: "callop list \<Rightarrow> ctab \<Rightarrow> ctab kres" where
  "do_callops [] s = Inr s"
| "do_callops (Timeout f a t # ops) s = kbind (timeout f a t s) (do_callops ops)"
| "do_callops (Untimeout f a # ops) s = do_callops ops (untimeout f a s)"

text \<open>
  The loop of \<^verbatim>\<open>softclock\<close>: the result holds the calls it made, oldest first. \<open>None\<close> is a
  loop that does not end.
\<close>

partial_function (option) softclock_callouts ::
  "(u32 \<Rightarrow> u32 \<Rightarrow> callop list) \<Rightarrow> ctab \<Rightarrow> ((u32 \<times> u32) list \<times> ctab) kres option" where
  "softclock_callouts acts s =
     (case calltodo s of
        [] \<Rightarrow> Some (Inr ([], s))
      | p1 # ps \<Rightarrow>
          if c_time p1 > 0 then Some (Inr ([], s))
          else
            (case do_callops (acts (c_func p1) (c_arg p1))
                    \<lparr>calltodo = ps, callfree = p1 # callfree s\<rparr> of
               Inl e \<Rightarrow> Some (Inl e)
             | Inr s' \<Rightarrow> Option.bind (softclock_callouts acts s')
                 (\<lambda>r. Some (kbind r (\<lambda>(tr, s''). Inr ((c_func p1, c_arg p1) # tr, s''))))))"

definition MAXUSERS :: nat where
  "MAXUSERS = 1"

definition NCALL :: nat where
  "NCALL = 16 + 2 * MAXUSERS"

lemma NCALL_eq [simp]: "NCALL = 18"
  by (simp add: NCALL_def MAXUSERS_def)

text \<open>The links of the array; \<^verbatim>\<open>calltodo\<close> is zero at boot.\<close>

definition coutinit :: "callout list \<Rightarrow> ctab" where
  "coutinit callout = \<lparr>calltodo = [], callfree = map (\<lambda>i. callout ! i) [0..<NCALL]\<rparr>"


section \<open>The schedule\<close>

text \<open>
  The queue starts with the calls that are due; behind them every entry holds the positive
  or zero distance to its predecessor. \<open>sched b q\<close> gives for every entry the ticks that are
  left before it is due, \<open>b\<close> being the ticks of its predecessor.
\<close>

definition due :: "callout \<Rightarrow> bool" where
  "due p \<longleftrightarrow> c_time p \<le> 0"

definition callq_ok :: "callout list \<Rightarrow> bool" where
  "callq_ok q \<longleftrightarrow> (\<forall>p\<in>set (dropWhile due q). 0 \<le> c_time p)"

fun sched :: "nat \<Rightarrow> callout list \<Rightarrow> ((u32 \<times> u32) \<times> nat) list" where
  "sched b [] = []"
| "sched b (p # ps) =
     (let r = b + nat (c_time p) in ((c_func p, c_arg p), r) # sched r ps)"

definition schedule :: "ctab \<Rightarrow> ((u32 \<times> u32) \<times> nat) list" where
  "schedule s = sched 0 (calltodo s)"

text \<open>Abstract operations on a schedule, which is sorted by the ticks left.\<close>

fun sched_insert :: "'c \<Rightarrow> nat \<Rightarrow> ('c \<times> nat) list \<Rightarrow> ('c \<times> nat) list" where
  "sched_insert c t [] = [(c, t)]"
| "sched_insert c t ((d, u) # ps) =
     (if u < t then (d, u) # sched_insert c t ps else (c, t) # (d, u) # ps)"

fun sched_remove :: "'c \<Rightarrow> ('c \<times> nat) list \<Rightarrow> ('c \<times> nat) list" where
  "sched_remove c [] = []"
| "sched_remove c ((d, u) # ps) = (if d = c then ps else (d, u) # sched_remove c ps)"

definition sched_tick :: "('c \<times> nat) list \<Rightarrow> ('c \<times> nat) list" where
  "sched_tick q = map (\<lambda>(c, t). (c, t - 1)) q"

text \<open>Behind the due entries.\<close>

definition deltas :: "callout list \<Rightarrow> bool" where
  "deltas q \<longleftrightarrow> (\<forall>p\<in>set q. 0 \<le> c_time p)"

lemma deltas_simps [simp]:
  "deltas []" "deltas (p # q) \<longleftrightarrow> 0 \<le> c_time p \<and> deltas q"
  by (auto simp: deltas_def)

lemma callq_ok_simps [simp]:
  "callq_ok []"
  "callq_ok (p # q) \<longleftrightarrow> (if due p then callq_ok q else deltas q)"
  by (auto simp: callq_ok_def deltas_def due_def)

lemma deltas_callq_ok: "deltas q \<Longrightarrow> callq_ok q"
  by (induction q) auto

lemma timeout_insert_deltas:
  "0 < t \<Longrightarrow> deltas q \<Longrightarrow> deltas (timeout_insert p t q)"
  by (induction p t q rule: timeout_insert.induct) auto

lemma timeout_insert_callq_ok:
  "0 < t \<Longrightarrow> callq_ok q \<Longrightarrow> callq_ok (timeout_insert p t q)"
  by (induction p t q rule: timeout_insert.induct) (auto simp: due_def timeout_insert_deltas)

lemma sched_timeout_insert_gen:
  "0 < t \<Longrightarrow> deltas q \<Longrightarrow>
   sched b (timeout_insert p t q) = sched_insert (c_func p, c_arg p) (b + nat t) (sched b q)"
  by (induction p t q arbitrary: b rule: timeout_insert.induct)
    (auto simp: Let_def nat_diff_distrib)

lemma sched_timeout_insert:
  "0 < t \<Longrightarrow> callq_ok q \<Longrightarrow>
   sched 0 (timeout_insert p t q) = sched_insert (c_func p, c_arg p) (nat t) (sched 0 q)"
proof (induction p t q rule: timeout_insert.induct)
  case (2 pnew t p2 ps)
  then show ?case
    using sched_timeout_insert_gen [of t "p2 # ps" 0 pnew] by (auto simp: due_def)
qed simp

lemma untimeout_remove_deltas:
  "deltas q \<Longrightarrow> deltas (snd (untimeout_remove f a q))"
proof (induction q)
  case (Cons p2 ps)
  then show ?case by (cases ps) (auto simp: Let_def)
qed simp

lemma untimeout_remove_callq_ok:
  "callq_ok q \<Longrightarrow> callq_ok (snd (untimeout_remove f a q))"
proof (induction q)
  case (Cons p2 ps)
  then show ?case
    using untimeout_remove_deltas [of ps f a]
    by (cases ps) (auto simp: Let_def due_def deltas_callq_ok split: if_splits)
qed simp

lemma sched_untimeout_remove_gen:
  "deltas q \<Longrightarrow> sched b (snd (untimeout_remove f a q)) = sched_remove (f, a) (sched b q)"
proof (induction q arbitrary: b)
  case (Cons p2 ps)
  then show ?case by (cases ps) (auto simp: Let_def nat_add_distrib ac_simps)
qed simp

lemma sched_untimeout_remove:
  "callq_ok q \<Longrightarrow> sched 0 (snd (untimeout_remove f a q)) = sched_remove (f, a) (sched 0 q)"
proof (induction q)
  case (Cons p2 ps)
  show ?case
  proof (cases "due p2")
    case True
    with Cons show ?thesis by (cases ps) (auto simp: Let_def due_def)
  next
    case False
    with Cons.prems show ?thesis
      using sched_untimeout_remove_gen [of "p2 # ps" 0 f a] by (auto simp: due_def)
  qed
qed simp

lemma hardclock_callouts_callq_ok:
  "callq_ok q \<Longrightarrow> callq_ok (fst (hardclock_callouts q))"
  by (induction q) (auto simp: due_def deltas_callq_ok Let_def)

lemma sched_minus: "deltas q \<Longrightarrow> 0 < b \<Longrightarrow> sched (b - Suc 0) q = sched_tick (sched b q)"
proof (induction q arbitrary: b)
  case (Cons p q)
  then show ?case
    using Cons.IH [of "b + nat (c_time p)"] by (simp add: Let_def sched_tick_def)
qed (simp add: sched_tick_def)

lemma sched_hardclock_callouts:
  "callq_ok q \<Longrightarrow> sched 0 (fst (hardclock_callouts q)) = sched_tick (sched 0 q)"
proof (induction q)
  case (Cons p q)
  show ?case
  proof (cases "due p")
    case True
    with Cons show ?thesis by (auto simp: due_def Let_def sched_tick_def)
  next
    case False
    then have "sched (nat (c_time p) - 1) q = sched_tick (sched (nat (c_time p)) q)"
      using sched_minus [of q "nat (c_time p)"] Cons.prems by (simp add: due_def)
    with False show ?thesis
      by (auto simp: due_def Let_def sched_tick_def nat_diff_distrib)
  qed
qed (simp add: sched_tick_def)

lemma needsoft_hardclock_callouts:
  "callq_ok q \<Longrightarrow>
   snd (hardclock_callouts q) \<longleftrightarrow> (\<exists>c. (c, 0) \<in> set (sched 0 (fst (hardclock_callouts q))))"
proof -
  have pos: "0 < b \<Longrightarrow> (c, 0) \<notin> set (sched b q)" for b q c
    by (induction q arbitrary: b) (auto simp: Let_def)
  show "callq_ok q \<Longrightarrow> ?thesis"
    by (cases q) (auto simp: Let_def due_def pos intro: exI)
qed

section \<open>The table keeps its entries\<close>

definition ctab_ok :: "ctab \<Rightarrow> bool" where
  "ctab_ok s \<longleftrightarrow> callq_ok (calltodo s) \<and> length (calltodo s) + length (callfree s) = NCALL"

lemma length_sched [simp]: "length (sched b q) = length q"
  by (induction q arbitrary: b) (auto simp: Let_def)

lemma length_timeout_insert [simp]: "length (timeout_insert p t q) = Suc (length q)"
  by (induction p t q rule: timeout_insert.induct) auto

lemma length_untimeout_remove:
  "length (snd (untimeout_remove f a q)) + (if fst (untimeout_remove f a q) = None then 0 else 1)
     = length q"
proof (induction q)
  case (Cons p q)
  then show ?case by (cases q) (auto simp: Let_def)
qed simp

lemma timeout_ctab_ok:
  assumes "ctab_ok s" "timeout f a t s = Inr s'"
  shows "ctab_ok s'"
    and "schedule s' = sched_insert (f, a) (nat (max 1 t)) (schedule s)"
proof -
  from assms obtain p fr where fr: "callfree s = p # fr"
    and s': "s' = \<lparr>calltodo = timeout_insert (p\<lparr>c_arg := a, c_func := f\<rparr>) (max 1 t) (calltodo s),
                   callfree = fr\<rparr>"
    by (auto simp: timeout_def max_def Let_def split: list.splits if_splits)
  show "ctab_ok s'"
    using assms(1) by (simp add: ctab_ok_def s' fr timeout_insert_callq_ok)
  show "schedule s' = sched_insert (f, a) (nat (max 1 t)) (schedule s)"
    using assms(1) by (simp add: ctab_ok_def schedule_def s' sched_timeout_insert)
qed

lemma untimeout_ctab_ok:
  assumes "ctab_ok s"
  shows "ctab_ok (untimeout f a s)"
    and "schedule (untimeout f a s) = sched_remove (f, a) (schedule s)"
  using assms untimeout_remove_callq_ok [of "calltodo s" f a]
    sched_untimeout_remove [of "calltodo s" f a] length_untimeout_remove [of f a "calltodo s"]
  by (auto simp: untimeout_def ctab_ok_def schedule_def split: prod.splits option.splits)

section \<open>Running what is due\<close>

definition zeros :: "('c \<times> nat) list \<Rightarrow> 'c list" where
  "zeros q = map fst (filter (\<lambda>e. snd e = 0) q)"

lemma zeros_simps [simp]:
  "zeros [] = []" "zeros ((c, 0) # q) = c # zeros q" "zeros ((c, Suc n) # q) = zeros q"
  "zeros ((c, n) # q) = (if n = 0 then c # zeros q else zeros q)"
  by (auto simp: zeros_def)

lemma zeros_sched_insert: "0 < t \<Longrightarrow> zeros (sched_insert c t q) = zeros q"
  by (induction c t q rule: sched_insert.induct) auto

lemma zeros_sched_remove: "length (zeros (sched_remove c q)) \<le> length (zeros q)"
  by (induction c q rule: sched_remove.induct) auto

lemma set_sched_insert: "set (sched_insert c t q) = insert (c, t) (set q)"
  by (induction c t q rule: sched_insert.induct) auto

lemma do_callops_ok:
  "ctab_ok s \<Longrightarrow> do_callops ops s = Inr s' \<Longrightarrow>
   ctab_ok s' \<and> length (zeros (schedule s')) \<le> length (zeros (schedule s))"
proof (induction ops s rule: do_callops.induct)
  case (2 f a t ops s)
  then obtain s1 where s1: "timeout f a t s = Inr s1" "do_callops ops s1 = Inr s'"
    by (auto simp: kbind_eq_Inr_iff)
  then show ?case
    using "2.IH" [of s1] "2.prems"(1) timeout_ctab_ok [OF "2.prems"(1) s1(1)]
    by (simp add: zeros_sched_insert)
next
  case (3 f a ops s)
  then show ?case
    using untimeout_ctab_ok [of s f a] zeros_sched_remove [of "(f, a)" "schedule s"] by fastforce
qed simp

fun is_timeout :: "callop \<Rightarrow> bool" where
  "is_timeout (Timeout f a t) = True"
| "is_timeout (Untimeout f a) = False"

lemma do_callops_timeouts:
  "ctab_ok s \<Longrightarrow> \<forall>oper\<in>set ops. is_timeout oper \<Longrightarrow> do_callops ops s = Inr s' \<Longrightarrow>
   zeros (schedule s') = zeros (schedule s) \<and> set (schedule s) \<subseteq> set (schedule s')"
proof (induction ops s rule: do_callops.induct)
  case (2 f a t ops s)
  then obtain s1 where s1: "timeout f a t s = Inr s1" "do_callops ops s1 = Inr s'"
    by (auto simp: kbind_eq_Inr_iff)
  then show ?case
    using "2.IH" [of s1] "2.prems"(1,2) timeout_ctab_ok [OF "2.prems"(1) s1(1)]
    by (auto simp: zeros_sched_insert set_sched_insert)
qed auto

lemma pop_due:
  assumes "ctab_ok s" "calltodo s = p1 # ps" "\<not> c_time p1 > 0"
  shows "ctab_ok \<lparr>calltodo = ps, callfree = p1 # callfree s\<rparr>"
    and "schedule s = ((c_func p1, c_arg p1), 0) #
           schedule \<lparr>calltodo = ps, callfree = p1 # callfree s\<rparr>"
  using assms by (auto simp: ctab_ok_def schedule_def due_def)

lemma sched_ge: "(c, n) \<in> set (sched b q) \<Longrightarrow> b \<le> n"
  by (induction q arbitrary: b) (fastforce simp: Let_def)+

lemma head_not_due:
  assumes "calltodo s = p1 # ps" "c_time p1 > 0"
  shows "zeros (schedule s) = []"
  using assms sched_ge by (fastforce simp: schedule_def zeros_def Let_def filter_empty_conv)

text \<open>One invariant for the whole loop; the hypotheses of the properties select its parts.\<close>

definition only_timeouts :: "(u32 \<Rightarrow> u32 \<Rightarrow> callop list) \<Rightarrow> bool" where
  "only_timeouts acts \<longleftrightarrow> (\<forall>f a. \<forall>oper\<in>set (acts f a). is_timeout oper)"

lemma softclock_callouts_correct:
  assumes "ctab_ok s"
  shows "\<exists>r. softclock_callouts acts s = Some r \<and>
           (\<forall>tr s'. r = Inr (tr, s') \<longrightarrow>
              ctab_ok s' \<and> zeros (schedule s') = [] \<and>
              (only_timeouts acts \<longrightarrow>
                 tr = zeros (schedule s) \<and>
                 {e \<in> set (schedule s). 0 < snd e} \<subseteq> set (schedule s')))"
  using assms
proof (induction "length (zeros (schedule s))" arbitrary: s rule: less_induct)
  case less
  show ?case
  proof (cases "calltodo s")
    case Nil
    then show ?thesis
      using less.prems by (subst softclock_callouts.simps) (simp add: schedule_def)
  next
    case (Cons p1 ps)
    let ?s0 = "\<lparr>calltodo = ps, callfree = p1 # callfree s\<rparr>"
    let ?ops = "acts (c_func p1) (c_arg p1)"
    show ?thesis
    proof (cases "c_time p1 > 0")
      case True
      then show ?thesis
        using less.prems Cons head_not_due [OF Cons True]
        by (subst softclock_callouts.simps) auto
    next
      case False
      note pop = pop_due [OF less.prems Cons False]
      show ?thesis
      proof (cases "do_callops ?ops ?s0")
        case (Inl e)
        then show ?thesis
          using Cons False by (subst softclock_callouts.simps) simp
      next
        case (Inr s1)
        note ok1 = do_callops_ok [OF pop(1) Inr]
        then have lt: "length (zeros (schedule s1)) < length (zeros (schedule s))"
          using pop(2) by simp
        from less.hyps [OF lt] ok1 obtain r1 where r1: "softclock_callouts acts s1 = Some r1"
          and p1: "\<And>tr s'. r1 = Inr (tr, s') \<Longrightarrow> ctab_ok s' \<and> zeros (schedule s') = [] \<and>
              (only_timeouts acts \<longrightarrow> tr = zeros (schedule s1) \<and>
                 {e \<in> set (schedule s1). 0 < snd e} \<subseteq> set (schedule s'))"
          by blast
        have "only_timeouts acts \<Longrightarrow>
            zeros (schedule s1) = zeros (schedule ?s0) \<and> set (schedule ?s0) \<subseteq> set (schedule s1)"
          using do_callops_timeouts [OF pop(1) _ Inr] by (simp add: only_timeouts_def)
        then show ?thesis
          using Cons False Inr r1 p1 pop(2)
          by (subst softclock_callouts.simps) (cases r1; fastforce)
      qed
    qed
  qed
qed

lemma sched_tick_funpow: "(sched_tick ^^ n) q = map (\<lambda>(c, t). (c, t - n)) q"
  by (induction n) (auto simp: sched_tick_def)

definition hardclock_ticks :: "nat \<Rightarrow> callout list \<Rightarrow> callout list" where
  "hardclock_ticks n q = ((\<lambda>q. fst (hardclock_callouts q)) ^^ n) q"

lemma hardclock_ticks_ok:
  "callq_ok q \<Longrightarrow> callq_ok (hardclock_ticks n q) \<and>
     sched 0 (hardclock_ticks n q) = map (\<lambda>(c, t). (c, t - n)) (sched 0 q)"
proof -
  have "callq_ok q \<Longrightarrow> callq_ok (hardclock_ticks n q) \<and>
     sched 0 (hardclock_ticks n q) = (sched_tick ^^ n) (sched 0 q)" for q
    by (induction n)
      (auto simp: hardclock_ticks_def hardclock_callouts_callq_ok sched_hardclock_callouts)
  then show "callq_ok q \<Longrightarrow> ?thesis" by (simp add: sched_tick_funpow)
qed

section \<open>The timer interface\<close>

text \<open>
  What the clients of the queue rely on: a call that was scheduled stays scheduled, and
  every tick brings it one tick nearer, whatever calls are added or cancelled meanwhile.
\<close>

datatype 'c timer_op = Add 'c int | Cancel 'c | Tick

locale timer_queue =
  fixes ok :: "'s \<Rightarrow> bool"
    and view :: "'s \<Rightarrow> ('c \<times> nat) list"
    and add :: "'c \<Rightarrow> int \<Rightarrow> 's \<Rightarrow> 's kres"
    and cancel :: "'c \<Rightarrow> 's \<Rightarrow> 's"
    and tick :: "'s \<Rightarrow> 's"
  assumes add_ok: "ok s \<Longrightarrow> add c t s = Inr s' \<Longrightarrow>
      ok s' \<and> view s' = sched_insert c (nat (max 1 t)) (view s)"
    and cancel_ok: "ok s \<Longrightarrow> ok (cancel c s) \<and> view (cancel c s) = sched_remove c (view s)"
    and tick_ok: "ok s \<Longrightarrow> ok (tick s) \<and> view (tick s) = sched_tick (view s)"
begin

fun run :: "'c timer_op list \<Rightarrow> 's \<Rightarrow> 's kres" where
  "run [] s = Inr s"
| "run (Add c t # ops) s = kbind (add c t s) (run ops)"
| "run (Cancel c # ops) s = run ops (cancel c s)"
| "run (Tick # ops) s = run ops (tick s)"

lemma sched_remove_other: "(c, t) \<in> set q \<Longrightarrow> c \<noteq> d \<Longrightarrow> (c, t) \<in> set (sched_remove d q)"
  by (induction d q rule: sched_remove.induct) auto

lemma run_keeps:
  "ok s \<Longrightarrow> (c, t) \<in> set (view s) \<Longrightarrow> Cancel c \<notin> set ops \<Longrightarrow> run ops s = Inr s' \<Longrightarrow>
   ok s' \<and> (c, t - count_list ops Tick) \<in> set (view s')"
proof (induction ops s arbitrary: t rule: run.induct)
  case (2 d u ops s)
  then obtain s1 where s1: "add d u s = Inr s1" "run ops s1 = Inr s'"
    by (auto simp: kbind_eq_Inr_iff)
  then have "ok s1" "(c, t) \<in> set (view s1)"
    using add_ok [OF "2.prems"(1) s1(1)] "2.prems"(2) by (simp_all add: set_sched_insert)
  with "2.IH" [of s1 t] "2.prems"(3) s1(2) show ?case by simp
next
  case (3 d ops s)
  then show ?case using cancel_ok [OF "3.prems"(1), of d] by (auto intro: sched_remove_other)
next
  case (4 ops s)
  then have "(c, t - 1) \<in> set (view (tick s))"
    using tick_ok [OF "4.prems"(1)] by (force simp: sched_tick_def)
  with 4 tick_ok [OF "4.prems"(1)] show ?case by fastforce
qed auto

lemma add_then_run:
  assumes "ok s" "add c t s = Inr s1" "Cancel c \<notin> set ops" "run ops s1 = Inr s'"
  shows "ok s' \<and> (c, nat (max 1 t) - count_list ops Tick) \<in> set (view s')"
proof (rule run_keeps [OF _ _ assms(3,4)])
  show "ok s1" "(c, nat (max 1 t)) \<in> set (view s1)"
    using add_ok [OF assms(1,2)] by (simp_all add: set_sched_insert)
qed

end

definition hardclock_tick :: "ctab \<Rightarrow> ctab" where
  "hardclock_tick s = s\<lparr>calltodo := fst (hardclock_callouts (calltodo s))\<rparr>"

lemma length_hardclock_callouts [simp]: "length (fst (hardclock_callouts q)) = length q"
  by (induction q) (auto simp: Let_def)

interpretation callq: timer_queue ctab_ok schedule "\<lambda>(f, a). timeout f a" "\<lambda>(f, a). untimeout f a"
  hardclock_tick
proof
  show "ctab_ok s \<Longrightarrow> (case c of (f, a) \<Rightarrow> timeout f a) t s = Inr s' \<Longrightarrow>
      ctab_ok s' \<and> schedule s' = sched_insert c (nat (max 1 t)) (schedule s)" for s c t s'
    using timeout_ctab_ok by (cases c) simp
  show "ctab_ok s \<Longrightarrow> ctab_ok ((case c of (f, a) \<Rightarrow> untimeout f a) s) \<and>
      schedule ((case c of (f, a) \<Rightarrow> untimeout f a) s) = sched_remove c (schedule s)" for s c
    using untimeout_ctab_ok by (cases c) simp
  show "ctab_ok s \<Longrightarrow> ctab_ok (hardclock_tick s) \<and>
      schedule (hardclock_tick s) = sched_tick (schedule s)" for s
    by (simp add: ctab_ok_def schedule_def hardclock_tick_def sched_hardclock_callouts
        hardclock_callouts_callq_ok)
qed

text \<open>The run of the interface, over the model's own operations.\<close>

fun callout_run :: "(u32 \<times> u32) timer_op list \<Rightarrow> ctab \<Rightarrow> ctab kres" where
  "callout_run [] s = Inr s"
| "callout_run (Add (f, a) t # ops) s = kbind (timeout f a t s) (callout_run ops)"
| "callout_run (Cancel (f, a) # ops) s = callout_run ops (untimeout f a s)"
| "callout_run (Tick # ops) s = callout_run ops (hardclock_tick s)"

lemma callout_run_eq: "callout_run ops s = callq.run ops s"
  by (induction ops s rule: callout_run.induct) (auto simp: kbind_def split: sum.splits)

lemma coutinit_ok: "ctab_ok (coutinit c)"
  by (simp add: ctab_ok_def coutinit_def)

lemmas callout_eval = coutinit_def timeout_def untimeout_def schedule_def hardclock_tick_def
  ctab_ok_def due_def Let_def

section \<open>Properties\<close>

text \<open>
  C7. A call of \<open>timeout\<close> with a free entry schedules the call after \<open>max 1 t\<close> ticks, before
  the entries of the same tick, and changes the ticks of no other pending call, although
  it rewrites the difference stored in the entry behind the new one; the queue invariant
  and the number of entries are kept. It panics exactly when no entry is free.
\<close>

theorem timeout_schedules:
  assumes "ctab_ok s"
  shows "case timeout f a t s of
           Inl e \<Rightarrow> e = Panic ''timeout table overflow'' \<and> callfree s = []
         | Inr s' \<Rightarrow> callfree s \<noteq> [] \<and> ctab_ok s' \<and>
             schedule s' = sched_insert (f, a) (nat (max 1 t)) (schedule s)"
  using timeout_ctab_ok [OF assms, of f a t]
  by (auto simp: timeout_def split: sum.splits list.splits)

lemma timeout_schedules_witness:
  "\<exists>s'. timeout 1 2 3 (coutinit (replicate 18 \<lparr>c_time = 0, c_arg = 0, c_func = 0\<rparr>)) = Inr s' \<and>
        schedule s' = [((1, 2), 3)]"
  using timeout_schedules [OF coutinit_ok, of _ 1 2 3, of "replicate 18 \<lparr>c_time = 0, c_arg = 0, c_func = 0\<rparr>"]
  by (simp add: timeout_def coutinit_def upt_rec schedule_def Let_def)

text \<open>
  \<open>untimeout\<close> removes the first pending call of the function with the argument, if there
  is one, returns its entry to the free list, and changes the ticks of no other call.
\<close>

theorem untimeout_removes:
  assumes "ctab_ok s"
  shows "ctab_ok (untimeout f a s) \<and>
         schedule (untimeout f a s) = sched_remove (f, a) (schedule s) \<and>
         ((f, a) \<in> fst ` set (schedule s) \<longrightarrow>
            length (callfree (untimeout f a s)) = Suc (length (callfree s)))"
proof -
  have "length (sched_remove c q) + (if c \<in> fst ` set q then 1 else 0) = length q" for c q
    by (induction c q rule: sched_remove.induct) (force split: if_splits)+
  from this [of "(f, a)" "schedule s"]
  have "(f, a) \<in> fst ` set (schedule s) \<Longrightarrow>
      length (schedule s) = Suc (length (schedule (untimeout f a s)))"
    using untimeout_ctab_ok [OF assms, of f a] by simp
  then show ?thesis
    using assms untimeout_ctab_ok [OF assms, of f a]
    by (intro conjI impI) (simp_all add: ctab_ok_def schedule_def)
qed

lemma untimeout_removes_witness:
  "schedule (untimeout 1 2
     \<lparr>calltodo = [\<lparr>c_time = 3, c_arg = 2, c_func = 1\<rparr>, \<lparr>c_time = 4, c_arg = 5, c_func = 6\<rparr>],
      callfree = replicate 16 \<lparr>c_time = 0, c_arg = 0, c_func = 0\<rparr>\<rparr>) = [((6, 5), 7)]"
  using untimeout_removes [of "\<lparr>calltodo = [\<lparr>c_time = 3, c_arg = 2, c_func = 1\<rparr>,
      \<lparr>c_time = 4, c_arg = 5, c_func = 6\<rparr>],
      callfree = replicate 16 \<lparr>c_time = 0, c_arg = 0, c_func = 0\<rparr>\<rparr>" 1 2]
  by (simp add: ctab_ok_def due_def schedule_def Let_def)

text \<open>
  The countdown of \<open>hardclock\<close>: although it decrements only the entries up to the first
  one that is not overdue, \<open>n\<close> ticks bring every pending call exactly \<open>n\<close> ticks nearer; and a
  tick asks for \<open>softclock\<close> exactly when some call is then due.
\<close>

theorem hardclock_counts_down:
  assumes "callq_ok q"
  shows "callq_ok (hardclock_ticks n q) \<and>
         sched 0 (hardclock_ticks n q) = map (\<lambda>(c, t). (c, t - n)) (sched 0 q) \<and>
         (snd (hardclock_callouts q) \<longleftrightarrow>
            (\<exists>c. (c, 0) \<in> set (sched 0 (fst (hardclock_callouts q)))))"
  using hardclock_ticks_ok [OF assms] needsoft_hardclock_callouts [OF assms] by blast

lemma hardclock_counts_down_witness:
  "sched 0 (hardclock_ticks 4 [\<lparr>c_time = -2, c_arg = 2, c_func = 1\<rparr>,
      \<lparr>c_time = 4, c_arg = 5, c_func = 6\<rparr>, \<lparr>c_time = 3, c_arg = 5, c_func = 7\<rparr>])
     = [((1, 2), 0), ((6, 5), 0), ((7, 5), 3)]"
  using hardclock_counts_down [of "[\<lparr>c_time = -2, c_arg = 2, c_func = 1\<rparr>,
      \<lparr>c_time = 4, c_arg = 5, c_func = 6\<rparr>, \<lparr>c_time = 3, c_arg = 5, c_func = 7\<rparr>]" 4]
  by (simp add: due_def Let_def)

text \<open>
  C8. The callout loop of \<open>softclock\<close> ends, whatever the functions it calls do to the queue, and
  when no call panics nothing is left that is due. If the functions cancel no call (a function that cancels
  may remove one that is due), the calls made are those that were due, in order, and every
  other call is still pending with the ticks it had.
\<close>

theorem softclock_runs_due:
  assumes "ctab_ok s"
  shows "\<exists>r. softclock_callouts acts s = Some r \<and>
           (\<forall>tr s'. r = Inr (tr, s') \<longrightarrow>
              ctab_ok s' \<and> zeros (schedule s') = [] \<and>
              (only_timeouts acts \<longrightarrow>
                 tr = zeros (schedule s) \<and>
                 {e \<in> set (schedule s). 0 < snd e} \<subseteq> set (schedule s')))"
  using assms by (rule softclock_callouts_correct)

lemma softclock_runs_due_witness:
  "softclock_callouts (\<lambda>f a. [Timeout f a 9])
     \<lparr>calltodo = [\<lparr>c_time = -1, c_arg = 2, c_func = 1\<rparr>, \<lparr>c_time = 4, c_arg = 5, c_func = 6\<rparr>],
      callfree = replicate 16 \<lparr>c_time = 0, c_arg = 0, c_func = 0\<rparr>\<rparr> \<noteq> None"
  using softclock_runs_due [of "\<lparr>calltodo = [\<lparr>c_time = -1, c_arg = 2, c_func = 1\<rparr>,
      \<lparr>c_time = 4, c_arg = 5, c_func = 6\<rparr>],
      callfree = replicate 16 \<lparr>c_time = 0, c_arg = 0, c_func = 0\<rparr>\<rparr>" "\<lambda>f a. [Timeout f a 9]"]
  by (auto simp: ctab_ok_def due_def)

text \<open>
  C9. A call scheduled by \<open>timeout\<close> and not cancelled comes nearer by one tick with every
  clock tick and is due exactly when \<open>max 1 t\<close> ticks have passed, whatever other calls are
  scheduled and cancelled in between.
\<close>

theorem timeout_fires_on_time:
  assumes "ctab_ok s" "timeout f a t s = Inr s1"
    and "Cancel (f, a) \<notin> set ops" "callout_run ops s1 = Inr s'"
  shows "ctab_ok s' \<and> ((f, a), nat (max 1 t) - count_list ops Tick) \<in> set (schedule s')"
  using callq.add_then_run [of s "(f, a)" t s1 ops s'] assms by (simp add: callout_run_eq)

lemma timeout_fires_on_time_witness:
  "\<exists>s' s1. timeout 1 2 3 (coutinit (replicate 18 \<lparr>c_time = 0, c_arg = 0, c_func = 0\<rparr>)) = Inr s1 \<and>
      callout_run [Tick, Add (7, 7) 1, Tick, Cancel (7, 7), Tick] s1 = Inr s' \<and>
      ((1, 2), 0) \<in> set (schedule s')"
proof -
  let ?c = "\<lparr>c_time = 0, c_arg = 0, c_func = 0\<rparr> :: callout"
  let ?s1 = "\<lparr>calltodo = [\<lparr>c_time = 3, c_arg = 2, c_func = 1\<rparr>], callfree = replicate 17 ?c\<rparr>"
  let ?s' = "\<lparr>calltodo = [\<lparr>c_time = 0, c_arg = 2, c_func = 1\<rparr>],
               callfree = \<lparr>c_time = 0, c_arg = 7, c_func = 7\<rparr> # replicate 16 ?c\<rparr>"
  have 1: "timeout 1 2 3 (coutinit (replicate 18 ?c)) = Inr ?s1"
    by (simp add: timeout_def coutinit_def upt_rec numeral_eq_Suc)
  have 2: "callout_run [Tick, Add (7, 7) 1, Tick, Cancel (7, 7), Tick] ?s1 = Inr ?s'"
    by (simp add: timeout_def untimeout_def hardclock_tick_def Let_def numeral_eq_Suc)
  show ?thesis
    using timeout_fires_on_time [OF coutinit_ok 1 _ 2] 1 2 by auto
qed

end
