(* ===== verification/Clist.thy ===== *)
theory Clist
  imports Kernel_Prelude
begin

text \<open>
  Character lists (sys/kernel/tty_subr.c, sys/include/clist.h, the structure \<^verbatim>\<open>clist\<close> of
  sys/include/tty.h, \<^verbatim>\<open>cinit\<close> of sys/kernel/init_main.c): byte queues made of chained
  32-byte blocks from one common pool. Addresses are natural numbers and NULL is 0, so that
  the masks with \<^verbatim>\<open>CROUND\<close> by which the code finds the block of a character are modelled as
  they are. The links of the blocks (\<^verbatim>\<open>c_next\<close>, the first four bytes) and their characters
  are two separate memories.
\<close>

section \<open>Model\<close>

definition CBLOCK :: nat where
  "CBLOCK = 32"

definition CBSIZE :: nat where
  "CBSIZE = CBLOCK - 4"

record cpool =
  c_next :: "nat \<Rightarrow> nat"
  c_char :: "nat \<Rightarrow> u8"
  cfreelist :: nat
  cfreecount :: int
  cwaiting :: bool
  cwakeups :: nat

record clist =
  c_cc :: int
  c_cf :: nat
  c_cl :: nat

text \<open>\<^verbatim>\<open>x & CROUND\<close>, \<^verbatim>\<open>x & ~CROUND\<close>, and the address of \<^verbatim>\<open>c_info\<close> in a block.\<close>

definition cround :: "nat \<Rightarrow> nat" where
  "cround a = a mod CBLOCK"

definition cbase :: "nat \<Rightarrow> nat" where
  "cbase a = a - a mod CBLOCK"

definition c_info :: "nat \<Rightarrow> nat" where
  "c_info bp = bp + 4"

text \<open>
  The lines that return a block to the pool: \<open>cblock_link\<close> is
  \<^verbatim>\<open>bp->c_next = cfreelist; cfreelist = bp; cfreecount += CBSIZE;\<close> and \<open>cblock_free\<close> has
  also \<^verbatim>\<open>if (cwaiting) { wakeup(&cwaiting); cwaiting = 0; }\<close>.
\<close>

definition cblock_link :: "nat \<Rightarrow> cpool \<Rightarrow> cpool" where
  "cblock_link bp st =
     st\<lparr>c_next := (c_next st)(bp := cfreelist st), cfreelist := bp,
        cfreecount := cfreecount st + int CBSIZE\<rparr>"

definition cblock_free :: "nat \<Rightarrow> cpool \<Rightarrow> cpool" where
  "cblock_free bp st =
     (let st1 = cblock_link bp st in
      if cwaiting st1 then st1\<lparr>cwakeups := Suc (cwakeups st1), cwaiting := False\<rparr> else st1)"

text \<open>\<^verbatim>\<open>cfreelist = bp->c_next; cfreecount -= CBSIZE; bp->c_next = NULL;\<close>\<close>

definition cblock_take :: "nat \<Rightarrow> cpool \<Rightarrow> cpool" where
  "cblock_take bp st =
     st\<lparr>cfreelist := c_next st bp, cfreecount := cfreecount st - int CBSIZE,
        c_next := (c_next st)(bp := 0)\<rparr>"

definition getc :: "clist \<Rightarrow> cpool \<Rightarrow> int \<times> clist \<times> cpool" where
  "getc p st =
     (if c_cc p \<le> 0 then (-1, p\<lparr>c_cc := 0, c_cf := 0, c_cl := 0\<rparr>, st)
      else
        let c = uint (c_char st (c_cf p));
            p1 = p\<lparr>c_cf := c_cf p + 1, c_cc := c_cc p - 1\<rparr> in
        if c_cc p1 \<le> 0 then
          (c, p1\<lparr>c_cf := 0, c_cl := 0\<rparr>, cblock_free (cbase (c_cf p1 - 1)) st)
        else if cround (c_cf p1) = 0 then
          (let bp = c_cf p1 - CBLOCK in
           (c, p1\<lparr>c_cf := c_info (c_next st bp)\<rparr>, cblock_free bp st))
        else (c, p1, st))"

text \<open>\<^verbatim>\<open>bcopy\<close> between the pool and a buffer outside it.\<close>

definition copy_out :: "cpool \<Rightarrow> nat \<Rightarrow> nat \<Rightarrow> u8 list" where
  "copy_out st a n = map (c_char st) [a..<a + n]"

fun copy_in :: "cpool \<Rightarrow> nat \<Rightarrow> u8 list \<Rightarrow> cpool" where
  "copy_in st a [] = st"
| "copy_in st a (x # xs) = copy_in (st\<lparr>c_char := (c_char st)(a := x)\<rparr>) (Suc a) xs"

text \<open>The loop of \<^verbatim>\<open>q_to_b\<close>; the first component is what was copied.\<close>

function q_to_b_loop :: "nat \<Rightarrow> clist \<Rightarrow> cpool \<Rightarrow> u8 list \<times> clist \<times> cpool" where
  "q_to_b_loop cc q st =
     (if cc = 0 then ([], q, st)
      else
        let nc = min (min (CBLOCK - cround (c_cf q)) cc) (nat (c_cc q));
            out = copy_out st (c_cf q) nc;
            q1 = q\<lparr>c_cf := c_cf q + nc, c_cc := c_cc q - int nc\<rparr> in
        if c_cc q1 \<le> 0 then
          (out, q1\<lparr>c_cf := 0, c_cl := 0\<rparr>, cblock_free (cbase (c_cf q1 - 1)) st)
        else
          let bp = c_cf q1 - CBLOCK;
              atend = (cround (c_cf q1) = 0);
              q2 = (if atend then q1\<lparr>c_cf := c_info (c_next st bp)\<rparr> else q1);
              st2 = (if atend then cblock_free bp st else st);
              r = q_to_b_loop (cc - nc) q2 st2 in
          (out @ fst r, snd r))"
  by pat_completeness auto
termination
proof (relation "measure (\<lambda>(cc, q, st). cc)", goal_cases)
  case (2 cc q st nc out q1 bp atend q2 st2)
  have "0 < c_cc q" using 2(4,5) by simp
  moreover have "0 < CBLOCK - cround (c_cf q)" by (simp add: CBLOCK_def cround_def)
  ultimately have "0 < nc" using 2(1,2) by simp
  then show ?case using 2(1) by simp
qed simp

definition q_to_b :: "clist \<Rightarrow> int \<Rightarrow> cpool \<Rightarrow> u8 list \<times> clist \<times> cpool" where
  "q_to_b q cc st =
     (if cc \<le> 0 then ([], q, st)
      else if c_cc q \<le> 0 then ([], q\<lparr>c_cc := 0, c_cf := 0, c_cl := 0\<rparr>, st)
      else q_to_b_loop (nat cc) q st)"

text \<open>The scan of \<^verbatim>\<open>ndqb\<close> for a character with a bit of \<^verbatim>\<open>flag\<close>; \<^verbatim>\<open>char\<close> is signed.\<close>

fun ndqb_scan :: "int \<Rightarrow> u8 list \<Rightarrow> nat" where
  "ndqb_scan flag [] = 0"
| "ndqb_scan flag (x # xs) = (if sint x AND flag \<noteq> 0 then 0 else Suc (ndqb_scan flag xs))"

definition ndqb :: "clist \<Rightarrow> int \<Rightarrow> cpool \<Rightarrow> int" where
  "ndqb q flag st =
     (if c_cc q \<le> 0 then - c_cc q
      else
        let cc0 = int (cbase (c_cf q + CBSIZE)) - int (c_cf q);
            cc = (if c_cc q < cc0 then c_cc q else cc0) in
        if flag \<noteq> 0 then int (ndqb_scan flag (copy_out st (c_cf q) (nat cc))) else cc)"

partial_function (option) ndflush_loop :: "clist \<Rightarrow> int \<Rightarrow> cpool \<Rightarrow> (clist \<times> cpool) option" where
  "ndflush_loop q cc st =
     (if cc > 0 \<and> c_cc q \<noteq> 0 then
        let bp = cbase (c_cf q);
            ende = (if bp = cbase (c_cl q - 1) then c_cl q else bp + CBLOCK);
            rem = int ende - int (c_cf q) in
        if cc \<ge> rem then
          ndflush_loop (q\<lparr>c_cc := c_cc q - rem, c_cf := c_info (c_next st bp)\<rparr>) (cc - rem)
            (cblock_free bp st)
        else
          let q1 = q\<lparr>c_cc := c_cc q - cc, c_cf := nat (int (c_cf q) + cc)\<rparr> in
          Some (q1, if c_cc q1 \<le> 0 then cblock_free bp st else st)
      else Some (q, st))"

definition ndflush :: "clist \<Rightarrow> int \<Rightarrow> cpool \<Rightarrow> (clist \<times> cpool) option" where
  "ndflush q cc st =
     (if c_cc q \<le> 0 then Some (q, st)
      else map_option
        (\<lambda>(q1, st1). (if c_cc q1 \<le> 0 then q1\<lparr>c_cf := 0, c_cl := 0, c_cc := 0\<rparr> else q1, st1))
        (ndflush_loop q cc st))"

text \<open>The common end of \<^verbatim>\<open>putc\<close>: \<^verbatim>\<open>*cp++ = c; p->c_cc++; p->c_cl = cp;\<close>.\<close>

definition putc_store :: "u8 \<Rightarrow> nat \<Rightarrow> clist \<Rightarrow> cpool \<Rightarrow> int \<times> clist \<times> cpool" where
  "putc_store c cp p st =
     (0, p\<lparr>c_cc := c_cc p + 1, c_cl := Suc cp\<rparr>, st\<lparr>c_char := (c_char st)(cp := c)\<rparr>)"

definition putc :: "u8 \<Rightarrow> clist \<Rightarrow> cpool \<Rightarrow> int \<times> clist \<times> cpool" where
  "putc c p st =
     (let cp = c_cl p; bp = cfreelist st in
      if cp = 0 \<or> c_cc p < 0 then
        (if bp = 0 then (-1, p, st)
         else putc_store c (c_info bp) (p\<lparr>c_cf := c_info bp\<rparr>) (cblock_take bp st))
      else if cround cp = 0 then
        (let st1 = st\<lparr>c_next := (c_next st)(cp - CBLOCK := bp)\<rparr> in
         if bp = 0 then (-1, p, st1)
         else putc_store c (c_info bp) p (cblock_take bp st1))
      else putc_store c cp p st)"

text \<open>
  The loop of \<^verbatim>\<open>b_to_q\<close> on the bytes \<open>xs\<close> still to be copied; the result has the bytes
  not transferred and \<^verbatim>\<open>cq\<close>.
\<close>

function b_to_q_loop :: "u8 list \<Rightarrow> nat \<Rightarrow> cpool \<Rightarrow> u8 list \<times> nat \<times> cpool" where
  "b_to_q_loop xs cq st =
     (if xs = [] then ([], cq, st)
      else
        let bp = cfreelist st;
            st1 = st\<lparr>c_next := (c_next st)(cq - CBLOCK := bp)\<rparr> in
        if cround cq = 0 \<and> bp = 0 then (xs, cq, st1)
        else
          let cq2 = (if cround cq = 0 then c_info bp else cq);
              st2 = (if cround cq = 0 then cblock_take bp st1 else st);
              nc = min (length xs) (CBLOCK - cround cq2) in
          b_to_q_loop (drop nc xs) (cq2 + nc) (copy_in st2 cq2 (take nc xs)))"
  by pat_completeness auto
termination
proof (relation "measure (\<lambda>(xs, cq, st). length xs)", goal_cases)
  case (2 xs cq st bp st1 cq2 st2 nc)
  have "0 < CBLOCK - cround cq2" by (simp add: CBLOCK_def cround_def)
  then have "0 < nc" using 2(1,7) by simp
  then show ?case using 2(1) by simp
qed simp

text \<open>\<^verbatim>\<open>b_to_q\<close> with \<^verbatim>\<open>cc\<close> the length of the buffer; the result is the count not transferred.\<close>

definition b_to_q :: "u8 list \<Rightarrow> clist \<Rightarrow> cpool \<Rightarrow> nat \<times> clist \<times> cpool" where
  "b_to_q xs q st =
     (if xs = [] then (0, q, st)
      else
        let acc = length xs; bp = cfreelist st in
        if (c_cl q = 0 \<or> c_cc q < 0) \<and> bp = 0 then (acc, q, st)
        else
          let start = (c_cl q = 0 \<or> c_cc q < 0);
              q1 = (if start then q\<lparr>c_cf := c_info bp\<rparr> else q);
              st1 = (if start then cblock_take bp st else st);
              cq = (if start then c_info bp else c_cl q);
              (ys, cq', st2) = b_to_q_loop xs cq st1 in
          (length ys, q1\<lparr>c_cl := cq', c_cc := c_cc q1 + (int acc - int (length ys))\<rparr>, st2))"

definition nextc :: "clist \<Rightarrow> nat \<Rightarrow> cpool \<Rightarrow> nat" where
  "nextc p cp st =
     (if c_cc p \<noteq> 0 \<and> Suc cp \<noteq> c_cl p then
        (if cround (Suc cp) = 0 then c_info (c_next st (Suc cp - CBLOCK)) else Suc cp)
      else 0)"

text \<open>\<^verbatim>\<open>while (bp->c_next != (struct cblock *)p->c_cl) bp = bp->c_next;\<close>\<close>

partial_function (option) unputc_walk :: "nat \<Rightarrow> nat \<Rightarrow> cpool \<Rightarrow> nat option" where
  "unputc_walk bp cl st =
     (if c_next st bp \<noteq> cl then unputc_walk (c_next st bp) cl st else Some bp)"

definition unputc :: "clist \<Rightarrow> cpool \<Rightarrow> (int \<times> clist \<times> cpool) option" where
  "unputc p st =
     (if c_cc p \<le> 0 then Some (-1, p, st)
      else
        let p1 = p\<lparr>c_cl := c_cl p - 1, c_cc := c_cc p - 1\<rparr>;
            c = sint (c_char st (c_cl p1)) in
        if c_cc p1 \<le> 0 then
          Some (c, p1\<lparr>c_cf := 0, c_cl := 0\<rparr>, cblock_link (cbase (c_cl p1)) st)
        else if cround (c_cl p1) = 4 then
          map_option
            (\<lambda>obp.
               let bp = c_next st obp; st1 = cblock_link bp st in
               (c, p1\<lparr>c_cl := obp + CBLOCK\<rparr>, st1\<lparr>c_next := (c_next st1)(obp := 0)\<rparr>))
            (unputc_walk (cbase (c_cf p1)) (cbase (c_cl p1)) st)
        else Some (c, p1, st))"

text \<open>The loop of \<^verbatim>\<open>catq\<close>, with a buffer of \<^verbatim>\<open>CBSIZE*4\<close> bytes; the two queues are distinct.\<close>

declare q_to_b_loop.simps [simp del] b_to_q_loop.simps [simp del]

lemma q_to_b_loop_cc_le: "c_cc (fst (snd (q_to_b_loop cc q st))) \<le> c_cc q"
proof (induction cc q st rule: q_to_b_loop.induct)
  case (1 cc q st)
  define nc where "nc = min (min (CBLOCK - cround (c_cf q)) cc) (nat (c_cc q))"
  show ?case
  proof (cases "cc = 0 \<or> c_cc q - int nc \<le> 0")
    case True
    then show ?thesis by (subst q_to_b_loop.simps) (auto simp: Let_def nc_def [symmetric])
  next
    case False
    show ?thesis
      using False 1 [OF _ nc_def refl refl _ refl refl refl refl]
      by (subst q_to_b_loop.simps) (simp add: Let_def nc_def [symmetric], fastforce)
  qed
qed

lemma q_to_b_loop_cc:
  assumes "0 < cc" "0 < c_cc q"
  shows "c_cc (fst (snd (q_to_b_loop cc q st))) < c_cc q"
proof -
  define nc where "nc = min (min (CBLOCK - cround (c_cf q)) cc) (nat (c_cc q))"
  have nc: "0 < nc" using assms by (simp add: nc_def cround_def CBLOCK_def)
  have "c_cc (fst (snd (q_to_b_loop cc q st))) \<le> c_cc q - int nc"
    using assms by (subst q_to_b_loop.simps)
      (auto simp: Let_def nc_def [symmetric] intro: order_trans [OF q_to_b_loop_cc_le])
  with nc show ?thesis by linarith
qed

lemma q_to_b_cc: "0 < cc \<Longrightarrow> 0 < c_cc q \<Longrightarrow> c_cc (fst (snd (q_to_b q cc st))) < c_cc q"
  by (simp add: q_to_b_def q_to_b_loop_cc)

function catq_loop :: "clist \<Rightarrow> clist \<Rightarrow> cpool \<Rightarrow> clist \<times> clist \<times> cpool" where
  "catq_loop from to st =
     (if c_cc from > 0 then
        let r = q_to_b from (int (CBSIZE * 4)) st;
            t = b_to_q (fst r) to (snd (snd r)) in
        catq_loop (fst (snd r)) (fst (snd t)) (snd (snd t))
      else (from, to, st))"
  by pat_completeness auto
termination
proof (relation "measure (\<lambda>(from, to, st). nat (c_cc from))", goal_cases)
  case (2 fr to st r t)
  then show ?case using q_to_b_cc [of "int (CBSIZE * 4)" fr st] by (simp add: CBSIZE_def CBLOCK_def)
qed simp

declare catq_loop.simps [simp del]

definition catq :: "clist \<Rightarrow> clist \<Rightarrow> cpool \<Rightarrow> clist \<times> clist \<times> cpool" where
  "catq from to st =
     (if c_cc to = 0 then (from\<lparr>c_cc := 0, c_cf := 0, c_cl := 0\<rparr>, from, st)
      else catq_loop from to st)"

text \<open>\<^verbatim>\<open>cinit\<close> on the array \<^verbatim>\<open>cfree\<close> at address \<open>a\<close>.\<close>

definition NCLIST :: nat where
  "NCLIST = 32"

function cinit_loop :: "nat \<Rightarrow> nat \<Rightarrow> cpool \<Rightarrow> cpool" where
  "cinit_loop cp lim st =
     (if cp \<le> lim then cinit_loop (cp + CBLOCK) lim (cblock_link cp st) else st)"
  by pat_completeness auto
termination
  by (relation "measure (\<lambda>(cp, lim, st). Suc lim - cp)") (auto simp: CBLOCK_def)

definition cinit :: "nat \<Rightarrow> cpool \<Rightarrow> cpool" where
  "cinit cfree st = cinit_loop (cbase (cfree + (CBLOCK - 1))) (cfree + CBLOCK * (NCLIST - 1)) st"

section \<open>The abstract queue\<close>

text \<open>
  \<open>qblocks nx cf cl bs\<close>: the blocks \<open>bs\<close> are chained by \<open>nx\<close>, the first character is at \<open>cf\<close>
  in the first one and the last one is filled up to \<open>cl\<close>. \<open>addrs cf cl bs\<close> are the addresses
  of the characters, in order.
\<close>

definition is_block :: "nat \<Rightarrow> bool" where
  "is_block b \<longleftrightarrow> 0 < b \<and> b mod 32 = 0"

fun qblocks :: "(nat \<Rightarrow> nat) \<Rightarrow> nat \<Rightarrow> nat \<Rightarrow> nat list \<Rightarrow> bool" where
  "qblocks nx cf cl [] = False"
| "qblocks nx cf cl [b] =
     (is_block b \<and> b + 4 \<le> cf \<and> cf \<le> cl \<and> cl \<le> b + 32 \<and> nx b = 0)"
| "qblocks nx cf cl (b # b' # bs) =
     (is_block b \<and> b + 4 \<le> cf \<and> cf < b + 32 \<and> nx b = b' \<and> qblocks nx (b' + 4) cl (b' # bs))"

fun addrs :: "nat \<Rightarrow> nat \<Rightarrow> nat list \<Rightarrow> nat list" where
  "addrs cf cl [] = []"
| "addrs cf cl [b] = [cf..<cl]"
| "addrs cf cl (b # b' # bs) = [cf..<b + 32] @ addrs (b' + 4) cl (b' # bs)"

fun fchain :: "(nat \<Rightarrow> nat) \<Rightarrow> nat \<Rightarrow> nat list \<Rightarrow> bool" where
  "fchain nx h [] = (h = 0)"
| "fchain nx h (f # fs) = (h = f \<and> is_block f \<and> fchain nx (nx f) fs)"

definition clist_rel :: "cpool \<Rightarrow> clist \<Rightarrow> nat list \<Rightarrow> u8 list \<Rightarrow> bool" where
  "clist_rel st p bs cs \<longleftrightarrow>
     (if bs = [] then cs = [] \<and> p = \<lparr>c_cc = 0, c_cf = 0, c_cl = 0\<rparr>
      else qblocks (c_next st) (c_cf p) (c_cl p) bs \<and> last bs + 4 < c_cl p \<and> cs \<noteq> [] \<and>
        cs = map (c_char st) (addrs (c_cf p) (c_cl p) bs) \<and> c_cc p = int (length cs))"

definition pool_rel :: "cpool \<Rightarrow> nat list \<Rightarrow> bool" where
  "pool_rel st fs \<longleftrightarrow> fchain (c_next st) (cfreelist st) fs \<and> cfreecount st = 28 * int (length fs)"

text \<open>
  A queue with the bytes \<open>cs\<close> in the blocks \<open>bs\<close>, while the blocks \<open>fs\<close> are free; and what an
  operation on it leaves alone.
\<close>

definition owns :: "cpool \<Rightarrow> clist \<Rightarrow> nat list \<Rightarrow> nat list \<Rightarrow> u8 list \<Rightarrow> bool" where
  "owns st p bs fs cs \<longleftrightarrow> clist_rel st p bs cs \<and> pool_rel st fs \<and> distinct (bs @ fs)"

definition same_off :: "nat set \<Rightarrow> cpool \<Rightarrow> cpool \<Rightarrow> bool" where
  "same_off B st st' \<longleftrightarrow>
     (\<forall>b. is_block b \<and> b \<notin> B \<longrightarrow>
        c_next st' b = c_next st b \<and> (\<forall>i<32. c_char st' (b + i) = c_char st (b + i)))"

lemma same_off_refl [simp]: "same_off B st st"
  by (simp add: same_off_def)

lemma same_off_trans: "same_off A st st' \<Longrightarrow> same_off B st' st'' \<Longrightarrow> A \<subseteq> C \<Longrightarrow> B \<subseteq> C \<Longrightarrow> same_off C st st''"
  unfolding same_off_def by (metis subsetD)

lemma same_off_mono: "same_off A st st' \<Longrightarrow> A \<subseteq> B \<Longrightarrow> same_off B st st'"
  by (auto simp: same_off_def)

lemma is_block_addr:
  assumes "is_block b" "b \<le> a" "a < b + 32"
  shows "cbase a = b" "cround a = a - b" "a div 32 = b div 32"
proof -
  from assms obtain k where "b = 32 * k" by (auto simp: is_block_def)
  moreover obtain i where "a = b + i" "i < 32" using assms(2,3) less_eqE by auto
  ultimately show "cbase a = b" "cround a = a - b" "a div 32 = b div 32"
    by (auto simp: cbase_def cround_def CBLOCK_def)
qed

lemma is_block_ge: "is_block b \<Longrightarrow> 32 \<le> b"
  by (auto simp: is_block_def intro: dvd_imp_le)

lemma cround_end [simp]: "is_block b \<Longrightarrow> cround (b + 32) = 0" "is_block b \<Longrightarrow> cround (b + i) = i mod 32"
  by (auto simp: is_block_def cround_def CBLOCK_def mod_add_left_eq [of b, symmetric])

lemma block_disjoint:
  assumes "is_block b" "is_block c" "b \<le> a" "a < b + 32" "c \<le> a" "a < c + 32"
  shows "b = c"
  using is_block_addr(1) [OF assms(1,3,4)] is_block_addr(1) [OF assms(2,5,6)] by simp

lemma qblocks_blocks: "qblocks nx cf cl bs \<Longrightarrow> b \<in> set bs \<Longrightarrow> is_block b"
  by (induction nx cf cl bs rule: qblocks.induct) auto

lemma fchain_blocks: "fchain nx h fs \<Longrightarrow> b \<in> set fs \<Longrightarrow> is_block b"
  by (induction nx h fs rule: fchain.induct) auto

lemma addrs_in_blocks:
  "qblocks nx cf cl bs \<Longrightarrow> a \<in> set (addrs cf cl bs) \<Longrightarrow> \<exists>b\<in>set bs. b + 4 \<le> a \<and> a < b + 32"
proof (induction nx cf cl bs rule: qblocks.induct)
  case (3 nx cf cl b b' bs)
  then show ?case by (auto simp del: addrs.simps simp add: addrs.simps(3))
qed auto

lemma qblocks_cong: "qblocks nx cf cl bs \<Longrightarrow> \<forall>b\<in>set bs. nx' b = nx b \<Longrightarrow> qblocks nx' cf cl bs"
  by (induction nx cf cl bs rule: qblocks.induct) auto

lemma fchain_cong: "fchain nx h fs \<Longrightarrow> \<forall>b\<in>set fs. nx' b = nx b \<Longrightarrow> fchain nx' h fs"
  by (induction nx h fs rule: fchain.induct) auto

lemma length_addrs_le: "qblocks nx cf cl bs \<Longrightarrow> length (addrs cf cl bs) \<le> 28 * length bs"
  by (induction nx cf cl bs rule: qblocks.induct) auto

text \<open>Another queue does not notice.\<close>

lemma clist_rel_frame:
  assumes "clist_rel st q bs cs" "same_off B st st'" "set bs \<inter> B = {}"
  shows "clist_rel st' q bs cs"
proof (cases "bs = []")
  case False
  with assms(1) have q: "qblocks (c_next st) (c_cf q) (c_cl q) bs" by (simp add: clist_rel_def)
  have "c_char st' a = c_char st a" if a: "a \<in> set (addrs (c_cf q) (c_cl q) bs)" for a
  proof -
    from addrs_in_blocks [OF q a] obtain b where b: "b \<in> set bs" "b + 4 \<le> a" "a < b + 32" by blast
    then have "is_block b" "b \<notin> B" using qblocks_blocks [OF q] assms(3) by auto
    with assms(2) have "\<forall>i<32. c_char st' (b + i) = c_char st (b + i)" by (simp add: same_off_def)
    from this [rule_format, of "a - b"] b show ?thesis by simp
  qed
  then have "map (c_char st') (addrs (c_cf q) (c_cl q) bs) = map (c_char st) (addrs (c_cf q) (c_cl q) bs)"
    by simp
  moreover have "qblocks (c_next st') (c_cf q) (c_cl q) bs"
  proof (rule qblocks_cong [OF q], rule ballI)
    fix b assume "b \<in> set bs"
    with assms(2,3) qblocks_blocks [OF q this] show "c_next st' b = c_next st b"
      by (auto simp: same_off_def)
  qed
  ultimately show ?thesis using assms(1) False by (auto simp: clist_rel_def)
qed (use assms(1) in \<open>simp add: clist_rel_def\<close>)

section \<open>Taking from the front\<close>

lemma cblock_free_fields [simp]:
  "c_next (cblock_free b st) = (c_next st)(b := cfreelist st)"
  "c_char (cblock_free b st) = c_char st"
  "cfreelist (cblock_free b st) = b"
  "cfreecount (cblock_free b st) = cfreecount st + 28"
  by (auto simp: cblock_free_def cblock_link_def Let_def CBSIZE_def CBLOCK_def)

lemma cblock_free_pool:
  assumes "pool_rel st fs" "is_block b" "b \<notin> set fs"
  shows "pool_rel (cblock_free b st) (b # fs)"
  using assms by (auto simp: pool_rel_def intro!: fchain_cong [of "c_next st"])

lemma cblock_free_same_off: "b \<in> B \<Longrightarrow> same_off B st (cblock_free b st)"
  by (auto simp: same_off_def)

lemma upt_split: "m \<le> k \<Longrightarrow> k \<le> n \<Longrightarrow> [m..<n] = [m..<k] @ [k..<n]"
  using upt_add_eq_append [of m k "n - k"] by simp

lemma ownsD:
  assumes "owns st q (b # bs) fs cs"
  shows "qblocks (c_next st) (c_cf q) (c_cl q) (b # bs)" "last (b # bs) + 4 < c_cl q" "cs \<noteq> []"
    "cs = map (c_char st) (addrs (c_cf q) (c_cl q) (b # bs))" "c_cc q = int (length cs)"
    "pool_rel st fs" "distinct ((b # bs) @ fs)" "is_block b" "b + 4 \<le> c_cf q" "c_cf q < b + 32"
proof -
  show q: "qblocks (c_next st) (c_cf q) (c_cl q) (b # bs)" and "last (b # bs) + 4 < c_cl q"
    and ne: "cs \<noteq> []" and cs: "cs = map (c_char st) (addrs (c_cf q) (c_cl q) (b # bs))"
    and "c_cc q = int (length cs)" "pool_rel st fs" "distinct ((b # bs) @ fs)"
    using assms by (auto simp: owns_def clist_rel_def)
  show "is_block b" "b + 4 \<le> c_cf q" using q by (cases bs; simp)+
  show "c_cf q < b + 32" using q ne cs by (cases bs) auto
qed

lemma consume_in_block:
  assumes o: "owns st q (b # bs) fs cs" and n: "n < length cs" "c_cf q + n < b + 32"
  shows "owns st (q\<lparr>c_cf := c_cf q + n, c_cc := c_cc q - int n\<rparr>) (b # bs) fs (drop n cs)"
    and "copy_out st (c_cf q) n = take n cs"
proof -
  note d = ownsD [OF o]
  have sp: "addrs (c_cf q) (c_cl q) (b # bs) = [c_cf q..<c_cf q + n] @ addrs (c_cf q + n) (c_cl q) (b # bs)"
  proof (cases bs)
    case Nil
    then have "c_cf q + n \<le> c_cl q" using d(1,4) n(1) by simp
    then show ?thesis using Nil upt_split [of "c_cf q" "c_cf q + n" "c_cl q"] by simp
  next
    case (Cons b' bs')
    then show ?thesis using n(2) upt_split [of "c_cf q" "c_cf q + n" "b + 32"] by simp
  qed
  have cs: "cs = copy_out st (c_cf q) n @ map (c_char st) (addrs (c_cf q + n) (c_cl q) (b # bs))"
    unfolding copy_out_def d(4) by (subst sp) simp
  have len: "length (copy_out st (c_cf q) n) = n" by (simp add: copy_out_def)
  show "copy_out st (c_cf q) n = take n cs" by (subst cs) (simp add: len)
  have dr: "drop n cs = map (c_char st) (addrs (c_cf q + n) (c_cl q) (b # bs))"
    by (subst cs) (simp add: len)
  have "qblocks (c_next st) (c_cf q + n) (c_cl q) (b # bs)"
    using d(1,4) n by (cases bs) auto
  moreover have "drop n cs \<noteq> []" using n(1) by simp
  ultimately show "owns st (q\<lparr>c_cf := c_cf q + n, c_cc := c_cc q - int n\<rparr>) (b # bs) fs (drop n cs)"
    using d(2,5,6,7) n(1) unfolding owns_def clist_rel_def
    by (simp add: dr [symmetric] of_nat_diff)
qed

lemma consume_block:
  assumes o: "owns st q (b # b' # bs) fs cs" and n: "n = b + 32 - c_cf q"
  shows "n < length cs" "c_next st b = b'" "copy_out st (c_cf q) n = take n cs"
    and "owns (cblock_free b st) (q\<lparr>c_cf := b' + 4, c_cc := c_cc q - int n\<rparr>) (b' # bs) (b # fs) (drop n cs)"
proof -
  note d = ownsD [OF o]
  have len: "length (copy_out st (c_cf q) n) = n" by (simp add: copy_out_def)
  have bn: "b + 32 = c_cf q + n" using n d(10) by simp
  have cs: "cs = copy_out st (c_cf q) n @ map (c_char st) (addrs (b' + 4) (c_cl q) (b' # bs))"
    using d(4) bn by (simp add: copy_out_def)
  show nx: "c_next st b = b'" using d(1) by simp
  show "copy_out st (c_cf q) n = take n cs" by (subst cs) (simp add: len)
  have dr: "drop n cs = map (c_char st) (addrs (b' + 4) (c_cl q) (b' # bs))"
    by (subst cs) (simp add: len)
  have ne: "addrs (b' + 4) (c_cl q) (b' # bs) \<noteq> []"
    using d(1,2) by (cases bs) auto
  then have "drop n cs \<noteq> []" using dr by simp
  then show lt: "n < length cs" by (simp add: not_less)
  have b: "b \<notin> set (b' # bs)" "b \<notin> set fs" using d(7) by auto
  have "qblocks (c_next st) (b' + 4) (c_cl q) (b' # bs)" using d(1) by simp
  then have "qblocks (c_next (cblock_free b st)) (b' + 4) (c_cl q) (b' # bs)"
    using b by (auto intro: qblocks_cong)
  then show "owns (cblock_free b st) (q\<lparr>c_cf := b' + 4, c_cc := c_cc q - int n\<rparr>) (b' # bs) (b # fs) (drop n cs)"
    unfolding owns_def clist_rel_def
    using cblock_free_pool [OF d(6,8) b(2)] d(2,5,7) lt dr [symmetric] ne
    by (simp add: of_nat_diff)
qed

lemma consume_last:
  assumes o: "owns st q [b] fs cs"
  shows "copy_out st (c_cf q) (length cs) = cs" "cbase (c_cf q + length cs - 1) = b"
    "c_cf q + length cs = c_cl q" "c_cl q \<le> b + 32"
    and "owns (cblock_free b st) \<lparr>c_cc = 0, c_cf = 0, c_cl = 0\<rparr> [] (b # fs) []"
proof -
  note d = ownsD [OF o]
  show l: "c_cf q + length cs = c_cl q" and cl: "c_cl q \<le> b + 32" using d(1,4) by simp_all
  show "copy_out st (c_cf q) (length cs) = cs"
    unfolding copy_out_def using d(4) l by simp
  show "cbase (c_cf q + length cs - 1) = b"
    using is_block_addr(1) [OF d(8)] l cl d(3,9) by (cases cs) auto
  show "owns (cblock_free b st) \<lparr>c_cc = 0, c_cf = 0, c_cl = 0\<rparr> [] (b # fs) []"
    using cblock_free_pool [OF d(6,8)] d(7) by (simp add: owns_def clist_rel_def)
qed

lemma q_to_b_loop_0 [simp]: "q_to_b_loop 0 q st = ([], q, st)"
  by (simp add: q_to_b_loop.simps)

lemma q_to_b_loop_block:
  assumes "cc \<noteq> 0" "nc = min (min (CBLOCK - cround (c_cf q)) cc) (nat (c_cc q))"
    and "0 < c_cc q - int nc" "cround (c_cf q + nc) = 0"
  shows "q_to_b_loop cc q st =
    (let bp = c_cf q + nc - CBLOCK;
         r = q_to_b_loop (cc - nc) (q\<lparr>c_cf := c_info (c_next st bp), c_cc := c_cc q - int nc\<rparr>)
               (cblock_free bp st) in
     (copy_out st (c_cf q) nc @ fst r, snd r))"
proof -
  define q1 where "q1 = q\<lparr>c_cf := c_cf q + nc, c_cc := c_cc q - int nc\<rparr>"
  have f: "c_cf q1 = c_cf q + nc" "(c_cc q1 \<le> 0) = False"
    "q1\<lparr>c_cf := x\<rparr> = q\<lparr>c_cf := x, c_cc := c_cc q - int nc\<rparr>" for x
    using assms(3) by (simp_all add: q1_def)
  have "cround (c_cf q1) = 0" using f assms(4) by simp
  then show ?thesis
    by (subst q_to_b_loop.simps)
      (simp only: Let_def assms(2) [symmetric] q1_def [symmetric] f assms(1) if_False if_True simp_thms)
qed

lemma q_to_b_loop_correct:
  assumes "owns st q bs fs cs" "cs \<noteq> []"
  shows "\<exists>k st' q'. q_to_b_loop cc q st = (take cc cs, q', st') \<and>
           owns st' q' (drop k bs) (rev (take k bs) @ fs) (drop cc cs) \<and> k \<le> length bs \<and>
           c_char st' = c_char st \<and> same_off (set bs) st st' \<and>
           (if length cs \<le> cc then k = length bs else cc < 28 * (k + 1))"
  using assms
proof (induction bs arbitrary: st q fs cs cc)
  case Nil
  then show ?case by (simp add: owns_def clist_rel_def)
next
  case (Cons b bs)
  note d = ownsD [OF Cons.prems(1)]
  have room: "CBLOCK - cround (c_cf q) = b + 32 - c_cf q"
    using is_block_addr(2) [OF d(8)] d(9,10) by (simp add: CBLOCK_def)
  show ?case
  proof (cases "cc < length cs \<and> c_cf q + cc < b + 32")
    case True
    note c = consume_in_block [OF Cons.prems(1), of cc]
    have nz: "cround (c_cf q + cc) \<noteq> 0"
      using is_block_addr(2) [OF d(8), of "c_cf q + cc"] True d(9) by simp
    have "q_to_b_loop cc q st = (take cc cs, q\<lparr>c_cf := c_cf q + cc, c_cc := c_cc q - int cc\<rparr>, st)"
    proof (cases "cc = 0")
      case False
      have min: "min (min (b + 32 - c_cf q) cc) (length cs) = cc" using True by auto
      show ?thesis
        using False True c(2) d(5) nz by (subst q_to_b_loop.simps) (simp add: Let_def room min)
    qed simp
    moreover have "cc < 28" using True d(9) by simp
    ultimately show ?thesis
      using True c(1) by (intro exI [of _ 0]) auto
  next
    case False
    then have cc: "cc \<noteq> 0" using d(3,10) by (cases cs) auto
    show ?thesis
    proof (cases bs)
      case Nil
      note c = consume_last [OF Cons.prems(1) [unfolded Nil]]
      have le: "length cs \<le> cc" using False c(3,4) by linarith
      have "q_to_b_loop cc q st = (cs, \<lparr>c_cc = 0, c_cf = 0, c_cl = 0\<rparr>, cblock_free b st)"
      proof -
        have min: "min (min (b + 32 - c_cf q) cc) (length cs) = length cs" using c(3,4) le by auto
        show ?thesis
          using cc d(5) by (subst q_to_b_loop.simps) (simp add: Let_def room min c(1) c(2) [simplified])
      qed
      then show ?thesis
        using Nil le c(5)
        by (intro exI [of _ 1] exI [of _ "cblock_free b st"] exI [of _ "\<lparr>c_cc = 0, c_cf = 0, c_cl = 0\<rparr>"])
          (simp add: cblock_free_same_off)
    next
      case (Cons b' bs')
      define n where "n = b + 32 - c_cf q"
      note c = consume_block [OF Cons.prems(1) [unfolded Cons] n_def]
      have n: "n \<le> cc" "0 < n" "c_cf q + n = b + 32" using False c(1) d(10) by (auto simp: n_def)
      let ?q = "q\<lparr>c_cf := b' + 4, c_cc := c_cc q - int n\<rparr>"
      have min: "min (min n cc) (length cs) = n" using n c(1) by simp
      have bp: "b + 32 - CBLOCK = b" by (simp add: CBLOCK_def)
      have step: "q_to_b_loop cc q st =
          (take n cs @ fst (q_to_b_loop (cc - n) ?q (cblock_free b st)),
           snd (q_to_b_loop (cc - n) ?q (cblock_free b st)))"
      proof -
        have e: "cround (c_cf q + n) = 0" "c_cf q + n - CBLOCK = b"
          using n(3) d(8) bp by simp_all
        have m: "n = min (min (CBLOCK - cround (c_cf q)) cc) (nat (c_cc q))"
          using min by (simp add: room n_def d(5))
        have p: "0 < c_cc q - int n" using c(1) d(5) by simp
        show ?thesis
          unfolding q_to_b_loop_block [OF cc m p e(1)] Let_def e(2) c(2,3) c_info_def ..
      qed
      have ne: "drop n cs \<noteq> []" using c(1) by simp
      from Cons.IH [of "cblock_free b st" ?q "b # fs" "drop n cs" "cc - n"] c(4) ne Cons
      obtain k st' q' where k: "q_to_b_loop (cc - n) ?q (cblock_free b st) =
            (take (cc - n) (drop n cs), q', st')"
        "owns st' q' (drop k bs) (rev (take k bs) @ b # fs) (drop (cc - n) (drop n cs))"
        "k \<le> length bs" "c_char st' = c_char (cblock_free b st)"
        "same_off (set bs) (cblock_free b st) st'"
        "if length (drop n cs) \<le> cc - n then k = length bs else cc - n < 28 * (k + 1)"
        by blast
      have n28: "n \<le> 28" using d(9) by (simp add: n_def)
      have "same_off (set (b # bs)) st st'"
        by (rule same_off_trans [OF cblock_free_same_off [of b "{b}"] k(5)]) auto
      moreover have "if length cs \<le> cc then Suc k = length (b # bs) else cc < 28 * (Suc k + 1)"
        using k(6) n n28 c(1) by (auto split: if_splits)
      ultimately show ?thesis
        using k n step by (intro exI [of _ "Suc k"] exI [of _ st'] exI [of _ q'])
          (simp add: take_add [symmetric] le_add_diff_inverse)
    qed
  qed
qed

text \<open>\<^verbatim>\<open>getc\<close> is \<^verbatim>\<open>q_to_b\<close> of one byte, and \<^verbatim>\<open>ndflush\<close> is \<^verbatim>\<open>q_to_b\<close> without the buffer.\<close>

lemma getc_q_to_b:
  assumes "owns st q bs fs cs"
  shows "getc q st = (if cs = [] then -1 else uint (hd cs), snd (q_to_b q 1 st))"
proof (cases bs)
  case Nil
  with assms show ?thesis by (simp add: owns_def clist_rel_def getc_def q_to_b_def)
next
  case (Cons b bs')
  note d = ownsD [OF assms [unfolded Cons]]
  have hd: "hd cs = c_char st (c_cf q)"
    using d(1,3,4) by (cases bs') (auto simp: upt_rec)
  have "1 \<le> CBLOCK - cround (c_cf q)" by (simp add: CBLOCK_def cround_def)
  then have min: "min (min (CBLOCK - cround (c_cf q)) (Suc 0)) (nat (c_cc q)) = 1"
    using d(3,5) by (cases cs) auto
  have "0 < c_cc q" using d(3,5) by simp
  then show ?thesis
    using d(3) hd
    by (simp add: getc_def q_to_b_def q_to_b_loop.simps [of 1] q_to_b_loop.simps [of "Suc 0"] Let_def min)
qed

lemma q_to_b_correct:
  assumes "owns st q bs fs cs"
  shows "\<exists>k st' q'. q_to_b q cc st = (take (nat cc) cs, q', st') \<and>
           owns st' q' (drop k bs) (rev (take k bs) @ fs) (drop (nat cc) cs) \<and> k \<le> length bs \<and>
           c_char st' = c_char st \<and> same_off (set bs) st st' \<and>
           (if length cs \<le> nat cc then k = length bs else nat cc < 28 * (k + 1))"
proof (cases "cs = []")
  case True
  then have "bs = []" "q = \<lparr>c_cc = 0, c_cf = 0, c_cl = 0\<rparr>"
    using assms by (auto simp: owns_def clist_rel_def split: if_splits)
  with True assms show ?thesis by (auto simp: q_to_b_def)
next
  case False
  then have "0 < c_cc q" using assms by (auto simp: owns_def clist_rel_def split: if_splits)
  then have "q_to_b q cc st = q_to_b_loop (nat cc) q st" by (simp add: q_to_b_def)
  with q_to_b_loop_correct [OF assms False, of "nat cc"] show ?thesis by simp
qed

end
