(* ===== verification/Clist_Queue.thy ===== *)
theory Clist_Queue
  imports Clist
begin

text \<open>
  The operations that add to the end of a character list (\<^verbatim>\<open>b_to_q\<close>, \<^verbatim>\<open>putc\<close>), that move
  whole lists (\<^verbatim>\<open>catq\<close>), that work from the end or without taking (\<^verbatim>\<open>unputc\<close>, \<^verbatim>\<open>nextc\<close>,
  \<^verbatim>\<open>ndflush\<close>), the initial pool of \<^verbatim>\<open>cinit\<close>, the byte queue interface, and the properties.
\<close>

section \<open>Adding at the end\<close>

lemma copy_in_fields [simp]:
  "c_next (copy_in st a xs) = c_next st" "cfreelist (copy_in st a xs) = cfreelist st"
  "cfreecount (copy_in st a xs) = cfreecount st" "cwaiting (copy_in st a xs) = cwaiting st"
  by (induction st a xs rule: copy_in.induct) auto

lemma copy_in_char:
  "c_char (copy_in st a xs) i = (if a \<le> i \<and> i < a + length xs then xs ! (i - a) else c_char st i)"
  by (induction st a xs rule: copy_in.induct) (auto simp: nth_Cons')

lemma cblock_take_fields [simp]:
  "c_next (cblock_take b st) = (c_next st)(b := 0)"
  "c_char (cblock_take b st) = c_char st"
  "cfreelist (cblock_take b st) = c_next st b"
  "cfreecount (cblock_take b st) = cfreecount st - 28"
  by (auto simp: cblock_take_def CBSIZE_def CBLOCK_def)

lemma qblocks_bounds:
  "qblocks nx cf cl bs \<Longrightarrow> bs \<noteq> [] \<Longrightarrow> last bs + 4 \<le> cl \<and> cl \<le> last bs + 32 \<and> nx (last bs) = 0"
  by (induction nx cf cl bs rule: qblocks.induct) auto

lemma qblocks_extend:
  "qblocks nx cf cl bs \<Longrightarrow> cl + n \<le> last bs + 32 \<Longrightarrow>
   qblocks nx cf (cl + n) bs \<and> addrs cf (cl + n) bs = addrs cf cl bs @ [cl..<cl + n]"
  by (induction nx cf cl bs rule: qblocks.induct) (auto simp: upt_split)

lemma qblocks_snoc:
  assumes "qblocks nx cf (last bs + 32) bs" "cf < hd bs + 32" "is_block b" "b \<notin> set bs" "n \<le> 28"
    "distinct bs"
  shows "qblocks (nx(last bs := b, b := 0)) cf (b + 4 + n) (bs @ [b]) \<and>
    addrs cf (b + 4 + n) (bs @ [b]) = addrs cf (last bs + 32) bs @ [b + 4..<b + 4 + n]"
  using assms
proof (induction bs arbitrary: cf)
  case (Cons c bs)
  show ?case
  proof (cases bs)
    case Nil
    with Cons.prems show ?thesis by auto
  next
    case (Cons c' bs')
    with Cons.IH [of "c' + 4"] Cons.prems show ?thesis by auto
  qed
qed simp

text \<open>
  One round of the loop of \<^verbatim>\<open>b_to_q\<close>: the queue with its last block filled up to \<open>cq\<close>, which
  may be an empty first block.
\<close>

definition open_queue :: "cpool \<Rightarrow> nat \<Rightarrow> nat \<Rightarrow> nat list \<Rightarrow> nat list \<Rightarrow> u8 list \<Rightarrow> bool" where
  "open_queue st cf cq bs fs cs \<longleftrightarrow>
     bs \<noteq> [] \<and> qblocks (c_next st) cf cq bs \<and> cf < hd bs + 32 \<and>
     cs = map (c_char st) (addrs cf cq bs) \<and> pool_rel st fs \<and> distinct (bs @ fs)"

lemma addrs_below:
  "qblocks nx cf cl bs \<Longrightarrow> distinct bs \<Longrightarrow> i \<in> set (addrs cf cl bs) \<Longrightarrow>
   \<not> (cl \<le> i \<and> i < last bs + 32)"
proof (induction nx cf cl bs rule: qblocks.induct)
  case (3 nx cf cl b b' bs)
  have l: "is_block (last (b' # bs))" "last (b' # bs) + 4 \<le> cl" "b \<noteq> last (b' # bs)"
    using 3(2,3) qblocks_blocks [of nx "b' + 4" cl "b' # bs" "last (b' # bs)"]
      qblocks_bounds [of nx "b' + 4" cl "b' # bs"] by auto
  have "\<not> (cl \<le> i \<and> i < last (b' # bs) + 32)" if "cf \<le> i" "i < b + 32"
    using block_disjoint [of b "last (b' # bs)" i] l that 3(2) by auto
  with 3 show ?case by auto
qed auto

lemma open_queue_fill:
  assumes o: "open_queue st cf cq bs fs cs" and n: "cq + length xs \<le> last bs + 32"
  shows "open_queue (copy_in st cq xs) cf (cq + length xs) bs fs (cs @ xs)"
    and "same_off (set bs) st (copy_in st cq xs)"
proof -
  from o have q: "qblocks (c_next st) cf cq bs" and ne: "bs \<noteq> []" and d: "distinct bs"
    by (auto simp: open_queue_def)
  note e = qblocks_extend [OF q n] and b = qblocks_bounds [OF q ne]
  have lb: "is_block (last bs)" using qblocks_blocks [OF q] ne by simp
  have "c_char (copy_in st cq xs) i = c_char st i" if "i \<in> set (addrs cf cq bs)" for i
    using addrs_below [OF q d that] n by (auto simp: copy_in_char)
  then have "map (c_char (copy_in st cq xs)) (addrs cf cq bs) = map (c_char st) (addrs cf cq bs)"
    by simp
  moreover have "map (c_char (copy_in st cq xs)) [cq..<cq + length xs] = xs"
    by (rule nth_equalityI) (auto simp: copy_in_char)
  ultimately show "open_queue (copy_in st cq xs) cf (cq + length xs) bs fs (cs @ xs)"
    using o e by (simp add: open_queue_def pool_rel_def)
  have "c_char (copy_in st cq xs) (c + i) = c_char st (c + i)"
    if "is_block c" "c \<notin> set bs" "i < 32" for c i
  proof -
    have "\<not> (cq \<le> c + i \<and> c + i < cq + length xs)"
      using block_disjoint [OF that(1) lb, of "c + i"] that(2,3) n b ne by fastforce
    then show ?thesis by (auto simp: copy_in_char)
  qed
  then show "same_off (set bs) st (copy_in st cq xs)" by (simp add: same_off_def)
qed

lemma open_queue_grow:
  assumes o: "open_queue st cf (last bs + 32) bs (f # fs) cs"
  defines "st1 \<equiv> cblock_take f (st\<lparr>c_next := (c_next st)(last bs := f)\<rparr>)"
  shows "cfreelist st = f" "is_block f" "open_queue st1 cf (f + 4) (bs @ [f]) fs cs"
    and "same_off (set bs \<union> {f}) st st1"
proof -
  from o have q: "qblocks (c_next st) cf (last bs + 32) bs" and ne: "bs \<noteq> []"
    and d: "distinct (bs @ f # fs)" and h: "cf < hd bs + 32"
    and p: "fchain (c_next st) (cfreelist st) (f # fs)" "cfreecount st = 28 * int (Suc (length fs))"
    by (auto simp: open_queue_def pool_rel_def)
  show f: "cfreelist st = f" "is_block f" using p(1) by auto
  have nf: "c_next st1 = (c_next st)(last bs := f, f := 0)"
    by (simp add: st1_def)
  have lf: "last bs \<noteq> f" "f \<notin> set bs" "last bs \<notin> set fs" using d ne last_in_set [of bs] by (auto simp: disjoint_iff)
  have "fchain (c_next st1) (cfreelist st1) fs"
    using p(1) d lf by (auto simp: st1_def intro!: fchain_cong [of "c_next st"])
  then have "pool_rel st1 fs" using p(2) by (simp add: pool_rel_def st1_def)
  moreover have "map (c_char st1) xs = map (c_char st) xs" for xs by (simp add: st1_def)
  ultimately show "open_queue st1 cf (f + 4) (bs @ [f]) fs cs"
    using o qblocks_snoc [OF q h f(2) lf(2), of 0] d ne h
    by (simp add: open_queue_def nf)
  show "same_off (set bs \<union> {f}) st st1"
    using ne by (auto simp: same_off_def nf) (simp add: st1_def)
qed

lemma b_to_q_loop_Nil [simp]: "b_to_q_loop [] cq st = ([], cq, st)"
  by (simp add: b_to_q_loop.simps)

lemma b_to_q_loop_full:
  assumes "open_queue st cf (last bs + 32) bs fs cs"
  shows "\<exists>k st' cq'. b_to_q_loop xs (last bs + 32) st = (drop (28 * length fs) xs, cq', st') \<and>
         k \<le> length fs \<and>
         open_queue st' cf cq' (bs @ take k fs) (drop k fs) (cs @ take (28 * length fs) xs) \<and>
         same_off (set bs \<union> set fs) st st' \<and> last (bs @ take k fs) + 4 < cq'"
  using assms
proof (induction fs arbitrary: st bs cs xs)
  case Nil
  then have q: "qblocks (c_next st) cf (last bs + 32) bs" "bs \<noteq> []" "cfreelist st = 0"
    by (auto simp: open_queue_def pool_rel_def)
  then have b: "is_block (last bs)" "c_next st (last bs) = 0"
    using qblocks_blocks [OF q(1)] qblocks_bounds [OF q(1)] by auto
  then have "(c_next st)(last bs := 0) = c_next st" by (simp add: fun_upd_idem)
  then have "b_to_q_loop xs (last bs + 32) st = (xs, last bs + 32, st)"
    using q(3) b(1) by (subst b_to_q_loop.simps) (simp add: CBLOCK_def)
  with Nil show ?case by (intro exI [of _ 0] exI [of _ st] exI [of _ "last bs + 32"]) auto
next
  case (Cons f fs)
  define st1 where "st1 = cblock_take f (st\<lparr>c_next := (c_next st)(last bs := f)\<rparr>)"
  note g = open_queue_grow [OF Cons.prems, folded st1_def]
  have ne: "bs \<noteq> []" and lb: "is_block (last bs)"
    using Cons.prems qblocks_blocks [of _ cf "last bs + 32" bs] by (auto simp: open_queue_def)
  show ?case
  proof (cases "xs = []")
    case True
    then show ?thesis using Cons.prems by (intro exI [of _ 0] exI [of _ st] exI [of _ "last bs + 32"]) auto
  next
    case False
    define nc where "nc = min (length xs) 28"
    have nc: "length (take nc xs) = nc" "nc \<le> 28" "0 < nc" using False by (auto simp: nc_def)
    have "cfreelist st \<noteq> 0" using g(1,2) by (auto simp: is_block_def)
    then have step: "b_to_q_loop xs (last bs + 32) st =
        b_to_q_loop (drop nc xs) (f + 4 + nc) (copy_in st1 (f + 4) (take nc xs))"
      using False g(1,2) lb
      by (subst b_to_q_loop.simps)
        (simp add: Let_def CBLOCK_def c_info_def st1_def [symmetric] nc_def)
    note fill = open_queue_fill [OF g(3), of "take nc xs", unfolded nc(1)]
    have so: "same_off (set bs \<union> {f}) st (copy_in st1 (f + 4) (take nc xs))"
      by (rule same_off_trans [OF g(4) fill(2)]) (use nc in auto)
    show ?thesis
    proof (cases "length xs \<le> 28")
      case True
      then have "nc = length xs" by (simp add: nc_def)
      then show ?thesis
        using step fill(1) nc True same_off_mono [OF so, of "set bs \<union> set (f # fs)"]
        by (intro exI [of _ "Suc 0"] exI [of _ "copy_in st1 (f + 4) xs"] exI [of _ "f + 4 + length xs"])
          auto
    next
      case False
      then have n28: "nc = 28" by (simp add: nc_def)
      let ?st = "copy_in st1 (f + 4) (take 28 xs)"
      have "open_queue ?st cf (last (bs @ [f]) + 32) (bs @ [f]) fs (cs @ take 28 xs)"
        using fill(1) n28 by (simp add: ac_simps)
      from Cons.IH [OF this, of "drop 28 xs"] obtain k st' cq' where k:
        "b_to_q_loop (drop 28 xs) (f + 32) ?st = (drop (28 * length fs) (drop 28 xs), cq', st')"
        "k \<le> length fs"
        "open_queue st' cf cq' ((bs @ [f]) @ take k fs) (drop k fs)
           ((cs @ take 28 xs) @ take (28 * length fs) (drop 28 xs))"
        "same_off (set (bs @ [f]) \<union> set fs) ?st st'" "last ((bs @ [f]) @ take k fs) + 4 < cq'"
        by auto
      have "same_off (set bs \<union> set (f # fs)) st st'"
        by (rule same_off_trans [OF so k(4) [folded n28]]) auto
      moreover have "take 28 xs @ take (28 * length fs) (drop 28 xs) = take (28 * length (f # fs)) xs"
        by (simp add: take_add [symmetric])
      ultimately show ?thesis
        using k step n28 by (intro exI [of _ "Suc k"] exI [of _ st'] exI [of _ cq'])
          (simp add: add.commute)
    qed
  qed
qed

lemma b_to_q_loop_part:
  assumes "xs \<noteq> []" "cround cq \<noteq> 0" "nc = min (length xs) (CBLOCK - cround cq)"
  shows "b_to_q_loop xs cq st = b_to_q_loop (drop nc xs) (cq + nc) (copy_in st cq (take nc xs))"
  using assms(1,2)
  by (subst b_to_q_loop.simps) (simp only: Let_def assms(3) [symmetric] if_False simp_thms)

lemma b_to_q_loop_correct:
  assumes o: "open_queue st cf cq bs fs cs" and ne: "xs \<noteq> []"
  defines "room \<equiv> last bs + 32 - cq + 28 * length fs"
  shows "\<exists>k st' cq'. b_to_q_loop xs cq st = (drop room xs, cq', st') \<and> k \<le> length fs \<and>
         open_queue st' cf cq' (bs @ take k fs) (drop k fs) (cs @ take room xs) \<and>
         same_off (set bs \<union> set fs) st st' \<and> last (bs @ take k fs) + 4 < cq'"
proof -
  from o have q: "qblocks (c_next st) cf cq bs" and bs: "bs \<noteq> []" by (auto simp: open_queue_def)
  note b = qblocks_bounds [OF q bs]
  have lb: "is_block (last bs)" using qblocks_blocks [OF q] bs by simp
  show ?thesis
  proof (cases "cq = last bs + 32")
    case True
    with b_to_q_loop_full [of st cf bs fs cs xs] o show ?thesis by (simp add: room_def)
  next
    case False
    define r where "r = last bs + 32 - cq"
    have cr: "CBLOCK - cround cq = r" "cround cq \<noteq> 0" "0 < r" "cq + r = last bs + 32"
      using False b is_block_addr(2) [OF lb, of cq] by (auto simp: r_def CBLOCK_def)
    define nc where "nc = min (length xs) r"
    have step: "b_to_q_loop xs cq st = b_to_q_loop (drop nc xs) (cq + nc) (copy_in st cq (take nc xs))"
      by (rule b_to_q_loop_part [OF ne cr(2)]) (simp add: nc_def cr)
    have nc: "length (take nc xs) = nc" "nc \<le> r" "0 < nc" using ne cr(3) by (auto simp: nc_def)
    note fill = open_queue_fill [OF o, of "take nc xs", unfolded nc(1)]
    have le: "cq + nc \<le> last bs + 32" using nc(2) cr(4) by simp
    show ?thesis
    proof (cases "length xs \<le> r")
      case True
      then have n: "nc = length xs" by (simp add: nc_def)
      have "last bs + 4 < cq + length xs" using b nc(3) n by linarith
      then show ?thesis
        using n step fill [OF le] True same_off_mono [OF fill(2) [OF le], of "set bs \<union> set fs"]
        by (intro exI [of _ 0] exI [of _ "copy_in st cq xs"] exI [of _ "cq + length xs"])
          (simp add: room_def r_def [symmetric])
    next
      case False
      then have n: "nc = r" by (simp add: nc_def)
      let ?st = "copy_in st cq (take r xs)"
      have "open_queue ?st cf (last bs + 32) bs fs (cs @ take r xs)"
        using fill(1) [OF le] n cr(4) by simp
      from b_to_q_loop_full [OF this, of "drop r xs"] obtain k st' cq' where k:
        "b_to_q_loop (drop r xs) (last bs + 32) ?st = (drop (28 * length fs) (drop r xs), cq', st')"
        "k \<le> length fs"
        "open_queue st' cf cq' (bs @ take k fs) (drop k fs)
           ((cs @ take r xs) @ take (28 * length fs) (drop r xs))"
        "same_off (set bs \<union> set fs) ?st st'" "last (bs @ take k fs) + 4 < cq'"
        by blast
      have "same_off (set bs \<union> set fs) st st'"
        by (rule same_off_trans [OF fill(2) [OF le, unfolded n] k(4)]) auto
      moreover have "take r xs @ take (28 * length fs) (drop r xs) = take room xs"
        by (simp add: take_add [symmetric] room_def r_def)
      moreover have "drop (28 * length fs) (drop r xs) = drop room xs"
        by (simp add: room_def r_def add.commute)
      ultimately show ?thesis
        using k step n cr(4) by (intro exI [of _ k] exI [of _ st'] exI [of _ cq']) simp
    qed
  qed
qed

text \<open>What still fits into a queue and the free blocks.\<close>

definition c_room :: "clist \<Rightarrow> nat list \<Rightarrow> nat list \<Rightarrow> nat" where
  "c_room p bs fs = (if bs = [] then 0 else last bs + 32 - c_cl p) + 28 * length fs"

lemma open_queue_owns:
  assumes "open_queue st cf cq bs fs cs" "last bs + 4 < cq" "cs \<noteq> []" "c_cf p = cf" "c_cl p = cq"
    "c_cc p = int (length cs)"
  shows "owns st p bs fs cs"
  using assms by (auto simp: open_queue_def owns_def clist_rel_def)

lemma owns_open_queue:
  "owns st p bs fs cs \<Longrightarrow> bs \<noteq> [] \<Longrightarrow> open_queue st (c_cf p) (c_cl p) bs fs cs"
  using ownsD(10) [of st p "hd bs" "tl bs" fs cs]
  by (auto simp: open_queue_def owns_def clist_rel_def)

lemma first_block:
  assumes o: "owns st p [] (f # fs) cs"
  shows "open_queue (cblock_take f st) (f + 4) (f + 4) [f] fs []" "cfreelist st = f" "is_block f"
    and "same_off {f} st (cblock_take f st)"
proof -
  from o have p: "fchain (c_next st) (cfreelist st) (f # fs)" "cfreecount st = 28 * int (Suc (length fs))"
    and d: "distinct (f # fs)" by (auto simp: owns_def pool_rel_def)
  then show "cfreelist st = f" "is_block f" by auto
  moreover have "fchain ((c_next st)(f := 0)) (c_next st f) fs"
    using p(1) d by (auto intro!: fchain_cong [of "c_next st"])
  ultimately show "open_queue (cblock_take f st) (f + 4) (f + 4) [f] fs []"
    using p(2) d by (simp add: open_queue_def pool_rel_def)
  show "same_off {f} st (cblock_take f st)" by (simp add: same_off_def)
qed

lemma b_to_q_correct:
  assumes o: "owns st p bs fs cs"
  defines "n \<equiv> c_room p bs fs"
  shows "\<exists>k st' p'. b_to_q xs p st = (length xs - n, p', st') \<and> k \<le> length fs \<and>
         owns st' p' (bs @ take k fs) (drop k fs) (cs @ take n xs) \<and>
         same_off (set bs \<union> set fs) st st'"
proof (cases "xs = [] \<or> bs = [] \<and> fs = []")
  case True
  then have "b_to_q xs p st = (length xs - n, p, st) \<and> take n xs = []"
    using o by (auto simp: b_to_q_def owns_def clist_rel_def pool_rel_def n_def c_room_def)
  with o show ?thesis by (intro exI [of _ 0] exI [of _ st] exI [of _ p]) auto
next
  case False
  show ?thesis
  proof (cases bs)
    case Nil
    with False obtain f fs' where fs: "fs = f # fs'" by (cases fs) auto
    note b = first_block [OF o [unfolded Nil fs]]
    have p: "p = \<lparr>c_cc = 0, c_cf = 0, c_cl = 0\<rparr>" "cs = []" using o Nil by (auto simp: owns_def clist_rel_def)
    have n: "n = last [f] + 32 - (f + 4) + 28 * length fs'" by (simp add: n_def c_room_def Nil fs)
    from b_to_q_loop_correct [OF b(1), of xs, folded n] False obtain k st' cq' where k:
      "b_to_q_loop xs (f + 4) (cblock_take f st) = (drop n xs, cq', st')" "k \<le> length fs'"
      "open_queue st' (f + 4) cq' ([f] @ take k fs') (drop k fs') ([] @ take n xs)"
      "same_off (set [f] \<union> set fs') (cblock_take f st) st'" "last ([f] @ take k fs') + 4 < cq'"
      by blast
    let ?p = "p\<lparr>c_cf := f + 4, c_cl := cq', c_cc := int (length xs) - int (length (drop n xs))\<rparr>"
    have "f \<noteq> 0" using b(3) by (simp add: is_block_def)
    then have "b_to_q xs p st = (length xs - n, ?p, st')"
      using False k(1) b(2) p by (simp add: b_to_q_def c_info_def)
    moreover have "owns st' ?p ([f] @ take k fs') (drop k fs') ([] @ take n xs)"
      using False n by (intro open_queue_owns [OF k(3,5)]) (auto simp: of_nat_diff min_def)
    moreover have "same_off (set bs \<union> set fs) st st'"
      by (rule same_off_trans [OF b(4) k(4)]) (auto simp: fs)
    ultimately show ?thesis
      using k(2) p by (intro exI [of _ "Suc k"] exI [of _ st'] exI [of _ ?p]) (auto simp: Nil fs)
  next
    case (Cons b bs')
    then have bs: "bs \<noteq> []" by simp
    note oq = owns_open_queue [OF o bs]
    have pz: "c_cl p \<noteq> 0" "\<not> c_cc p < 0" "c_cc p = int (length cs)"
      using o bs by (auto simp: owns_def clist_rel_def)
    have n: "n = last bs + 32 - c_cl p + 28 * length fs" using bs by (simp add: n_def c_room_def)
    from b_to_q_loop_correct [OF oq, of xs, folded n] False obtain k st' cq' where k:
      "b_to_q_loop xs (c_cl p) st = (drop n xs, cq', st')" "k \<le> length fs"
      "open_queue st' (c_cf p) cq' (bs @ take k fs) (drop k fs) (cs @ take n xs)"
      "same_off (set bs \<union> set fs) st st'" "last (bs @ take k fs) + 4 < cq'"
      by blast
    let ?p = "p\<lparr>c_cl := cq', c_cc := c_cc p + (int (length xs) - int (length (drop n xs)))\<rparr>"
    have "b_to_q xs p st = (length xs - n, ?p, st')"
      using False k(1) pz by (simp add: b_to_q_def)
    moreover have "owns st' ?p (bs @ take k fs) (drop k fs) (cs @ take n xs)"
      using o bs pz by (intro open_queue_owns [OF k(3,5)]) (auto simp: of_nat_diff min_def owns_def clist_rel_def)
    ultimately show ?thesis using k(2,4) by blast
  qed
qed

text \<open>\<^verbatim>\<open>putc\<close> is \<^verbatim>\<open>b_to_q\<close> of one byte.\<close>

lemma putc_b_to_q:
  assumes "owns st p bs fs cs"
  shows "putc c p st = (let (n, q, st') = b_to_q [c] p st in (if n = 0 then 0 else -1, q, st'))"
proof -
  have loop: "b_to_q_loop [c] cq st = ([], Suc cq, st\<lparr>c_char := (c_char st)(cq := c)\<rparr>)"
    if "cround cq \<noteq> 0" for cq st
    using b_to_q_loop_part [of "[c]" cq 1 st] that by (simp add: CBLOCK_def cround_def)
  have fr: "cround (c_info f) \<noteq> 0" if "cfreelist st = f" "f \<noteq> 0" for f
    using assms that by (cases fs) (auto simp: owns_def pool_rel_def c_info_def)
  have full: "b_to_q_loop [c] cq st =
      (let bp = cfreelist st; st1 = st\<lparr>c_next := (c_next st)(cq - CBLOCK := bp)\<rparr> in
       if bp = 0 then ([c], cq, st1)
       else ([], Suc (c_info bp), (cblock_take bp st1)\<lparr>c_char := (c_char st)(c_info bp := c)\<rparr>))"
    if "cround cq = 0" for cq
  proof (cases "cfreelist st = 0")
    case True
    then show ?thesis using that by (subst b_to_q_loop.simps) simp
  next
    case False
    have "min (length [c]) (CBLOCK - cround (c_info (cfreelist st))) = 1"
      by (simp add: CBLOCK_def cround_def)
    with False that show ?thesis by (subst b_to_q_loop.simps) (simp add: Let_def)
  qed
  show ?thesis
    using fr full loop
    by (auto simp: putc_def b_to_q_def putc_store_def Let_def CBSIZE_def
        split: prod.splits)
qed

lemma putc_correct:
  assumes o: "owns st p bs fs cs"
  shows "\<exists>k st' p'. putc c p st = (if c_room p bs fs = 0 then -1 else 0, p', st') \<and> k \<le> length fs \<and>
         owns st' p' (bs @ take k fs) (drop k fs) (cs @ take (c_room p bs fs) [c]) \<and>
         same_off (set bs \<union> set fs) st st'"
  using b_to_q_correct [OF o, of "[c]"] by (fastforce simp: putc_b_to_q [OF o])

section \<open>Concatenation\<close>

text \<open>
  \<^verbatim>\<open>catq\<close> ignores what \<^verbatim>\<open>b_to_q\<close> could not take. It never loses a byte: the blocks that
  \<^verbatim>\<open>q_to_b\<close> empties are enough for the bytes it took out of them.
\<close>

lemma distinct_append_drop: "distinct (xs @ ys) \<Longrightarrow> distinct (xs @ drop j ys)"
  by (auto dest: in_set_dropD)

lemma catq_round:
  assumes "owns st from bs fs cs" "owns st to bt fs ct" "set bs \<inter> set bt = {}" "cs \<noteq> []"
  shows "\<exists>from' to' st' bs' bt' fs' st1.
     q_to_b from 112 st = (take 112 cs, from', st1) \<and>
     b_to_q (take 112 cs) to st1 = (0, to', st') \<and>
     owns st' from' bs' fs' (drop 112 cs) \<and> owns st' to' bt' fs' (ct @ take 112 cs) \<and>
     set bs' \<inter> set bt' = {} \<and> set bs' \<union> set bt' \<union> set fs' = set bs \<union> set bt \<union> set fs \<and>
     same_off (set bs \<union> set bt \<union> set fs) st st'"
proof -
  from q_to_b_correct [OF assms(1), of 112, unfolded nat_numeral] obtain k st1 from' where k:
    "q_to_b from 112 st = (take 112 cs, from', st1)"
    "owns st1 from' (drop k bs) (rev (take k bs) @ fs) (drop 112 cs)" "k \<le> length bs"
    "same_off (set bs) st st1"
    "if length cs \<le> 112 then k = length bs else 112 < 28 * (k + 1)"
    by blast
  let ?fs = "rev (take k bs) @ fs"
  have rel: "clist_rel st1 to bt ct"
    using clist_rel_frame [OF _ k(4), of to bt ct] assms(2,3) by (auto simp: owns_def)
  have "distinct (bt @ ?fs)"
    using assms(1,2,3) set_take_subset [of k bs] by (auto simp: owns_def distinct_append)
  with rel k(2) have o2: "owns st1 to bt ?fs ct" by (simp add: owns_def)
  have "length cs \<le> 28 * length bs"
    using assms(1,4) length_addrs_le [of "c_next st" "c_cf from" "c_cl from" bs]
    by (auto simp: owns_def clist_rel_def split: if_splits)
  then have room: "length (take 112 cs) \<le> c_room to bt ?fs"
    using k(3,5) by (auto simp: c_room_def split: if_splits)
  then have t: "take (c_room to bt ?fs) (take 112 cs) = take 112 cs"
    "length (take 112 cs) - c_room to bt ?fs = 0" by (simp_all del: take_take)
  from b_to_q_correct [OF o2, of "take 112 cs", unfolded t] obtain j st2 to' where j:
    "b_to_q (take 112 cs) to st1 = (0, to', st2)" "j \<le> length ?fs"
    "owns st2 to' (bt @ take j ?fs) (drop j ?fs) (ct @ take 112 cs)"
    "same_off (set bt \<union> set ?fs) st1 st2"
    by blast
  have dj: "set (drop k bs) \<inter> (set bt \<union> set ?fs) = {}" 
    using k(2) assms(3) set_drop_subset [of k bs] by (fastforce simp: owns_def)
  have "clist_rel st2 from' (drop k bs) (drop 112 cs)"
    using clist_rel_frame [OF _ j(4) dj, of from' "drop 112 cs"] k(2) by (simp add: owns_def)
  moreover have "distinct (drop k bs @ drop j ?fs)"
    using k(2) unfolding owns_def by (blast intro: distinct_append_drop)
  ultimately have o3: "owns st2 from' (drop k bs) (drop j ?fs) (drop 112 cs)"
    using j(3) by (simp add: owns_def)
  have s1: "set (take k bs) \<union> set (drop k bs) = set bs"
    by (metis append_take_drop_id set_append)
  have s2: "set (take j ?fs) \<union> set (drop j ?fs) = set ?fs"
    by (metis append_take_drop_id set_append)
  have "set (drop k bs) \<inter> set (bt @ take j ?fs) = {}"
    using dj s2 by auto
  moreover have "set (drop k bs) \<union> set (bt @ take j ?fs) \<union> set (drop j ?fs) = set bs \<union> set bt \<union> set fs"
    using s1 s2 by auto
  moreover have "same_off (set bs \<union> set bt \<union> set fs) st st2"
    by (rule same_off_trans [OF k(4) j(4)]) (use s1 in auto)
  ultimately show ?thesis using k(1) j(1,3) o3 by (intro exI conjI)
qed

lemma catq_loop_correct:
  assumes "owns st from bs fs cs" "owns st to bt fs ct" "set bs \<inter> set bt = {}"
  shows "\<exists>to' st' bt' fs'.
     catq_loop from to st = (\<lparr>c_cc = 0, c_cf = 0, c_cl = 0\<rparr>, to', st') \<and>
     owns st' to' bt' fs' (ct @ cs) \<and> set bt' \<union> set fs' = set bs \<union> set bt \<union> set fs \<and>
     same_off (set bs \<union> set bt \<union> set fs) st st'"
  using assms
proof (induction "length cs" arbitrary: st "from" to bs bt fs cs ct rule: less_induct)
  case less
  show ?case
  proof (cases "cs = []")
    case True
    then have e: "from = \<lparr>c_cc = 0, c_cf = 0, c_cl = 0\<rparr>" "bs = []"
      using less.prems(1) by (auto simp: owns_def clist_rel_def split: if_splits)
    then have "\<not> 0 < c_cc from" by simp
    then have "catq_loop from to st = (\<lparr>c_cc = 0, c_cf = 0, c_cl = 0\<rparr>, to, st)"
      using e(1) by (subst catq_loop.simps) (simp only: if_False simp_thms)
    with less.prems(2) True e(2) show ?thesis
      by (intro exI [of _ to] exI [of _ st] exI [of _ bt] exI [of _ fs]) simp
  next
    case False
    from catq_round [OF less.prems False] obtain from' to' st' bs' bt' fs' st1 where r:
      "q_to_b from 112 st = (take 112 cs, from', st1)"
      "b_to_q (take 112 cs) to st1 = (0, to', st')"
      "owns st' from' bs' fs' (drop 112 cs)" "owns st' to' bt' fs' (ct @ take 112 cs)"
      "set bs' \<inter> set bt' = {}" "set bs' \<union> set bt' \<union> set fs' = set bs \<union> set bt \<union> set fs"
      "same_off (set bs \<union> set bt \<union> set fs) st st'"
      by (elim exE conjE) (rule that)
    have "0 < c_cc from" using False less.prems(1) by (auto simp: owns_def clist_rel_def split: if_splits)
    then have step: "catq_loop from to st = catq_loop from' to' st'"
    proof -
      have "int (CBSIZE * 4) = 112" by (simp add: CBSIZE_def CBLOCK_def)
      with \<open>0 < c_cc from\<close> r(1,2) show ?thesis
        by (subst catq_loop.simps) (simp only: Let_def if_True fst_conv snd_conv)
    qed
    have "length (drop 112 cs) < length cs" using False by (cases cs) auto
    from less.hyps [OF this r(3,4,5)] obtain to2 st2 bt2 fs2 where
      "catq_loop from' to' st' = (\<lparr>c_cc = 0, c_cf = 0, c_cl = 0\<rparr>, to2, st2)"
      "owns st2 to2 bt2 fs2 ((ct @ take 112 cs) @ drop 112 cs)"
      "set bt2 \<union> set fs2 = set bs' \<union> set bt' \<union> set fs'"
      "same_off (set bs' \<union> set bt' \<union> set fs') st' st2"
      by (elim exE conjE) (rule that)
    moreover from this(4) have "same_off (set bs \<union> set bt \<union> set fs) st st2"
      by (rule same_off_trans [OF r(7)]) (use r(6) in auto)
    ultimately show ?thesis
      using step r(6) by (intro exI [of _ to2] exI [of _ st2] exI [of _ bt2] exI [of _ fs2]) simp
  qed
qed

lemma catq_correct:
  assumes "owns st from bs fs cs" "owns st to bt fs ct" "set bs \<inter> set bt = {}"
  shows "\<exists>to' st' bt' fs'.
     catq from to st = (\<lparr>c_cc = 0, c_cf = 0, c_cl = 0\<rparr>, to', st') \<and>
     owns st' to' bt' fs' (ct @ cs) \<and> set bt' \<union> set fs' = set bs \<union> set bt \<union> set fs \<and>
     same_off (set bs \<union> set bt \<union> set fs) st st'"
proof (cases "c_cc to = 0")
  case True
  then have "bt = []" "ct = []"
    using assms(2) by (auto simp: owns_def clist_rel_def split: if_splits)
  with True assms(1) show ?thesis
    by (intro exI [of _ "from"] exI [of _ st] exI [of _ bs] exI [of _ fs]) (simp add: catq_def)
next
  case False
  with catq_loop_correct [OF assms] show ?thesis by (simp add: catq_def)
qed

section \<open>Taking from the end, walking, flushing\<close>

lemma qblocks_butlast:
  "qblocks nx cf cl (bs @ [b]) \<Longrightarrow> bs \<noteq> [] \<Longrightarrow> distinct (bs @ [b]) \<Longrightarrow>
   qblocks (nx(last bs := 0)) cf (last bs + 32) bs \<and> nx (last bs) = b \<and>
   addrs cf cl (bs @ [b]) = addrs cf (last bs + 32) bs @ [b + 4..<cl]"
proof (induction bs arbitrary: cf)
  case (Cons c bs)
  show ?case
  proof (cases bs)
    case (Cons c' bs')
    with Cons.IH [of "c' + 4"] Cons.prems show ?thesis by auto
  qed (use Cons.prems in auto)
qed simp

lemma unputc_walk_correct:
  "qblocks nx cf cl (bs @ [b]) \<Longrightarrow> bs \<noteq> [] \<Longrightarrow> distinct (bs @ [b]) \<Longrightarrow> c_next st = nx \<Longrightarrow>
   unputc_walk (hd bs) b st = Some (last bs)"
proof (induction bs arbitrary: cf)
  case (Cons c bs)
  show ?case
  proof (cases bs)
    case Nil
    with Cons.prems show ?thesis by (subst unputc_walk.simps) simp
  next
    case (Cons c' bs')
    with Cons.IH [of "c' + 4"] Cons.prems show ?thesis by (subst unputc_walk.simps) auto
  qed
qed simp

lemma cblock_link_fields [simp]:
  "c_next (cblock_link b st) = (c_next st)(b := cfreelist st)"
  "c_char (cblock_link b st) = c_char st"
  "cfreelist (cblock_link b st) = b"
  "cfreecount (cblock_link b st) = cfreecount st + 28"
  by (auto simp: cblock_link_def CBSIZE_def CBLOCK_def)

lemma addrs_snoc:
  assumes "qblocks nx cf cl bs" "last bs + 4 < cl" "cf < cl \<or> tl bs \<noteq> []"
  shows "addrs cf cl bs = addrs cf (cl - 1) bs @ [cl - 1] \<and> qblocks nx cf (cl - 1) bs"
  using assms
proof (induction nx cf cl bs rule: qblocks.induct)
  case (2 nx cf cl b)
  then obtain m where "cl = Suc m" by (cases cl) auto
  with 2 show ?case by auto
next
  case (3 nx cf cl b b' bs)
  then show ?case by (cases bs) auto
qed simp

lemma unputc_correct:
  assumes o: "owns st p bs fs cs" and ne: "cs \<noteq> []"
  shows "\<exists>p' st' bs' fs'. unputc p st = Some (sint (last cs), p', st') \<and>
     owns st' p' bs' fs' (butlast cs) \<and> set bs' \<union> set fs' = set bs \<union> set fs \<and>
     c_char st' = c_char st \<and> same_off (set bs \<union> set fs) st st'"
proof -
  have bs: "bs \<noteq> []" using o ne by (auto simp: owns_def clist_rel_def)
  then obtain b bs' where bb: "bs = b # bs'" by (cases bs) auto
  note d = ownsD [OF o [unfolded bb], folded bb]
  have "c_cf p < c_cl p \<or> tl bs \<noteq> []" using d(1,3,4) bb by (cases bs') auto
  note sn = addrs_snoc [OF d(1,2) this]
  have lst: "last cs = c_char st (c_cl p - 1)"
    and bl: "butlast cs = map (c_char st) (addrs (c_cf p) (c_cl p - 1) bs)"
    using d(4) sn by (simp_all add: butlast_append)
  have qb: "last bs + 4 \<le> c_cl p \<and> c_cl p \<le> last bs + 32" using qblocks_bounds [OF d(1) bs] by simp
  have lb: "is_block (last bs)" using qblocks_blocks [OF d(1)] bs by simp
  have ad: "cbase (c_cl p - 1) = last bs" "cround (c_cl p - 1) = c_cl p - 1 - last bs"
    using is_block_addr(1,2) [OF lb, of "c_cl p - 1"] qb d(2) by auto
  have cc: "c_cc p = 1 + int (length (butlast cs))" using d(5) ne by (cases cs) auto
  let ?p = "p\<lparr>c_cl := c_cl p - 1, c_cc := c_cc p - 1\<rparr>"
  show ?thesis
  proof (cases "butlast cs = []")
    case True
    have "addrs (c_cf p) (c_cl p - 1) bs = []" using True bl by simp
    then have "bs' = []" using d(1) bb by (cases bs') auto
    then have b1: "bs = [b]" using bb by simp
    have "unputc p st = Some (sint (last cs), \<lparr>c_cc = 0, c_cf = 0, c_cl = 0\<rparr>, cblock_link b st)"
      using True cc ad lst b1 by (simp add: unputc_def Let_def)
    moreover have "pool_rel (cblock_link b st) (b # fs)"
      using d(6,7,8) b1 by (auto simp: pool_rel_def intro!: fchain_cong [of "c_next st"])
    ultimately show ?thesis
      using True d(7) b1
      by (intro exI [of _ "\<lparr>c_cc = 0, c_cf = 0, c_cl = 0\<rparr>"] exI [of _ "cblock_link b st"]
          exI [of _ "[]"] exI [of _ "b # fs"])
        (auto simp: owns_def clist_rel_def same_off_def)
  next
    case False
    then have "0 < length (butlast cs)" by (simp del: length_butlast)
    then have cc1: "1 < c_cc p" using cc by linarith
    show ?thesis
    proof (cases "c_cl p - 1 = last bs + 4")
      case True
      obtain bs0 l where bs0: "bs = bs0 @ [l]" using bs by (cases bs rule: rev_cases) auto
      have "bs0 \<noteq> []"
      proof
        assume "bs0 = []"
        then have "addrs (c_cf p) (c_cl p - 1) bs = [c_cf p..<l + 4]" "l + 4 \<le> c_cf p"
          using bs0 True d(1) by simp_all
        then show False using False bl by simp
      qed
      note b0 = qblocks_butlast [OF d(1) [unfolded bs0] this]
      have dd: "distinct (bs0 @ [l])" "last bs0 \<noteq> l" "l \<notin> set fs" "last bs0 \<notin> set fs"
        using d(7) bs0 \<open>bs0 \<noteq> []\<close> last_in_set [of bs0] by (auto simp: disjoint_iff)
      let ?st1 = "cblock_link l st"
      let ?st2 = "?st1\<lparr>c_next := (c_next ?st1)(last bs0 := 0)\<rparr>"
      let ?q = "?p\<lparr>c_cl := last bs0 + CBLOCK\<rparr>"
      have w: "unputc_walk (cbase (c_cf p)) l st = Some (last bs0)"
        using unputc_walk_correct [OF d(1) [unfolded bs0] \<open>bs0 \<noteq> []\<close> dd(1) refl]
          is_block_addr(1) [OF d(8), of "c_cf p"] d(9,10) bs0 bb \<open>bs0 \<noteq> []\<close>
        by (cases bs0) auto
      have un: "unputc p st = Some (sint (last cs), ?q, ?st2)"
        using cc1 ad lst True w b0 dd bs0 by (simp add: unputc_def Let_def)
      have q0: "qblocks ((c_next st)(last bs0 := 0)) (c_cf p) (last bs0 + 32) bs0"
        "addrs (c_cf p) (c_cl p) bs = addrs (c_cf p) (last bs0 + 32) bs0 @ [l + 4..<c_cl p]"
        using b0 dd(1) bs0 by simp_all
      have "l + 4 = c_cl p - 1" using True bs0 by simp
      then have "[l + 4..<c_cl p] = [c_cl p - 1]" using d(2) bs0 upt_conv_Cons by auto
      then have cs0: "butlast cs = map (c_char st) (addrs (c_cf p) (last bs0 + 32) bs0)"
        using d(4) q0(2) by (simp add: butlast_append)
      have nq: "qblocks (c_next ?st2) (c_cf p) (last bs0 + 32) bs0"
        by (rule qblocks_cong [OF q0(1)]) (use dd in auto)
      have "fchain (c_next ?st2) l (l # fs)"
        using d(6) dd lb bs0 by (auto simp: pool_rel_def intro!: fchain_cong [of "c_next st"])
      then have "pool_rel ?st2 (l # fs)" using d(6) by (simp add: pool_rel_def)
      then have "owns ?st2 ?q bs0 (l # fs) (butlast cs)"
        using nq cs0 False cc d(7) bs0 \<open>bs0 \<noteq> []\<close>
        by (auto simp: owns_def clist_rel_def CBLOCK_def)
      moreover have "same_off (set bs \<union> set fs) st ?st2"
        using bs0 \<open>bs0 \<noteq> []\<close> by (auto simp: same_off_def)
      ultimately show ?thesis
        using un bs0 by (intro exI [of _ ?q] exI [of _ ?st2] exI [of _ bs0] exI [of _ "l # fs"]) auto
    next
      case F2: False
      have "cround (c_cl p - 1) \<noteq> 4" using ad(2) F2 d(2) by linarith
      then have "unputc p st = Some (sint (last cs), ?p, st)"
        using cc1 lst by (simp add: unputc_def Let_def)
      moreover have "owns st ?p bs fs (butlast cs)"
        using False F2 cc d(2,6,7) sn bl bs by (simp add: owns_def clist_rel_def)
      ultimately show ?thesis by (intro exI [of _ ?p] exI [of _ st] exI [of _ bs] exI [of _ fs]) simp
    qed
  qed
qed

lemma ndflush_loop_correct:
  assumes "owns st q bs fs cs" "cs \<noteq> []"
  shows "\<exists>k st' q'. ndflush_loop q (int cc) st = Some (q', st') \<and>
           owns st' (if c_cc q' \<le> 0 then \<lparr>c_cc = 0, c_cf = 0, c_cl = 0\<rparr> else q')
             (drop k bs) (rev (take k bs) @ fs) (drop cc cs) \<and> k \<le> length bs \<and>
           c_char st' = c_char st \<and> same_off (set bs) st st'"
  using assms
proof (induction bs arbitrary: st q fs cs cc)
  case Nil
  then show ?case by (simp add: owns_def clist_rel_def)
next
  case (Cons b bs)
  note d = ownsD [OF Cons.prems(1)]
  show ?case
  proof (cases "cc = 0")
    case True
    then have "ndflush_loop q (int cc) st = Some (q, st)" by (subst ndflush_loop.simps) simp
    with Cons.prems True d(3,5) show ?thesis
      by (intro exI [of _ 0] exI [of _ st] exI [of _ q]) simp
  next
    case False
    define ende where "ende = (if bs = [] then c_cl q else b + 32)"
    have lb: "is_block (last (b # bs))" using qblocks_blocks [OF d(1)] by simp
    have "cbase (c_cl q - 1) = last (b # bs)"
      using is_block_addr(1) [OF lb, of "c_cl q - 1"] qblocks_bounds [OF d(1)] d(2) by auto
    moreover have "last (b # bs) = b \<longleftrightarrow> bs = []" using d(7) last_in_set [of bs] by auto
    moreover have bp: "cbase (c_cf q) = b" using is_block_addr(1) [OF d(8)] d(9,10) by simp
    ultimately have ende: "(if b = cbase (c_cl q - 1) then c_cl q else b + CBLOCK) = ende"
      by (auto simp: ende_def CBLOCK_def)
    define rem where "rem = ende - c_cf q"
    have le: "c_cf q < ende" using d(1,3,4,10) by (cases bs) (auto simp: ende_def)
    have c0: "0 < int cc \<and> c_cc q \<noteq> 0" using False d(3,5) by auto
    have ri: "int ende - int (c_cf q) = int rem" using le by (simp add: rem_def of_nat_diff)
    show ?thesis
    proof (cases "rem \<le> cc")
      case True
      have step: "ndflush_loop q (int cc) st =
          ndflush_loop (q\<lparr>c_cc := c_cc q - int rem, c_cf := c_info (c_next st b)\<rparr>) (int (cc - rem))
            (cblock_free b st)"
        using c0 True by (subst ndflush_loop.simps)
          (simp only: Let_def bp ende ri if_True simp_thms of_nat_le_iff of_nat_diff [symmetric])
      show ?thesis
      proof (cases bs)
        case Nil
        note c = consume_last [OF Cons.prems(1) [unfolded Nil]]
        let ?q = "q\<lparr>c_cc := 0, c_cf := c_info (c_next st b)\<rparr>"
        have r: "rem = length cs" using c(3) Nil by (simp add: rem_def ende_def)
        then have "ndflush_loop q (int cc) st = Some (?q, cblock_free b st)"
          using step d(5) by (subst (asm) (2) ndflush_loop.simps) simp
        with c(5) Nil r True show ?thesis
          by (intro exI [of _ 1] exI [of _ "cblock_free b st"] exI [of _ ?q])
            (simp add: cblock_free_same_off)
      next
        case (Cons b' bs')
        have n: "rem = b + 32 - c_cf q" using Cons by (simp add: rem_def ende_def)
        note c = consume_block [OF Cons.prems(1) [unfolded Cons] n]
        let ?q = "q\<lparr>c_cf := b' + 4, c_cc := c_cc q - int rem\<rparr>"
        have q: "q\<lparr>c_cc := c_cc q - int rem, c_cf := c_info (c_next st b)\<rparr> = ?q"
          using c(2) by (simp add: c_info_def)
        have "drop rem cs \<noteq> []" using c(1) by simp
        from Cons.IH [OF c(4) [folded Cons] this, of "cc - rem"] obtain k st' q' where k:
          "ndflush_loop ?q (int (cc - rem)) (cblock_free b st) = Some (q', st')"
          "owns st' (if c_cc q' \<le> 0 then \<lparr>c_cc = 0, c_cf = 0, c_cl = 0\<rparr> else q')
             (drop k bs) (rev (take k bs) @ b # fs) (drop (cc - rem) (drop rem cs))"
          "k \<le> length bs" "c_char st' = c_char (cblock_free b st)"
          "same_off (set bs) (cblock_free b st) st'"
          by blast
        have "same_off (set (b # bs)) st st'"
          by (rule same_off_trans [OF cblock_free_same_off [of b "{b}"] k(5)]) auto
        then show ?thesis
          using k True step q by (intro exI [of _ "Suc k"] exI [of _ st'] exI [of _ q']) simp
      qed
    next
      case lt: False
      have n: "cc < length cs \<and> c_cf q + cc < b + 32"
      proof (cases bs)
        case Nil
        with lt consume_last(3,4) [OF Cons.prems(1) [unfolded Nil]] show ?thesis
          by (auto simp: rem_def ende_def)
      next
        case (Cons b' bs')
        with lt consume_block(1) [OF Cons.prems(1) [unfolded Cons] refl] show ?thesis
          by (simp add: rem_def ende_def)
      qed
      let ?q = "q\<lparr>c_cf := c_cf q + cc, c_cc := c_cc q - int cc\<rparr>"
      have "ndflush_loop q (int cc) st =
          (let q1 = q\<lparr>c_cc := c_cc q - int cc, c_cf := nat (int (c_cf q) + int cc)\<rparr> in
           Some (q1, if c_cc q1 \<le> 0 then cblock_free b st else st))"
        using c0 lt by (subst ndflush_loop.simps)
          (simp only: Let_def bp ende ri if_True if_False simp_thms of_nat_le_iff)
      then have "ndflush_loop q (int cc) st = Some (?q, st)"
        using n d(5) by (simp add: Let_def nat_add_distrib)
      with consume_in_block(1) [OF Cons.prems(1), of cc] n d(5) show ?thesis
        by (intro exI [of _ 0] exI [of _ st] exI [of _ ?q]) simp
    qed
  qed
qed

lemma ndflush_correct:
  assumes o: "owns st q bs fs cs"
  shows "\<exists>k st' q'. ndflush q cc st = Some (q', st') \<and>
           owns st' q' (drop k bs) (rev (take k bs) @ fs) (drop (nat cc) cs) \<and>
           c_char st' = c_char st \<and> same_off (set bs) st st'"
proof (cases "cs = [] \<or> cc \<le> 0")
  case True
  then have "ndflush q cc st = Some (q, st)"
    using o by (auto simp: ndflush_def owns_def clist_rel_def ndflush_loop.simps split: if_splits)
  with True o show ?thesis by (intro exI [of _ 0] exI [of _ st] exI [of _ q]) auto
next
  case False
  then have "0 < c_cc q" using o by (auto simp: owns_def clist_rel_def split: if_splits)
  from ndflush_loop_correct [OF o, of "nat cc"] False obtain k st' q' where k:
    "ndflush_loop q cc st = Some (q', st')"
    "owns st' (if c_cc q' \<le> 0 then \<lparr>c_cc = 0, c_cf = 0, c_cl = 0\<rparr> else q')
       (drop k bs) (rev (take k bs) @ fs) (drop (nat cc) cs)"
    "c_char st' = c_char st" "same_off (set bs) st st'"
    by auto
  from \<open>0 < c_cc q\<close> k(1)
  have "ndflush q cc st = Some (if c_cc q' \<le> 0 then \<lparr>c_cc = 0, c_cf = 0, c_cl = 0\<rparr> else q', st')"
    by (simp add: ndflush_def)
  with k(2,3,4) show ?thesis by blast
qed

text \<open>\<^verbatim>\<open>nextc\<close> steps through the addresses of the characters.\<close>

lemma hd_addrs: "qblocks nx cf cl bs \<Longrightarrow> addrs cf cl bs \<noteq> [] \<Longrightarrow> hd (addrs cf cl bs) = cf"
  by (induction nx cf cl bs rule: qblocks.induct) (auto simp: hd_append)

lemma nextc_addrs:
  "qblocks (c_next st) cf cl bs \<Longrightarrow> last bs + 4 < cl \<Longrightarrow> distinct bs \<Longrightarrow> c_cl p = cl \<Longrightarrow> c_cc p \<noteq> 0 \<Longrightarrow>
   i < length (addrs cf cl bs) \<Longrightarrow>
   nextc p (addrs cf cl bs ! i) st =
     (if Suc i < length (addrs cf cl bs) then addrs cf cl bs ! Suc i else 0)"
proof (induction "c_next st" cf cl bs arbitrary: i rule: qblocks.induct)
  case (2 cf cl b)
  then have "cf + i < b + 32" "is_block b" "b + 4 \<le> cf" "cl \<le> b + 32" by auto
  with 2 is_block_addr(2) [of b "Suc (cf + i)"] show ?case by (auto simp: nextc_def)
next
  case (3 cf cl b b' bs)
  let ?l = "last (b' # bs)"
  have q: "is_block b" "b + 4 \<le> cf" "cf < b + 32" "c_next st b = b'" "qblocks (c_next st) (b' + 4) cl (b' # bs)"
    using 3(2) by auto
  have ne: "addrs (b' + 4) cl (b' # bs) \<noteq> []" using q(5) 3(3) by (cases bs) auto
  show ?case
  proof (cases "i < b + 32 - cf")
    case False
    define xs where "xs = [cf..<b + 32]"
    define j where "j = i - length xs"
    have j: "i = length xs + j" "length xs = b + 32 - cf" using False by (simp_all add: j_def xs_def)
    have a: "addrs cf cl (b # b' # bs) = xs @ addrs (b' + 4) cl (b' # bs)" by (simp add: xs_def)
    have "nextc p (addrs (b' + 4) cl (b' # bs) ! j) st =
        (if Suc j < length (addrs (b' + 4) cl (b' # bs)) then addrs (b' + 4) cl (b' # bs) ! Suc j else 0)"
      using 3(1) [of j] 3(3-7) q j(1) unfolding a by simp
    with j(1) show ?thesis unfolding a by (simp add: nth_append)
  next
    case True
    have l: "is_block ?l" "?l + 4 < cl" "cl \<le> ?l + 32" "b \<noteq> ?l"
      using qblocks_blocks [OF q(5), of ?l] qblocks_bounds [OF q(5)] 3(3,4) by auto
    have lt: "cf + i < b + 32" using True by simp
    have "Suc (cf + i) \<noteq> cl"
      using block_disjoint [OF q(1) l(1), of "cf + i"] lt q(2) l by linarith
    moreover have "cround (Suc (cf + i)) = 0 \<longleftrightarrow> Suc i = b + 32 - cf"
    proof (cases "Suc i = b + 32 - cf")
      case True
      then have "Suc (cf + i) = b + 32" using q(3) by simp
      then show ?thesis using True cround_end(1) [OF q(1)] by (simp only: simp_thms)
    next
      case False
      with True is_block_addr(2) [OF q(1), of "Suc (cf + i)"] q(2) show ?thesis by simp
    qed
    moreover have "Suc (cf + i) - CBLOCK = b" if "Suc i = b + 32 - cf"
      using that q(3) by (simp add: CBLOCK_def)
    ultimately have nx: "nextc p (cf + i) st = (if Suc i = b + 32 - cf then b' + 4 else Suc (cf + i))"
      using 3(5,6) q(4) by (simp add: nextc_def c_info_def)
    define xs R where "xs = [cf..<b + 32]" and "R = addrs (b' + 4) cl (b' # bs)"
    have a: "addrs cf cl (b # b' # bs) = xs @ R" by (simp add: xs_def R_def)
    have xs: "length xs = b + 32 - cf" "k < length xs \<Longrightarrow> xs ! k = cf + k" for k
      by (simp_all add: xs_def)
    have R: "R \<noteq> []" "R ! 0 = b' + 4"
      using hd_addrs [OF q(5) ne] ne by (simp_all add: R_def hd_conv_nth)
    have "i < length xs" using True xs(1) by simp
    with nx [folded xs(1)] xs(2) R show ?thesis
      unfolding a by (cases "Suc i = length xs") (simp_all add: nth_append)
  qed
qed simp

section \<open>Initialisation\<close>

declare cinit_loop.simps [simp del]

lemma cinit_loop_pool:
  assumes "is_block cp" "pool_rel st fs" "\<forall>f\<in>set fs. f < cp" "distinct fs"
  shows "\<exists>bs. pool_rel (cinit_loop cp lim st) (bs @ fs) \<and> distinct (bs @ fs) \<and>
           set bs = {b. is_block b \<and> cp \<le> b \<and> b \<le> lim}"
  using assms
proof (induction cp lim st arbitrary: fs rule: cinit_loop.induct)
  case (1 cp lim st)
  show ?case
  proof (cases "cp \<le> lim")
    case False
    then have "cinit_loop cp lim st = st" by (simp add: cinit_loop.simps)
    with 1(3,5) False show ?thesis by (intro exI [of _ "[]"]) auto
  next
    case True
    have "cp \<notin> set fs" using 1(4) by auto
    then have p: "pool_rel (cblock_link cp st) (cp # fs)"
      using 1(2,3) by (auto simp: pool_rel_def intro!: fchain_cong [of "c_next st"])
    have nb: "is_block (cp + CBLOCK)" using 1(2) by (simp add: is_block_def CBLOCK_def)
    from 1(1) [OF True nb p] 1(4,5) \<open>cp \<notin> set fs\<close> obtain bs where bs:
      "pool_rel (cinit_loop (cp + CBLOCK) lim (cblock_link cp st)) (bs @ cp # fs)"
      "distinct (bs @ cp # fs)" "set bs = {b. is_block b \<and> cp + CBLOCK \<le> b \<and> b \<le> lim}"
      by (fastforce simp: CBLOCK_def)
    have gap: "b = cp \<or> cp + CBLOCK \<le> b" if "is_block b" "cp \<le> b" for b
      using block_disjoint [OF 1(2) that(1), of b] that by (auto simp: CBLOCK_def not_le)
    have "set (bs @ [cp]) = {b. is_block b \<and> cp \<le> b \<and> b \<le> lim}"
      using bs(3) True gap 1(2) by (auto simp: CBLOCK_def)
    moreover have "cinit_loop cp lim st = cinit_loop (cp + CBLOCK) lim (cblock_link cp st)"
      using True by (subst cinit_loop.simps) (simp only: if_True simp_thms)
    ultimately show ?thesis using bs by (intro exI [of _ "bs @ [cp]"]) simp
  qed
qed

section \<open>The byte queue interface\<close>

text \<open>
  What the terminal drivers rely on. A put can fail for want of a block; a get of an empty
  queue gives -1. \<open>q_ok\<close> forgets the blocks.
\<close>

definition q_ok :: "cpool \<times> clist \<Rightarrow> u8 list \<Rightarrow> bool" where
  "q_ok = (\<lambda>(st, p) cs. \<exists>bs fs. owns st p bs fs cs)"

datatype qop = Put u8 | Get

locale byte_queue =
  fixes rel :: "'s \<Rightarrow> u8 list \<Rightarrow> bool"
    and put :: "u8 \<Rightarrow> 's \<Rightarrow> int \<times> 's"
    and get :: "'s \<Rightarrow> int \<times> 's"
  assumes put_law: "rel s cs \<Longrightarrow> put c s = (r, s') \<Longrightarrow>
      r = 0 \<and> rel s' (cs @ [c]) \<or> r = -1 \<and> rel s' cs"
    and get_law: "rel s cs \<Longrightarrow> get s = (r, s') \<Longrightarrow>
      (case cs of [] \<Rightarrow> r = -1 \<and> rel s' [] | c # cs' \<Rightarrow> r = uint c \<and> rel s' cs')"
begin

text \<open>A run, with the bytes accepted and the bytes delivered.\<close>

fun qrun :: "qop list \<Rightarrow> 's \<Rightarrow> u8 list \<times> u8 list \<times> 's" where
  "qrun [] s = ([], [], s)"
| "qrun (Put c # ops) s =
     (case put c s of (r, s') \<Rightarrow> case qrun ops s' of (acc, del, s'') \<Rightarrow>
        (if r = 0 then c # acc else acc, del, s''))"
| "qrun (Get # ops) s =
     (case get s of (r, s') \<Rightarrow> case qrun ops s' of (acc, del, s'') \<Rightarrow>
        (acc, if r = -1 then del else word_of_int r # del, s''))"

lemma uint_not_neg1: "uint (c :: u8) \<noteq> -1"
  using uint_ge_0 [of c] by linarith

lemma qrun_fifo:
  "rel s cs \<Longrightarrow> qrun ops s = (acc, del, s') \<Longrightarrow> \<exists>rest. rel s' rest \<and> cs @ acc = del @ rest"
proof (induction ops s arbitrary: cs acc del s' rule: qrun.induct)
  case (2 c ops s)
  obtain r s1 where p: "put c s = (r, s1)" by fastforce
  obtain acc1 del1 s2 where q: "qrun ops s1 = (acc1, del1, s2)" using prod_cases3 by blast
  from put_law [OF "2.prems"(1) p] consider "r = 0" "rel s1 (cs @ [c])" | "r = -1" "rel s1 cs" by blast
  then show ?case
    using "2.IH" [OF p [symmetric] _ q] "2.prems"(2) p q by cases fastforce+
next
  case (3 ops s)
  obtain r s1 where p: "get s = (r, s1)" by fastforce
  obtain acc1 del1 s2 where q: "qrun ops s1 = (acc1, del1, s2)" using prod_cases3 by blast
  show ?case
  proof (cases cs)
    case Nil
    with get_law [OF "3.prems"(1) p] "3.IH" [OF p [symmetric] _ q] "3.prems"(2) p q show ?thesis
      by fastforce
  next
    case (Cons c cs')
    with get_law [OF "3.prems"(1) p] have "r = uint c" "rel s1 cs'" by auto
    with "3.IH" [OF p [symmetric] _ q] "3.prems"(2) p q Cons show ?thesis
      by (auto simp: uint_not_neg1)
  qed
qed auto

end

definition putc_on :: "u8 \<Rightarrow> cpool \<times> clist \<Rightarrow> int \<times> cpool \<times> clist" where
  "putc_on c = (\<lambda>(st, p). case putc c p st of (r, p', st') \<Rightarrow> (r, st', p'))"

definition getc_on :: "cpool \<times> clist \<Rightarrow> int \<times> cpool \<times> clist" where
  "getc_on = (\<lambda>(st, p). case getc p st of (r, p', st') \<Rightarrow> (r, st', p'))"

lemma getc_correct:
  assumes o: "owns st p bs fs cs"
  shows "\<exists>k p' st'. getc p st = (if cs = [] then -1 else uint (hd cs), p', st') \<and>
    owns st' p' (drop k bs) (rev (take k bs) @ fs) (tl cs)"
  using q_to_b_correct [OF o, of 1] by (auto simp: getc_q_to_b [OF o] drop_Suc)

interpretation byteq: byte_queue q_ok putc_on getc_on
proof
  show "q_ok s cs \<Longrightarrow> putc_on c s = (r, s') \<Longrightarrow>
      r = 0 \<and> q_ok s' (cs @ [c]) \<or> r = -1 \<and> q_ok s' cs" for s cs c r s'
  proof -
    assume "q_ok s cs" and r: "putc_on c s = (r, s')"
    then obtain st p bs fs where s: "s = (st, p)" and o: "owns st p bs fs cs" by (auto simp: q_ok_def)
    from putc_correct [OF o, of c] r s show ?thesis
      by (cases "c_room p bs fs") (fastforce simp: putc_on_def q_ok_def)+
  qed
  show "q_ok s cs \<Longrightarrow> getc_on s = (r, s') \<Longrightarrow>
      (case cs of [] \<Rightarrow> r = -1 \<and> q_ok s' [] | c # cs' \<Rightarrow> r = uint c \<and> q_ok s' cs')" for s cs r s'
  proof -
    assume "q_ok s cs" and r: "getc_on s = (r, s')"
    then obtain st p bs fs where s: "s = (st, p)" and o: "owns st p bs fs cs" by (auto simp: q_ok_def)
    from getc_correct [OF o] r s show ?thesis
      by (cases cs) (fastforce simp: getc_on_def q_ok_def)+
  qed
qed

section \<open>Properties\<close>

text \<open>A pool of two blocks with an empty queue, and one with five bytes, for the witnesses.\<close>

definition demo_pool :: cpool where
  "demo_pool = \<lparr>c_next = (\<lambda>_. 0)(64 := 32), c_char = (\<lambda>a. word_of_nat a), cfreelist = 64,
     cfreecount = 56, cwaiting = False, cwakeups = 0\<rparr>"

definition demo_queue :: clist where
  "demo_queue = \<lparr>c_cc = 5, c_cf = 100, c_cl = 105\<rparr>"

lemma demo_empty: "owns demo_pool \<lparr>c_cc = 0, c_cf = 0, c_cl = 0\<rparr> [] [64, 32] []"
  by (simp add: owns_def clist_rel_def pool_rel_def demo_pool_def is_block_def)

lemma demo_five: "owns demo_pool demo_queue [96] [64, 32] [100, 101, 102, 103, 104]"
  by (simp add: owns_def clist_rel_def pool_rel_def demo_pool_def demo_queue_def is_block_def upt_rec)

text \<open>
  \<open>q_to_b\<close> returns the first \<open>cc\<close> bytes of the queue (all of them if there are fewer),
  leaves the rest in it, and gives the emptied blocks back to the pool; it touches no other
  block, so no other queue. \<open>getc\<close> is \<open>q_to_b\<close> of one byte, with -1 for an empty queue.
\<close>

theorem q_to_b_takes_prefix:
  assumes "owns st q bs fs cs"
  shows "(\<exists>k st' q'. q_to_b q cc st = (take (nat cc) cs, q', st') \<and>
            owns st' q' (drop k bs) (rev (take k bs) @ fs) (drop (nat cc) cs) \<and>
            same_off (set bs) st st') \<and>
         getc q st = (if cs = [] then -1 else uint (hd cs), snd (q_to_b q 1 st))"
  using q_to_b_correct [OF assms, of cc] getc_q_to_b [OF assms] by blast

lemma q_to_b_takes_prefix_witness:
  "fst (q_to_b demo_queue 3 demo_pool) = [100, 101, 102] \<and> fst (getc demo_queue demo_pool) = 100"
  using q_to_b_takes_prefix [OF demo_five, of 3] by auto

text \<open>
  \<open>b_to_q\<close> appends as many bytes as fit into the last block and the free blocks, and
  returns the number of the others; on the way it takes free blocks in order and touches
  no block of another queue. \<open>putc\<close> is \<open>b_to_q\<close> of one byte, with -1 for a byte not taken.
\<close>

theorem b_to_q_appends:
  assumes "owns st p bs fs cs"
  shows "(\<exists>k st' p'. b_to_q xs p st = (length xs - c_room p bs fs, p', st') \<and>
            owns st' p' (bs @ take k fs) (drop k fs) (cs @ take (c_room p bs fs) xs) \<and>
            same_off (set bs \<union> set fs) st st') \<and>
         putc c p st = (let (n, q, st') = b_to_q [c] p st in (if n = 0 then 0 else -1, q, st'))"
  using b_to_q_correct [OF assms, of xs] putc_b_to_q [OF assms] by blast

lemma b_to_q_appends_witness:
  "fst (b_to_q (replicate 80 7) demo_queue demo_pool) = 1"
  using b_to_q_appends [OF demo_five, of "replicate 80 7" 0]
  by (auto simp: c_room_def demo_queue_def)

text \<open>
  \<open>catq\<close> appends the whole of one queue to another and empties it. Although it ignores
  the count of bytes that \<open>b_to_q\<close> could not take, no byte is ever lost, even when the pool
  has no free block: a round of 112 bytes frees at least the blocks that they need.
\<close>

theorem catq_loses_nothing:
  assumes "owns st from bs fs cs" "owns st to bt fs ct" "set bs \<inter> set bt = {}"
  shows "\<exists>to' st' bt' fs'.
     catq from to st = (\<lparr>c_cc = 0, c_cf = 0, c_cl = 0\<rparr>, to', st') \<and>
     owns st' to' bt' fs' (ct @ cs) \<and> set bt' \<union> set fs' = set bs \<union> set bt \<union> set fs \<and>
     same_off (set bs \<union> set bt \<union> set fs) st st'"
  using assms by (rule catq_correct)

lemma catq_loses_nothing_witness:
  "fst (catq demo_queue \<lparr>c_cc = 0, c_cf = 0, c_cl = 0\<rparr> demo_pool) = \<lparr>c_cc = 0, c_cf = 0, c_cl = 0\<rparr>"
  using catq_loses_nothing [OF demo_five demo_empty] by auto

text \<open>
  \<open>unputc\<close> removes the last byte, finding the block before the last one when the last
  one becomes empty; the walk along the chain ends. The byte is returned as a signed
  character, so that a last byte of 0377 gives the same -1 as an empty queue.
\<close>

theorem unputc_takes_last:
  assumes "owns st p bs fs cs"
  shows "\<exists>r p' st' bs' fs'. unputc p st = Some (r, p', st') \<and>
     owns st' p' bs' fs' (butlast cs) \<and> set bs' \<union> set fs' = set bs \<union> set fs \<and>
     same_off (set bs \<union> set fs) st st' \<and>
     r = (if cs = [] then -1 else sint (last cs)) \<and> (cs \<noteq> [] \<and> last cs = 255 \<longrightarrow> r = -1)"
proof (cases "cs = []")
  case True
  then have "unputc p st = Some (-1, p, st)"
    using assms by (auto simp: unputc_def owns_def clist_rel_def split: if_splits)
  with True assms show ?thesis
    by (intro exI [of _ "-1"] exI [of _ p] exI [of _ st] exI [of _ bs] exI [of _ fs]) simp
next
  case False
  have "sint (255 :: u8) = -1" by simp
  with unputc_correct [OF assms False] False show ?thesis by metis
qed

lemma unputc_takes_last_witness:
  "\<exists>p' st'. unputc demo_queue demo_pool = Some (104, p', st')"
  using unputc_takes_last [OF demo_five] by auto

text \<open>
  Starting from \<^verbatim>\<open>c_cf\<close>, \<open>nextc\<close> visits the addresses of the characters of the queue one
  after the other, across the blocks, and returns NULL after the last one.
\<close>

theorem nextc_walks_queue:
  assumes "owns st p bs fs cs" "cs \<noteq> []" "i < length cs"
  shows "cs ! i = c_char st (addrs (c_cf p) (c_cl p) bs ! i) \<and>
         addrs (c_cf p) (c_cl p) bs ! 0 = c_cf p \<and>
         nextc p (addrs (c_cf p) (c_cl p) bs ! i) st =
           (if Suc i < length cs then addrs (c_cf p) (c_cl p) bs ! Suc i else 0)"
proof -
  from assms obtain b bs' where bs: "bs = b # bs'"
    by (cases bs) (auto simp: owns_def clist_rel_def)
  note d = ownsD [OF assms(1) [unfolded bs], folded bs]
  let ?a = "addrs (c_cf p) (c_cl p) bs"
  have len: "length cs = length ?a" "?a \<noteq> []" using d(3,4) by auto
  have "distinct bs" "c_cc p \<noteq> 0" using d(3,5,7) bs by auto
  from nextc_addrs [OF d(1,2) this(1) refl this(2), of i] hd_addrs [OF d(1) len(2)] len assms(3) d(4)
  show ?thesis by (simp add: hd_conv_nth)
qed

lemma nextc_walks_queue_witness: "nextc demo_queue 100 demo_pool = 101"
  using nextc_walks_queue [OF demo_five, of 0] by (simp add: demo_queue_def upt_rec)

fun clist_run :: "qop list \<Rightarrow> cpool \<times> clist \<Rightarrow> u8 list \<times> u8 list \<times> cpool \<times> clist" where
  "clist_run [] s = ([], [], s)"
| "clist_run (Put c # ops) s =
     (case putc_on c s of (r, s') \<Rightarrow> case clist_run ops s' of (acc, del, s'') \<Rightarrow>
        (if r = 0 then c # acc else acc, del, s''))"
| "clist_run (Get # ops) s =
     (case getc_on s of (r, s') \<Rightarrow> case clist_run ops s' of (acc, del, s'') \<Rightarrow>
        (acc, if r = -1 then del else word_of_int r # del, s''))"

lemma clist_run_eq: "clist_run ops s = byteq.qrun ops s"
  by (induction ops s rule: clist_run.induct) (auto split: prod.splits)

text \<open>
  C10. Every run of \<open>putc\<close> and \<open>getc\<close> on a queue is first in, first out: the bytes it held
  followed by the bytes accepted are the bytes delivered followed by the bytes left.
\<close>

theorem clist_fifo:
  assumes "q_ok s cs" "clist_run ops s = (acc, del, s')"
  shows "\<exists>rest. q_ok s' rest \<and> cs @ acc = del @ rest"
  using byteq.qrun_fifo [OF assms(1)] assms(2) by (simp add: clist_run_eq)

lemma clist_fifo_witness:
  "\<exists>acc del s' rest. clist_run [Put 1, Get, Put 2, Get] (demo_pool, demo_queue) = (acc, del, s') \<and>
     q_ok s' rest \<and> [100, 101, 102, 103, 104] @ acc = del @ rest"
proof -
  obtain acc del s' where r: "clist_run [Put 1, Get, Put 2, Get] (demo_pool, demo_queue) = (acc, del, s')"
    using prod_cases3 by blast
  have "q_ok (demo_pool, demo_queue) [100, 101, 102, 103, 104]"
    using demo_five by (auto simp: q_ok_def)
  from clist_fifo [OF this r] r show ?thesis by blast
qed

end
