(* ===== verification/Proc.thy ===== *)
theory Proc
  imports Callout
begin

text \<open>
  Processes: the process table of sys/include/proc.h and what the other kernel components
  share (the lists of processes, the pid hash, the run queue, the sleep queues and the
  fields of the user area of the running process), the lookups of sys/kernel/kern_proc.c,
  and the life of a table entry in sys/kernel/kern_fork.c (\<^verbatim>\<open>newproc\<close>, \<^verbatim>\<open>fork1\<close>) and
  sys/kernel/kern_exit.c (\<^verbatim>\<open>exit\<close>, \<^verbatim>\<open>wait1\<close>). A pointer into the table is its index; a list
  linked through \<^verbatim>\<open>p_nxt\<close>, \<^verbatim>\<open>p_hash\<close> or \<^verbatim>\<open>p_link\<close> is the list of the indices.
\<close>

section \<open>Error numbers\<close>

abbreviation (input) EPERM :: int where "EPERM \<equiv> 1"
abbreviation (input) ENOENT :: int where "ENOENT \<equiv> 2"
abbreviation (input) ESRCH :: int where "ESRCH \<equiv> 3"
abbreviation (input) EINTR :: int where "EINTR \<equiv> 4"
abbreviation (input) EIO :: int where "EIO \<equiv> 5"
abbreviation (input) ENXIO :: int where "ENXIO \<equiv> 6"
abbreviation (input) EBADF :: int where "EBADF \<equiv> 9"
abbreviation (input) ECHILD :: int where "ECHILD \<equiv> 10"
abbreviation (input) EAGAIN :: int where "EAGAIN \<equiv> 11"
abbreviation (input) ENOMEM :: int where "ENOMEM \<equiv> 12"
abbreviation (input) EACCES :: int where "EACCES \<equiv> 13"
abbreviation (input) EFAULT :: int where "EFAULT \<equiv> 14"
abbreviation (input) ENODEV :: int where "ENODEV \<equiv> 19"
abbreviation (input) EINVAL :: int where "EINVAL \<equiv> 22"
abbreviation (input) ENFILE :: int where "ENFILE \<equiv> 23"
abbreviation (input) EMFILE :: int where "EMFILE \<equiv> 24"
abbreviation (input) ETXTBSY :: int where "ETXTBSY \<equiv> 26"
abbreviation (input) EFBIG :: int where "EFBIG \<equiv> 27"
abbreviation (input) ENOSPC :: int where "ENOSPC \<equiv> 28"
abbreviation (input) EROFS :: int where "EROFS \<equiv> 30"
abbreviation (input) EWOULDBLOCK :: int where "EWOULDBLOCK \<equiv> 35"
abbreviation (input) EOPNOTSUPP :: int where "EOPNOTSUPP \<equiv> 45"
abbreviation (input) ERESTART :: int where "ERESTART \<equiv> -1"

section \<open>The process table\<close>

datatype pstat = SNONE | SSLEEP | SWAIT | SRUN | SIDL | SZOMB | SSTOP

datatype pflag = SLOAD | SSYS | SLOCK | SSWAP | P_TRACED | P_WAITED | P_SINTR
  | SVFORK | SVFPRNT | SVFDONE | P_TIMEOUT | P_NOCLDSTOP | P_SELECT

record k_rusage =
  ru_utime :: u32
  ru_stime :: u32
  ru_nswap :: u32
  ru_inblock :: u32
  ru_oublock :: u32
  ru_msgsnd :: u32
  ru_msgrcv :: u32
  ru_nsignals :: u32
  ru_nvcsw :: u32
  ru_nivcsw :: u32

text \<open>
  The entry of a process. The fields from \<open>p_pri\<close> to \<open>p_link_word\<close> share their storage with
  \<open>p_xstat\<close> and \<open>p_ru\<close> in the source; \<open>zombie_overlay\<close> below says what they hold when
  the exit information has been written over them.
\<close>

record proc =
  p_pptr :: "nat option"
  p_flag :: "pflag set"
  p_uid :: int
  p_pid :: int
  p_ppid :: int
  p_sig :: u32
  p_stat :: pstat
  p_pri :: int
  p_cpu :: u8
  p_time :: int
  p_nice :: int
  p_slptime :: int
  p_ptracesig :: int
  p_sigmask :: u32
  p_sigignore :: u32
  p_sigcatch :: u32
  p_pgrp :: int
  p_addr :: u32
  p_daddr :: u32
  p_saddr :: u32
  p_dsize :: u32
  p_ssize :: u32
  p_wchan :: u32
  it_interval :: int
  it_value :: int
  p_xstat :: int
  p_ru :: k_rusage

record kern =
  procs :: "nat \<Rightarrow> proc"
  allproc :: "nat list"
  zombproc :: "nat list"
  freeproc :: "nat list"
  pidhash :: "nat \<Rightarrow> nat list"
  mpid :: int
  pidchecked :: int
  u_procp :: nat
  u_uid :: int
  u_error :: int
  u_rval :: int
  u_ru :: k_rusage
  u_cru :: k_rusage
  qs :: "nat list"
  slpque :: "nat \<Rightarrow> nat list"
  runrun :: int
  curpri :: int
  runin :: int
  runout :: int
  noproc :: bool
  panicstr :: bool
  callouts :: ctab
  u_sigintr :: u32
  a_lbolt :: u32
  a_runin :: u32
  a_runout :: u32
  a_proc :: "nat \<Rightarrow> u32"
  a_endtsleep :: u32

text \<open>
  \<open>qs\<close> and \<open>slpque\<close> are the run queue and the sleep queues of sys/kernel/kern_synch.c,
  \<open>callouts\<close> the queue of timeouts. The last five fields are addresses that the linker
  assigns: those of \<^verbatim>\<open>lbolt\<close>, \<^verbatim>\<open>runin\<close>, \<^verbatim>\<open>runout\<close>, the entries of the table and the function
  \<^verbatim>\<open>endtsleep\<close>.
\<close>

definition NPROC :: nat where
  "NPROC = 10"

definition PIDHSZ :: nat where
  "PIDHSZ = 16"

text \<open>\<^verbatim>\<open>pid & (PIDHSZ - 1)\<close>, also for a negative \<^verbatim>\<open>pid\<close>.\<close>

definition PIDHASH :: "int \<Rightarrow> nat" where
  "PIDHASH pid = nat (pid mod int PIDHSZ)"

abbreviation updproc :: "nat \<Rightarrow> (proc \<Rightarrow> proc) \<Rightarrow> kern \<Rightarrow> kern" where
  "updproc p f k \<equiv> k\<lparr>procs := (procs k)(p := f (procs k p))\<rparr>"

text \<open>
  \<^verbatim>\<open>p_uid\<close> and \<^verbatim>\<open>p_pgrp\<close> are \<^verbatim>\<open>short\<close>: a value stored in them is cut to 16 bits with its sign, and
  \<^verbatim>\<open>p_uid\<close> is converted to the unsigned \<^verbatim>\<open>uid_t\<close> when it is compared with one.
\<close>

definition short_of :: "int \<Rightarrow> int" where
  "short_of x = sint (word_of_int x :: 16 word)"

definition uid_of :: "proc \<Rightarrow> int" where
  "uid_of x = p_uid x mod 2 ^ 32"

section \<open>Lookups\<close>

definition pfind :: "kern \<Rightarrow> int \<Rightarrow> nat option" where
  "pfind k pid = find (\<lambda>p. p_pid (procs k p) = pid) (pidhash k (PIDHASH pid))"

text \<open>The walk up to the parents; a null parent pointer that is followed is a \<open>Fault\<close>.\<close>

partial_function (option) inferior :: "kern \<Rightarrow> nat \<Rightarrow> bool kres option" where
  "inferior k p =
     (if p = u_procp k then Some (Inr True)
      else if p_ppid (procs k p) = 0 then Some (Inr False)
      else case p_pptr (procs k p) of
             None \<Rightarrow> Some (Inl Fault)
           | Some q \<Rightarrow> inferior k q)"

text \<open>The loop links \<^verbatim>\<open>proc[1]\<close> to \<^verbatim>\<open>proc[NPROC-1]\<close> in their order.\<close>

definition pqinit :: "kern \<Rightarrow> kern" where
  "pqinit k = k\<lparr>freeproc := [1..<NPROC], allproc := [0], zombproc := []\<rparr>"

section \<open>A new process\<close>

text \<open>
  The scan of \<^verbatim>\<open>newproc\<close> over a list of processes with \<^verbatim>\<open>mpid\<close> and \<^verbatim>\<open>pidchecked\<close>; the Boolean
  tells that it went to \<^verbatim>\<open>retry\<close>.
\<close>

fun pid_scan :: "proc list \<Rightarrow> int \<Rightarrow> int \<Rightarrow> int \<times> int \<times> bool" where
  "pid_scan [] m c = (m, c, False)"
| "pid_scan (p # ps) m c =
     (let used = (p_pid p = m \<or> p_pgrp p = m);
          m' = (if used then m + 1 else m) in
      if used \<and> m' \<ge> c then (m', c, True)
      else
        let c1 = (if p_pid p > m' \<and> c > p_pid p then p_pid p else c);
            c2 = (if p_pgrp p > m' \<and> c1 > p_pgrp p then p_pgrp p else c1) in
        pid_scan ps m' c2)"

partial_function (option) pid_retry :: "proc list \<Rightarrow> int \<Rightarrow> int \<Rightarrow> (int \<times> int) option" where
  "pid_retry ps m c =
     (let m1 = (if m \<ge> 30000 then 100 else m);
          c1 = (if m \<ge> 30000 then 0 else c) in
      if m1 \<ge> c1 then
        (case pid_scan ps m1 30000 of
           (m2, c2, again) \<Rightarrow> if again then pid_retry ps m2 c2 else Some (m2, c2))
      else Some (m1, c1))"

text \<open>
  \<^verbatim>\<open>newproc\<close> up to the copy of the image: the pid, the slot, the fields copied from the
  parent, the hash chain and \<^verbatim>\<open>allproc\<close>. The result is the new process.
\<close>

definition newproc_slot :: "kern \<Rightarrow> (nat \<times> kern) kres option" where
  "newproc_slot k =
     map_option (\<lambda>(m, c).
       let k1 = k\<lparr>mpid := m, pidchecked := c\<rparr> in
       case freeproc k1 of
         [] \<Rightarrow> Inl (Panic ''no procs'')
       | child # fr \<Rightarrow>
           let parent = procs k1 (u_procp k1);
               old = procs k1 child;
               new = old\<lparr>p_stat := SIDL, it_value := 0, p_flag := {SLOAD},
                 p_uid := p_uid parent, p_pgrp := p_pgrp parent, p_nice := p_nice parent,
                 p_pid := m, p_ppid := p_pid parent, p_pptr := Some (u_procp k1),
                 p_time := 0, p_cpu := 0, p_sigmask := p_sigmask parent,
                 p_sigcatch := p_sigcatch parent, p_sigignore := p_sigignore parent,
                 p_wchan := 0, p_slptime := 0\<rparr>;
               h = PIDHASH m in
           Inr (child, k1\<lparr>procs := (procs k1)(child := new), freeproc := fr,
             pidhash := (pidhash k1)(h := child # pidhash k1 h),
             allproc := child # allproc k1\<rparr>))
     (pid_retry (map (procs k) (allproc k @ zombproc k)) (mpid k + 1) (pidchecked k))"

definition MAXUPRC :: nat where
  "MAXUPRC = 20"

text \<open>\<^verbatim>\<open>fork1\<close> in the parent: the limits, then \<^verbatim>\<open>newproc\<close>.\<close>

definition fork1 :: "kern \<Rightarrow> kern kres option" where
  "fork1 k =
     (let a = (if u_uid k \<noteq> 0
               then length (filter (\<lambda>p. uid_of (procs k p) = u_uid k) (allproc k)) +
                    length (filter (\<lambda>p. uid_of (procs k p) = u_uid k) (zombproc k))
               else 0) in
      if freeproc k = [] \<or> u_uid k \<noteq> 0 \<and> (tl (freeproc k) = [] \<or> a > MAXUPRC) then
        Some (Inr (k\<lparr>u_error := EAGAIN\<rparr>))
      else map_option (\<lambda>r. kbind r (\<lambda>(child, k1).
             Inr (k1\<lparr>u_rval := p_pid (procs k1 child)\<rparr>))) (newproc_slot k))"

section \<open>The end of a process\<close>

text \<open>
  The union of proc.h: writing \<^verbatim>\<open>p_xstat\<close> and \<^verbatim>\<open>p_ru\<close> overwrites the bytes 0 to 43 of
  \<^verbatim>\<open>p_alive\<close>, field by field at the same offsets (little endian, \<^verbatim>\<open>p_pgrp\<close> being the low
  half of the word of \<^verbatim>\<open>ru_msgsnd\<close>).
\<close>

definition zombie_overlay :: "int \<Rightarrow> k_rusage \<Rightarrow> proc \<Rightarrow> proc" where
  "zombie_overlay xs ru p =
     p\<lparr>p_xstat := xs, p_ru := ru,
       p_pri := signed_take_bit 7 xs,
       p_cpu := word_of_int (xs div 256),
       p_time := signed_take_bit 7 (xs div 65536),
       p_nice := signed_take_bit 7 (xs div 16777216),
       p_slptime := sint (ucast (ru_utime ru) :: u8),
       p_ptracesig := sint (ucast (drop_bit 8 (ru_utime ru)) :: u8),
       p_sigmask := ru_nswap ru, p_sigignore := ru_inblock ru, p_sigcatch := ru_oublock ru,
       p_pgrp := sint (ucast (ru_msgsnd ru) :: 16 word),
       p_addr := ru_nsignals ru, p_daddr := ru_nvcsw ru, p_saddr := ru_nivcsw ru\<rparr>"

definition ruadd :: "k_rusage \<Rightarrow> k_rusage \<Rightarrow> k_rusage" where
  "ruadd r s = \<lparr>ru_utime = ru_utime r + ru_utime s, ru_stime = ru_stime r + ru_stime s,
     ru_nswap = ru_nswap r + ru_nswap s, ru_inblock = ru_inblock r + ru_inblock s,
     ru_oublock = ru_oublock r + ru_oublock s, ru_msgsnd = ru_msgsnd r + ru_msgsnd s,
     ru_msgrcv = ru_msgrcv r + ru_msgrcv s, ru_nsignals = ru_nsignals r + ru_nsignals s,
     ru_nvcsw = ru_nvcsw r + ru_nvcsw s, ru_nivcsw = ru_nivcsw r + ru_nivcsw s\<rparr>"

text \<open>
  The part of \<^verbatim>\<open>exit\<close> that turns the entry of the running process into a zombie: off
  \<^verbatim>\<open>allproc\<close>, onto \<^verbatim>\<open>zombproc\<close>, out of its hash chain, and the exit information.
\<close>

definition exit_zombie :: "int \<Rightarrow> kern \<Rightarrow> kern kres" where
  "exit_zombie rv k =
     (let p = u_procp k; h = PIDHASH (p_pid (procs k p)) in
      if p_pid (procs k p) = 1 then Inl (Panic ''init died'')
      else
        let k1 = updproc p (\<lambda>x. x\<lparr>p_stat := SZOMB\<rparr>)
                   (k\<lparr>allproc := remove1 p (allproc k), zombproc := p # zombproc k, noproc := True\<rparr>) in
        if p \<notin> set (pidhash k h) then Inl (Panic ''exit'')
        else Inr (updproc p (zombie_overlay rv (ruadd (u_ru k) (u_cru k)))
               (k1\<lparr>pidhash := (pidhash k1)(h := remove1 p (pidhash k1 h))\<rparr>)))"

text \<open>
  \<^verbatim>\<open>wait1\<close>: the arguments, the choice of a child, and one pass of the loop, which either
  answers or says that the caller sleeps. \<open>cpout\<close> gives the results of \<^verbatim>\<open>copyout\<close> for the
  status and for the usage.
\<close>

record wargs =
  w_pid :: int
  w_status :: bool
  w_untraced :: bool
  w_nohang :: bool
  w_rusage :: bool

datatype wait_res = WSleep | WRet int int int kern

definition wait_match :: "nat \<Rightarrow> wargs \<Rightarrow> proc \<Rightarrow> bool" where
  "wait_match q a p \<longleftrightarrow>
     p_pptr p = Some q \<and> \<not> (w_pid a \<noteq> -1 \<and> p_pid p \<noteq> w_pid a \<and> p_pgrp p \<noteq> - w_pid a)"

definition wait_reap :: "nat \<Rightarrow> kern \<Rightarrow> kern" where
  "wait_reap p k =
     updproc p (\<lambda>x. x\<lparr>p_xstat := 0, p_stat := SNONE, p_pid := 0, p_ppid := 0, p_pptr := None,
         p_sig := 0, p_sigcatch := 0, p_sigignore := 0, p_sigmask := 0, p_pgrp := 0,
         p_flag := {}, p_wchan := 0\<rparr>)
       (k\<lparr>u_cru := ruadd (u_cru k) (p_ru (procs k p)), zombproc := remove1 p (zombproc k),
          freeproc := p # freeproc k\<rparr>)"

definition wait_args :: "nat \<Rightarrow> wargs \<Rightarrow> kern \<Rightarrow> wargs" where
  "wait_args q a k = (if w_pid a = 0 then a\<lparr>w_pid := - p_pgrp (procs k q)\<rparr> else a)"

definition wait_pass :: "(nat \<Rightarrow> int) \<Rightarrow> nat \<Rightarrow> wargs \<Rightarrow> kern \<Rightarrow> wait_res" where
  "wait_pass cpout q a k =
     (case find (\<lambda>p. wait_match q a (procs k p)) (zombproc k) of
        Some p \<Rightarrow>
          if w_status a \<and> cpout 0 \<noteq> 0 then
            WRet (cpout 0) (p_pid (procs k p)) (p_xstat (procs k p)) k
          else if w_rusage a \<and> cpout 1 \<noteq> 0 then
            WRet (cpout 1) (p_pid (procs k p)) (p_xstat (procs k p)) k
          else WRet 0 (p_pid (procs k p)) (p_xstat (procs k p)) (wait_reap p k)
      | None \<Rightarrow>
          (let kids = filter (\<lambda>p. wait_match q a (procs k p)) (allproc k) in
           case find (\<lambda>p. p_stat (procs k p) = SSTOP \<and> P_WAITED \<notin> p_flag (procs k p) \<and>
                       (P_TRACED \<in> p_flag (procs k p) \<or> w_untraced a)) kids of
             Some p \<Rightarrow>
               WRet (if w_status a then cpout 0 else 0) (p_pid (procs k p)) 0
                 (updproc p (\<lambda>x. x\<lparr>p_flag := insert P_WAITED (p_flag x)\<rparr>) k)
           | None \<Rightarrow>
               if kids = [] then WRet ECHILD 0 0 k
               else if w_nohang a then WRet 0 0 0 k
               else WSleep))"

section \<open>Fresh process ids\<close>

definition pid_used :: "proc \<Rightarrow> int \<Rightarrow> bool" where
  "pid_used p x \<longleftrightarrow> p_pid p = x \<or> p_pgrp p = x"

text \<open>No process uses a number from \<open>m\<close> up to, but not including, \<open>c\<close>.\<close>

definition pid_gap :: "proc set \<Rightarrow> int \<Rightarrow> int \<Rightarrow> bool" where
  "pid_gap P m c \<longleftrightarrow> (\<forall>p\<in>P. \<forall>x. pid_used p x \<longrightarrow> x < m \<or> c \<le> x)"

text \<open>
  The scan looks at a process once: after it has stepped over one number of a process it does
  not see that the other one comes next. \<open>stepped_onto p x\<close>: the pid and the group of \<open>p\<close> are \<open>x - 1\<close>
  and \<open>x\<close>.
\<close>

definition stepped_onto :: "proc \<Rightarrow> int \<Rightarrow> bool" where
  "stepped_onto p x \<longleftrightarrow> p_pid p = x \<and> p_pgrp p = x - 1 \<or> p_pgrp p = x \<and> p_pid p = x - 1"

text \<open>A gap but for such a process at its first number.\<close>

definition pid_gap1 :: "proc set \<Rightarrow> int \<Rightarrow> int \<Rightarrow> bool" where
  "pid_gap1 P m c \<longleftrightarrow> (\<forall>p\<in>P. \<forall>x. pid_used p x \<longrightarrow> x < m \<or> c \<le> x \<or> x = m \<and> stepped_onto p x)"

lemma pid_gap1: "pid_gap P m c \<Longrightarrow> pid_gap1 P m c" "pid_gap1 P m c \<Longrightarrow> pid_gap P (m + 1) c"
proof -
  show "pid_gap P m c \<Longrightarrow> pid_gap1 P m c" unfolding pid_gap_def pid_gap1_def by blast
  assume g: "pid_gap1 P m c"
  have "x < m + 1 \<or> c \<le> x" if "p \<in> P" "pid_used p x" for p x
    using g that zless_add1_eq [of x m] unfolding pid_gap1_def by blast
  then show "pid_gap P (m + 1) c" unfolding pid_gap_def by blast
qed

lemma pid_scan_ge: "pid_scan ps m c = (m', c', again) \<Longrightarrow> m \<le> m'"
  by (induction ps arbitrary: m c) (fastforce simp: Let_def split: if_splits)+

lemma pid_scan_again: "pid_scan ps m c = (m', c', True) \<Longrightarrow> m < m'"
proof (induction ps arbitrary: m c)
  case (Cons p ps)
  then show ?case
    using pid_scan_ge [of ps] by (fastforce simp: Let_def split: if_splits)
qed simp

lemma pid_scan_stop:
  "pid_scan ps m c = (m', c', again) \<Longrightarrow> m \<le> x \<Longrightarrow> \<forall>p\<in>set ps. \<not> pid_used p x \<Longrightarrow> m' \<le> x"
proof (induction ps arbitrary: m c)
  case (Cons p ps)
  have "p_pid p \<noteq> x" "p_pgrp p \<noteq> x" using Cons.prems(3) by (auto simp: pid_used_def)
  with Cons show ?case by (fastforce simp: Let_def split: if_splits)
qed simp

lemma pid_scan_gap:
  "pid_scan ps m c = (m', c', False) \<Longrightarrow> m < c \<Longrightarrow> pid_gap1 P m c \<Longrightarrow>
   pid_gap1 (P \<union> set ps) m' c' \<and> m' < c' \<and> c' \<le> c"
proof (induction ps arbitrary: m c P)
  case (Cons p ps)
  define used where "used = (p_pid p = m \<or> p_pgrp p = m)"
  define m1 where "m1 = (if used then m + 1 else m)"
  define c1 where "c1 = (if p_pid p > m1 \<and> c > p_pid p then p_pid p else c)"
  define c2 where "c2 = (if p_pgrp p > m1 \<and> c1 > p_pgrp p then p_pgrp p else c1)"
  have ok: "\<not> (used \<and> m1 \<ge> c)" and rec: "pid_scan ps m1 c2 = (m', c', False)"
    using Cons.prems(1)
    by (auto simp: used_def [symmetric] m1_def [symmetric] c1_def [symmetric] c2_def [symmetric]
        Let_def split: if_splits)
  have m1c: "m1 < c" using ok Cons.prems(2) by (auto simp: m1_def)
  then have lt: "m1 < c2" "c2 \<le> c" by (auto simp: c1_def c2_def)
  have "pid_gap1 (insert p P) m1 c2"
    unfolding pid_gap1_def
  proof (intro ballI allI impI)
    fix q x assume q: "q \<in> insert p P" "pid_used q x"
    show "x < m1 \<or> c2 \<le> x \<or> x = m1 \<and> stepped_onto q x"
    proof (cases "q = p")
      case True
      have x: "x = p_pid p \<or> x = p_pgrp p" using q(2) True by (auto simp: pid_used_def)
      have hi: "c2 \<le> x" if "m1 < x"
        using x that by (elim disjE) (simp_all add: c1_def c2_def)
      have at: "stepped_onto p x" if "x = m1"
        using x that unfolding m1_def used_def stepped_onto_def by (cases "p_pid p = m \<or> p_pgrp p = m") auto
      from hi at True show ?thesis by (cases x m1 rule: linorder_cases) simp_all
    next
      case False
      with q Cons.prems(3) have "x < m \<or> c \<le> x \<or> x = m \<and> stepped_onto q x" by (auto simp: pid_gap1_def)
      with lt show ?thesis by (auto simp: m1_def split: if_splits)
    qed
  qed
  from Cons.IH [OF rec lt(1) this] lt(2) show ?case by auto
qed simp

lemma pid_retry_below:
  assumes x: "100 \<le> x" "x < 30000" "\<forall>p\<in>set ps. \<not> pid_used p x"
  shows "m \<le> x \<Longrightarrow> \<exists>r. pid_retry ps m c = Some r"
proof (induction "nat (x - m)" arbitrary: m c rule: less_induct)
  case less
  obtain m2 c2 again where s: "pid_scan ps m 30000 = (m2, c2, again)" using prod_cases3 by blast
  have "\<not> 30000 \<le> m" using less.prems x by simp
  show ?case
  proof (cases "m \<ge> c \<and> again")
    case False
    then show ?thesis
      using s \<open>\<not> 30000 \<le> m\<close> by (subst pid_retry.simps) (auto simp: Let_def)
  next
    case True
    then have "m < m2" "m2 \<le> x" using pid_scan_again [of ps m 30000] pid_scan_stop [OF s less.prems x(3)] s by auto
    with less.hyps [of m2 c2] obtain r where "pid_retry ps m2 c2 = Some r" by auto
    with True s \<open>\<not> 30000 \<le> m\<close> show ?thesis by (subst pid_retry.simps) (auto simp: Let_def)
  qed
qed

lemma pid_retry_total:
  assumes x: "100 \<le> x" "x < 30000" "\<forall>p\<in>set ps. \<not> pid_used p x"
  shows "\<exists>r. pid_retry ps m c = Some r"
proof -
  have wrap: "\<exists>r. pid_retry ps m c = Some r" if "m \<ge> 30000" for m c
  proof -
    have "pid_retry ps m c = pid_retry ps 100 0"
      using that by (subst (1 2) pid_retry.simps) (simp add: Let_def)
    with pid_retry_below [OF x, of 100 0] x(1) show ?thesis by simp
  qed
  have "\<exists>r. pid_retry ps m c = Some r"
  proof (induction "nat (30000 - m)" arbitrary: m c rule: less_induct)
    case less
    show ?case
    proof (cases "m \<ge> 30000")
      case False
      obtain m2 c2 again where s: "pid_scan ps m 30000 = (m2, c2, again)" using prod_cases3 by blast
      show ?thesis
      proof (cases "m \<ge> c \<and> again")
        case T: True
        then have "m < m2" using pid_scan_again [of ps m 30000] s by auto
        with less.hyps [of m2 c2] False obtain r where "pid_retry ps m2 c2 = Some r" by auto
        with T s False show ?thesis by (subst pid_retry.simps) (auto simp: Let_def)
      next
        case F: False
        then show ?thesis using s False by (subst pid_retry.simps) (auto simp: Let_def)
      qed
    qed (rule wrap)
  qed
  then show ?thesis .
qed

lemma pid_scan_again_ge: "pid_scan ps m c = (m', c', True) \<Longrightarrow> c' \<le> m' \<and> c' \<le> c"
  by (induction ps arbitrary: m c) (fastforce simp: Let_def split: if_splits)+

definition pid_result :: "proc list \<Rightarrow> int \<Rightarrow> int \<Rightarrow> int \<times> int \<Rightarrow> bool" where
  "pid_result ps m c r \<longleftrightarrow>
     c \<le> m \<or> pid_gap (set ps) m c \<longrightarrow> 0 < m \<longrightarrow> c \<le> 30000 \<longrightarrow>
     pid_gap1 (set ps) (fst r) (snd r) \<and> fst r < snd r \<and> snd r \<le> 30000 \<and> 0 < fst r"

lemma pid_retry_result:
  assumes "pid_retry ps m c = Some r"
  shows "pid_result ps m c r"
proof (rule pid_retry.raw_induct [where P = pid_result, OF _ assms], goal_cases)
  case (1 f ps m c r)
  define m1 where "m1 = (if m \<ge> 30000 then 100 else m)"
  define c1 where "c1 = (if m \<ge> 30000 then 0 else c)"
  obtain m2 c2 again where s: "pid_scan ps m1 30000 = (m2, c2, again)" using prod_cases3 by blast
  have body: "(if m1 \<ge> c1 then (if again then f ps m2 c2 else Some (m2, c2)) else Some (m1, c1)) = Some r"
    using 1(2) by (auto simp: Let_def m1_def [symmetric] c1_def [symmetric] s split: if_splits)
  have m1: "m1 < 30000" by (simp add: m1_def)
  show ?case
    unfolding pid_result_def
  proof (intro impI)
    assume g: "c \<le> m \<or> pid_gap (set ps) m c"
      and pos: "0 < m" and c: "c \<le> 30000"
    have pos1: "0 < m1" using pos by (simp add: m1_def)
    show "pid_gap1 (set ps) (fst r) (snd r) \<and> fst r < snd r \<and> snd r \<le> 30000 \<and> 0 < fst r"
    proof (cases "m1 \<ge> c1")
      case True
      show ?thesis
      proof (cases again)
        case a: True
        have sa: "pid_scan ps m1 30000 = (m2, c2, True)" using s a by simp
        note ge = pid_scan_again_ge [OF sa] and lt = pid_scan_again [OF sa]
        from body True a have "f ps m2 c2 = Some r" by simp
        with 1(1) have "pid_result ps m2 c2 r" by blast
        with ge lt pos1 c show ?thesis by (auto simp: pid_result_def)
      next
        case False
        then have "r = (m2, c2)" using body True by simp
        with pid_scan_gap [of ps m1 30000 m2 c2 "{}"] s False m1 pid_scan_ge [OF s] pos1
        show ?thesis by (simp add: pid_gap1_def)
      qed
    next
      case False
      then have "m < 30000" using pos by (auto simp: m1_def c1_def split: if_splits)
      with False body g pos c show ?thesis by (auto simp: m1_def c1_def intro: pid_gap1(1))
    qed
  qed
qed

section \<open>The lists of processes\<close>

text \<open>
  Every entry of the table is on exactly one of the three lists, the hash chains hold the
  processes of \<open>allproc\<close> other than process 0, and no two processes, dead or alive, have the
  same pid.
\<close>

definition procs_ok :: "kern \<Rightarrow> bool" where
  "procs_ok k \<longleftrightarrow>
     distinct (allproc k @ zombproc k @ freeproc k) \<and>
     set (allproc k @ zombproc k @ freeproc k) = {..<NPROC} \<and>
     inj_on (\<lambda>p. p_pid (procs k p)) (set (allproc k @ zombproc k)) \<and>
     (\<forall>h. distinct (pidhash k h) \<and>
        set (pidhash k h) = {p \<in> set (allproc k). p_pid (procs k p) \<noteq> 0 \<and> PIDHASH (p_pid (procs k p)) = h})"

lemma procs_okD:
  assumes "procs_ok k"
  shows "distinct (allproc k)" "distinct (zombproc k)" "distinct (freeproc k)"
    "set (allproc k) \<inter> set (zombproc k) = {}" "set (allproc k) \<inter> set (freeproc k) = {}"
    "set (zombproc k) \<inter> set (freeproc k) = {}"
    "set (allproc k) \<union> set (zombproc k) \<union> set (freeproc k) = {..<NPROC}"
    "inj_on (\<lambda>p. p_pid (procs k p)) (set (allproc k) \<union> set (zombproc k))"
    "distinct (pidhash k h)"
    "set (pidhash k h) = {p \<in> set (allproc k). p_pid (procs k p) \<noteq> 0 \<and> PIDHASH (p_pid (procs k p)) = h}"
  using assms by (auto simp: procs_ok_def)

lemma pfind_iff:
  assumes "procs_ok k" "pid \<noteq> 0"
  shows "pfind k pid = Some p \<longleftrightarrow> p \<in> set (allproc k) \<and> p_pid (procs k p) = pid"
proof -
  note d = procs_okD [OF assms(1)]
  have uniq: "q = p" if "q \<in> set (allproc k)" "p \<in> set (allproc k)"
    "p_pid (procs k q) = pid" "p_pid (procs k p) = pid" for p q
    using inj_onD [OF d(8), of q p] that by simp
  show ?thesis
  proof
    assume "pfind k pid = Some p"
    then show "p \<in> set (allproc k) \<and> p_pid (procs k p) = pid"
      using d(10) [of "PIDHASH pid"] by (auto simp: pfind_def find_Some_iff)
  next
    assume p: "p \<in> set (allproc k) \<and> p_pid (procs k p) = pid"
    then have "p \<in> set (pidhash k (PIDHASH pid))" using d(10) assms(2) by auto
    with p have "pfind k pid \<noteq> None" by (auto simp: pfind_def find_None_iff)
    then obtain q where q: "pfind k pid = Some q" by auto
    then have "q \<in> set (allproc k) \<and> p_pid (procs k q) = pid"
      using d(10) [of "PIDHASH pid"] by (auto simp: pfind_def find_Some_iff)
    with uniq p q show "pfind k pid = Some p" by auto
  qed
qed

lemma newproc_slot_ok:
  assumes ok: "procs_ok k" and n: "newproc_slot k = Some (Inr (child, k'))"
    and fresh: "\<forall>p\<in>set (allproc k @ zombproc k). p_pid (procs k p) \<noteq> mpid k'" "mpid k' \<noteq> 0"
  shows "procs_ok k'" "freeproc k = child # freeproc k'" "p_pid (procs k' child) = mpid k'"
    "allproc k' = child # allproc k" "zombproc k' = zombproc k"
    "\<forall>p. p \<noteq> child \<longrightarrow> procs k' p = procs k p"
proof -
  obtain m fr where f: "freeproc k = child # fr" and
    k': "mpid k' = m" "allproc k' = child # allproc k" "zombproc k' = zombproc k" "freeproc k' = fr"
      "pidhash k' = (pidhash k)(PIDHASH m := child # pidhash k (PIDHASH m))" "u_procp k' = u_procp k"
      "p_pid (procs k' child) = m" "\<forall>p. p \<noteq> child \<longrightarrow> procs k' p = procs k p"
  proof -
    from n obtain m c where r: "pid_retry (map (procs k) (allproc k @ zombproc k)) (mpid k + 1) (pidchecked k) = Some (m, c)"
      by (auto simp: newproc_slot_def)
    from n have "freeproc k \<noteq> []" unfolding newproc_slot_def r by (simp add: Let_def split: list.splits)
    then obtain ch fr where f: "freeproc k = ch # fr" by (cases "freeproc k") auto
    from n have "ch = child" unfolding newproc_slot_def r by (simp add: Let_def f)
    with n f show ?thesis
      unfolding newproc_slot_def r by (intro that [of fr m]) (simp_all add: Let_def f, auto)
  qed
  note d = procs_okD [OF ok]
  have nc: "child \<notin> set (allproc k)" "child \<notin> set (zombproc k)" "child \<notin> set fr"
    using d(3,5,6) f by auto
  have same: "procs k' p = procs k p" if "p \<in> set (allproc k) \<union> set (zombproc k)" for p
    using that nc k'(8) by auto
  have "inj_on (\<lambda>p. p_pid (procs k' p)) (set (allproc k) \<union> set (zombproc k))"
    using d(8) by (simp add: inj_on_def same)
  then have inj: "inj_on (\<lambda>p. p_pid (procs k' p)) (set (allproc k' @ zombproc k'))"
    using fresh(1) k'(1,2,3,7) nc by (auto simp: same)
  have "distinct (allproc k' @ zombproc k' @ freeproc k')"
    "set (allproc k' @ zombproc k' @ freeproc k') = {..<NPROC}"
    using d(1-7) f k'(2,3,4) nc by auto
  moreover have "distinct (pidhash k' h) \<and> set (pidhash k' h) =
      {p \<in> set (allproc k'). p_pid (procs k' p) \<noteq> 0 \<and> PIDHASH (p_pid (procs k' p)) = h}" for h
  proof -
    have hs: "set (pidhash k h) \<subseteq> set (allproc k)" using d(10) by auto
    let ?Q = "\<lambda>p. p_pid (procs k' p) \<noteq> 0 \<and> PIDHASH (p_pid (procs k' p)) = h"
    have "{p \<in> set (allproc k). ?Q p} = set (pidhash k h)"
      unfolding d(10) by (rule Collect_cong) (use same in auto)
    moreover have "?Q child \<longleftrightarrow> PIDHASH m = h" using k'(1,7) fresh(2) by simp
    ultimately have "{p \<in> set (allproc k'). ?Q p} = (if PIDHASH m = h then {child} else {}) \<union> set (pidhash k h)"
      unfolding k'(2) by (simp add: Collect_conj_eq insert_Collect) blast
    moreover have "child \<notin> set (pidhash k h)" using hs nc(1) by blast
    ultimately show ?thesis using d(9) [of h] k'(5) by auto
  qed
  ultimately show "procs_ok k'"
    using inj by (simp add: procs_ok_def)
  show "freeproc k = child # freeproc k'" "p_pid (procs k' child) = mpid k'"
    "allproc k' = child # allproc k" "zombproc k' = zombproc k"
    "\<forall>p. p \<noteq> child \<longrightarrow> procs k' p = procs k p"
    using f k' by auto
qed

lemma exit_zombie_ok:
  assumes ok: "procs_ok k" and run: "u_procp k \<in> set (allproc k)"
    and pid: "p_pid (procs k (u_procp k)) \<noteq> 0" "p_pid (procs k (u_procp k)) \<noteq> 1"
  shows "\<exists>k'. exit_zombie rv k = Inr k' \<and> procs_ok k' \<and> zombproc k' = u_procp k # zombproc k \<and>
     allproc k' = remove1 (u_procp k) (allproc k) \<and>
     procs k' (u_procp k) = zombie_overlay rv (ruadd (u_ru k) (u_cru k))
        ((procs k (u_procp k))\<lparr>p_stat := SZOMB\<rparr>) \<and>
     (\<forall>p. p \<noteq> u_procp k \<longrightarrow> procs k' p = procs k p)"
proof -
  define p where "p = u_procp k"
  define h where "h = PIDHASH (p_pid (procs k p))"
  note d = procs_okD [OF ok]
  have mem: "p \<in> set (pidhash k h)" using d(10) [of h] run pid(1) by (simp add: p_def h_def)
  let ?z = "zombie_overlay rv (ruadd (u_ru k) (u_cru k)) ((procs k p)\<lparr>p_stat := SZOMB\<rparr>)"
  let ?k = "k\<lparr>allproc := remove1 p (allproc k), zombproc := p # zombproc k, noproc := True,
      procs := (procs k)(p := ?z), pidhash := (pidhash k)(h := remove1 p (pidhash k h))\<rparr>"
  have e: "exit_zombie rv k = Inr ?k"
    using pid(2) mem by (simp add: exit_zombie_def Let_def p_def [symmetric] h_def [symmetric])
  have pz: "p_pid ?z = p_pid (procs k p)" by (simp add: zombie_overlay_def)
  then have pids: "p_pid (procs ?k q) = p_pid (procs k q)" for q by simp
  have pin: "p \<in> set (allproc k)" using run by (simp add: p_def)
  have "procs_ok ?k"
    unfolding procs_ok_def pids
  proof (intro conjI allI)
    show "distinct (allproc ?k @ zombproc ?k @ freeproc ?k)"
      using d(1-6) pin by (auto simp: disjoint_iff)
    show "set (allproc ?k @ zombproc ?k @ freeproc ?k) = {..<NPROC}"
      using d(1,7) pin by auto
    show "inj_on (\<lambda>p. p_pid (procs k p)) (set (allproc ?k @ zombproc ?k))"
      by (rule inj_on_subset [OF d(8)]) (use d(1) pin in auto)
    fix g
    show "distinct (pidhash ?k g)" using d(9) by simp
    show "set (pidhash ?k g) = {q \<in> set (allproc ?k). p_pid (procs k q) \<noteq> 0 \<and> PIDHASH (p_pid (procs k q)) = g}"
      using d(1,9,10) by (auto simp: h_def)
  qed
  with e show ?thesis unfolding p_def by auto
qed

lemma wait_reap_ok:
  assumes ok: "procs_ok k" and p: "p \<in> set (zombproc k)"
  shows "procs_ok (wait_reap p k)"
proof -
  note d = procs_okD [OF ok]
  have na: "p \<notin> set (allproc k)" "p \<notin> set (freeproc k)" using d(4,6) p by auto
  have same: "procs (wait_reap p k) q = procs k q" if "q \<noteq> p" for q
    using that by (simp add: wait_reap_def)
  have lists: "allproc (wait_reap p k) = allproc k" "zombproc (wait_reap p k) = remove1 p (zombproc k)"
    "freeproc (wait_reap p k) = p # freeproc k" "pidhash (wait_reap p k) = pidhash k"
    by (simp_all add: wait_reap_def)
  show ?thesis
    unfolding procs_ok_def lists
  proof (intro conjI allI)
    show "distinct (allproc k @ remove1 p (zombproc k) @ p # freeproc k)"
      using d(1-6) na by (auto simp: disjoint_iff)
    show "set (allproc k @ remove1 p (zombproc k) @ p # freeproc k) = {..<NPROC}"
      using d(2,7) p by auto
    have "inj_on (\<lambda>q. p_pid (procs k q)) (set (allproc k @ remove1 p (zombproc k)))"
      by (rule inj_on_subset [OF d(8)]) (use d(2) in auto)
    moreover have "p \<notin> set (allproc k @ remove1 p (zombproc k))" using na d(2) by simp
    ultimately show "inj_on (\<lambda>q. p_pid (procs (wait_reap p k) q)) (set (allproc k @ remove1 p (zombproc k)))"
      using same by (metis (no_types, lifting) inj_on_cong)
    fix h
    show "distinct (pidhash k h)" by (rule d(9))
    show "set (pidhash k h) = {q \<in> set (allproc k). p_pid (procs (wait_reap p k) q) \<noteq> 0 \<and>
        PIDHASH (p_pid (procs (wait_reap p k) q)) = h}"
      unfolding d(10) by (rule Collect_cong) (metis same na(1))
  qed
qed

lemma free_number:
  assumes "length ps < 14000"
  shows "\<exists>x. 100 \<le> x \<and> x < 30000 \<and> (\<forall>p\<in>set ps. \<not> pid_used p x)"
proof -
  let ?U = "p_pid ` set ps \<union> p_pgrp ` set ps"
  have "card ?U \<le> card (p_pid ` set ps) + card (p_pgrp ` set ps)" by (rule card_Un_le)
  also have "\<dots> \<le> card (set ps) + card (set ps)" by (intro add_mono card_image_le) auto
  also have "\<dots> < 28000" using assms card_length [of ps] by linarith
  finally have "card ?U < card {100..<30000::int}" by simp
  then have "\<not> {100..<30000} \<subseteq> ?U" using card_mono [of ?U "{100..<30000}"] by (auto simp: not_le)
  then show ?thesis by (force simp: pid_used_def)
qed

text \<open>What \<open>newproc_slot\<close> does with the number that was found.\<close>

lemma newproc_slot_eff:
  assumes r: "pid_retry (map (procs k) (allproc k @ zombproc k)) (mpid k + 1) (pidchecked k) = Some (m, c)"
    and f: "freeproc k = child # fr"
  obtains k' where "newproc_slot k = Some (Inr (child, k'))" "mpid k' = m" "pidchecked k' = c" "freeproc k' = fr"
    "allproc k' = child # allproc k" "zombproc k' = zombproc k" "p_pid (procs k' child) = m"
    "p_pgrp (procs k' child) = p_pgrp (procs k (u_procp k))" "\<forall>p. p \<noteq> child \<longrightarrow> procs k' p = procs k p"
proof -
  have "\<exists>k'. newproc_slot k = Some (Inr (child, k')) \<and> mpid k' = m \<and> pidchecked k' = c \<and> freeproc k' = fr \<and>
      allproc k' = child # allproc k \<and> zombproc k' = zombproc k \<and> p_pid (procs k' child) = m \<and>
      p_pgrp (procs k' child) = p_pgrp (procs k (u_procp k)) \<and> (\<forall>p. p \<noteq> child \<longrightarrow> procs k' p = procs k p)"
    unfolding newproc_slot_def r by (simp add: Let_def f)
  then show thesis using that by blast
qed

text \<open>The scan passes over processes that use no number from \<open>m\<close> to \<open>b\<close>.\<close>

lemma pid_scan_pass:
  assumes "\<forall>q\<in>set us. \<forall>x. pid_used q x \<longrightarrow> x < m \<or> b < x" "m \<le> b" "b < c"
  shows "\<exists>c1. b < c1 \<and> (\<forall>ys. pid_scan (us @ ys) m c = pid_scan ys m c1)"
  using assms
proof (induction us arbitrary: c)
  case (Cons q us)
  have q: "p_pid q < m \<or> b < p_pid q" "p_pgrp q < m \<or> b < p_pgrp q" using Cons.prems(1) by (auto simp: pid_used_def)
  define c1 where "c1 = (if p_pid q > m \<and> c > p_pid q then p_pid q else c)"
  define c2 where "c2 = (if p_pgrp q > m \<and> c1 > p_pgrp q then p_pgrp q else c1)"
  have "b < c2" using q Cons.prems(2,3) by (auto simp: c1_def c2_def)
  moreover have "pid_scan ((q # us) @ ys) m c = pid_scan (us @ ys) m c2" for ys
    using q Cons.prems(2) by (auto simp: Let_def c1_def c2_def)
  ultimately show ?case using Cons.IH [of c2] Cons.prems by auto
qed auto

lemma pid_scan_collides:
  assumes us: "\<forall>q\<in>set us. \<not> pid_used q m \<and> \<not> pid_used q (m + 1)" and p: "p_pid p = m + 1" "p_pgrp p = m"
    and vs: "\<forall>q\<in>set vs. \<not> pid_used q (m + 1)" and c: "m + 1 < c"
  shows "\<exists>c'. pid_scan (us @ p # vs) m c = (m + 1, c', False)"
proof -
  have "x < m \<or> m + 1 < x" if "q \<in> set us" "pid_used q x" for q x
    using us that by (cases "x = m"; cases "x = m + 1") auto
  from pid_scan_pass [of us m "m + 1" c] this c obtain c1 where
    c1: "m + 1 < c1" "\<And>ys. pid_scan (us @ ys) m c = pid_scan ys m c1" by auto
  have "x < m + 1 \<or> m + 1 < x" if "q \<in> set vs" "pid_used q x" for q x
    using vs that by (cases "x = m + 1") auto
  from pid_scan_pass [of vs "m + 1" "m + 1" c1] this c1(1) obtain c2 where
    c2: "\<And>ys. pid_scan (vs @ ys) (m + 1) c1 = pid_scan ys (m + 1) c2" by auto
  have "pid_scan (p # vs) m c1 = pid_scan vs (m + 1) c1" using p c1(1) by (simp add: Let_def)
  then show ?thesis using c1(2) [of "p # vs"] c2 [of "[]"] by simp
qed

section \<open>Properties\<close>

definition demo_proc :: "int \<Rightarrow> int \<Rightarrow> proc" where
  "demo_proc pid grp = \<lparr>p_pptr = Some 0, p_flag = {SLOAD}, p_uid = 0, p_pid = pid, p_ppid = 0,
     p_sig = 0, p_stat = SRUN, p_pri = 50, p_cpu = 0, p_time = 0, p_nice = 0, p_slptime = 0,
     p_ptracesig = 0, p_sigmask = 0, p_sigignore = 0, p_sigcatch = 0, p_pgrp = grp, p_addr = 0,
     p_daddr = 0, p_saddr = 0, p_dsize = 0, p_ssize = 0, p_wchan = 0, it_interval = 0, it_value = 0,
     p_xstat = 0, p_ru = \<lparr>ru_utime = 0, ru_stime = 0, ru_nswap = 0, ru_inblock = 0, ru_oublock = 0,
       ru_msgsnd = 0, ru_msgrcv = 0, ru_nsignals = 0, ru_nvcsw = 0, ru_nivcsw = 0\<rparr>\<rparr>"

text \<open>
  A table with the processes 0, 1 and one more, process 2 running.
\<close>

definition demo_kern :: "int \<Rightarrow> int \<Rightarrow> int \<Rightarrow> kern" where
  "demo_kern pid grp m =
     (let r = p_ru (demo_proc 0 0) in
      \<lparr>procs = (\<lambda>_. demo_proc 0 0)(1 := demo_proc 1 0, 2 := demo_proc pid grp),
       allproc = [2, 1, 0], zombproc = [], freeproc = [3, 4, 5, 6, 7, 8, 9],
       pidhash = (\<lambda>h. [p \<leftarrow> [2, 1]. PIDHASH (if p = 2 then pid else 1) = h]),
       mpid = m, pidchecked = m + 1, u_procp = 2, u_uid = 0, u_error = 0, u_rval = 0,
       u_ru = r, u_cru = r, qs = [], slpque = (\<lambda>_. []), runrun = 0, curpri = 50, runin = 0,
       runout = 0, noproc = False, panicstr = False,
       callouts = coutinit (replicate 18 \<lparr>c_time = 0, c_arg = 0, c_func = 0\<rparr>), u_sigintr = 0,
       a_lbolt = 1024, a_runin = 1056, a_runout = 1088, a_proc = (\<lambda>p. 2048 + word_of_nat p * 128),
       a_endtsleep = 4096\<rparr>)"

lemma demo_kern_fields [simp]:
  "allproc (demo_kern pid grp m) = [2, 1, 0]" "zombproc (demo_kern pid grp m) = []"
  "freeproc (demo_kern pid grp m) = [3, 4, 5, 6, 7, 8, 9]"
  "procs (demo_kern pid grp m) = (\<lambda>_. demo_proc 0 0)(1 := demo_proc 1 0, 2 := demo_proc pid grp)"
  "pidhash (demo_kern pid grp m) h = [p \<leftarrow> [2, 1]. PIDHASH (if p = 2 then pid else 1) = h]"
  "mpid (demo_kern pid grp m) = m" "pidchecked (demo_kern pid grp m) = m + 1"
  "u_procp (demo_kern pid grp m) = 2"
  "ru_msgsnd (u_ru (demo_kern pid grp m)) = 0" "ru_msgsnd (u_cru (demo_kern pid grp m)) = 0"
  by (simp_all add: demo_kern_def demo_proc_def Let_def)

lemma demo_proc_fields [simp]:
  "p_pid (demo_proc pid grp) = pid" "p_pgrp (demo_proc pid grp) = grp"
  "p_pptr (demo_proc pid grp) = Some 0"
  by (simp_all add: demo_proc_def)

lemma demo_kern_ok:
  assumes "pid \<noteq> 0" "pid \<noteq> 1"
  shows "procs_ok (demo_kern pid grp m)"
proof -
  have "set ([2, 1, 0] @ [] @ [3, 4, 5, 6, 7, 8, 9]) = {..<NPROC}"
    by (simp add: NPROC_def numeral_eq_Suc lessThan_Suc) blast
  moreover have "inj_on (\<lambda>p. p_pid (procs (demo_kern pid grp m) p)) (set [2, 1, 0])"
    using assms by (auto simp: inj_on_def)
  moreover have "set [p \<leftarrow> [2, 1]. PIDHASH (if p = 2 then pid else 1) = h] =
      {p \<in> set [2, 1, 0]. p_pid (procs (demo_kern pid grp m) p) \<noteq> 0 \<and>
        PIDHASH (p_pid (procs (demo_kern pid grp m) p)) = h}" for h
    using assms by auto
  ultimately show ?thesis by (simp add: procs_ok_def)
qed

text \<open>
  C11. \<open>newproc\<close> with a free entry always finds a number, the retry loop ends, and the entry
  moves from the free list to \<open>allproc\<close> with that number as its pid. It is the pid or the
  group of no process, dead or alive, and the table stays well-formed, except where a
  process has a pid and a group that follow each other and the number is the higher of the two.
  The condition on the remembered gap (no number from the last pid up to \<^verbatim>\<open>pidchecked\<close> is in use) holds at
  boot, when \<^verbatim>\<open>pidchecked\<close> is 0, and is kept, with the new process counted in; what
  can break it is a process moved to a group inside the gap (\<^verbatim>\<open>setpgrp\<close>, or the open of a
  terminal that remembers an old group).
\<close>

theorem newproc_pid_fresh:
  assumes ok: "procs_ok k" and free: "freeproc k \<noteq> []" and run: "u_procp k \<in> set (allproc k)"
    and gap: "pid_gap (procs k ` set (allproc k @ zombproc k)) (mpid k + 1) (pidchecked k)"
    and m: "0 \<le> mpid k" "pidchecked k \<le> 30000"
  shows "\<exists>child k'. newproc_slot k = Some (Inr (child, k')) \<and> freeproc k = child # freeproc k' \<and>
     allproc k' = child # allproc k \<and> p_pid (procs k' child) = mpid k' \<and> 0 < mpid k' \<and> mpid k' < 30000 \<and>
     pidchecked k' \<le> 30000 \<and> pid_gap (procs k' ` set (allproc k' @ zombproc k')) (mpid k' + 1) (pidchecked k') \<and>
     (\<forall>p\<in>set (allproc k @ zombproc k). pid_used (procs k p) (mpid k') \<longrightarrow> stepped_onto (procs k p) (mpid k')) \<and>
     ((\<forall>p\<in>set (allproc k @ zombproc k). \<not> stepped_onto (procs k p) (mpid k')) \<longrightarrow> procs_ok k')"
proof -
  let ?ps = "map (procs k) (allproc k @ zombproc k)"
  note d = procs_okD [OF ok]
  have "length (allproc k @ zombproc k) = card (set (allproc k @ zombproc k))"
    using d(1,2,4) by (intro distinct_card [symmetric]) simp
  also have "\<dots> \<le> card {..<NPROC}" by (rule card_mono) (use d(7) in auto)
  finally have "length ?ps < 14000" by (simp add: NPROC_def)
  from free_number [OF this] obtain x where x: "100 \<le> x" "x < 30000" "\<forall>p\<in>set ?ps. \<not> pid_used p x"
    by blast
  from pid_retry_total [OF x] obtain m' c' where
    r: "pid_retry ?ps (mpid k + 1) (pidchecked k) = Some (m', c')" by fastforce
  have res: "pid_gap1 (set ?ps) m' c'" "m' < c'" "c' \<le> 30000" "0 < m'"
    using pid_retry_result [OF r] gap m by (auto simp: pid_result_def image_Un)
  obtain child fr where f: "freeproc k = child # fr" using free by (cases "freeproc k") auto
  obtain k' where k': "newproc_slot k = Some (Inr (child, k'))" "mpid k' = m'" "pidchecked k' = c'" "freeproc k' = fr"
    "allproc k' = child # allproc k" "zombproc k' = zombproc k" "p_pid (procs k' child) = m'"
    "p_pgrp (procs k' child) = p_pgrp (procs k (u_procp k))" "\<forall>p. p \<noteq> child \<longrightarrow> procs k' p = procs k p"
    by (rule newproc_slot_eff [OF r f])
  have used: "stepped_onto (procs k p) m'" if "p \<in> set (allproc k @ zombproc k)" "pid_used (procs k p) m'" for p
    using res(1,2) that by (force simp: pid_gap1_def)
  have nc: "child \<notin> set (allproc k @ zombproc k)" using d(5,6) f by auto
  have g: "pid_gap (set ?ps) (m' + 1) c'" by (rule pid_gap1(2) [OF res(1)])
  have "pid_gap (procs k' ` set (allproc k' @ zombproc k')) (m' + 1) c'"
    unfolding pid_gap_def
  proof (intro ballI allI impI)
    fix q y assume q: "q \<in> procs k' ` set (allproc k' @ zombproc k')" "pid_used q y"
    then obtain p where p: "p \<in> set (allproc k' @ zombproc k')" "q = procs k' p" by blast
    show "y < m' + 1 \<or> c' \<le> y"
    proof (cases "p = child")
      case True
      then have "y = m' \<or> pid_used (procs k (u_procp k)) y" using q(2) p(2) k'(7,8) by (auto simp: pid_used_def)
      then show ?thesis using g run by (auto simp: pid_gap_def)
    next
      case False
      then have "p \<in> set (allproc k @ zombproc k)" "q = procs k p" using p k'(5,6,9) by auto
      then show ?thesis using g q(2) by (auto simp: pid_gap_def)
    qed
  qed
  moreover have "procs_ok k'" if "\<forall>p\<in>set (allproc k @ zombproc k). \<not> stepped_onto (procs k p) m'"
    by (rule newproc_slot_ok(1) [OF ok k'(1)]) (use that used k'(2) res(4) in \<open>auto simp: pid_used_def\<close>)
  ultimately show ?thesis using k' res f used by (intro exI [of _ child] exI [of _ k']) simp
qed

lemma newproc_pid_fresh_witness:
  "\<exists>child k'. newproc_slot (demo_kern 7 7 7) = Some (Inr (child, k')) \<and> p_pid (procs k' child) = mpid k' \<and> mpid k' < 30000"
  using newproc_pid_fresh [OF demo_kern_ok [of 7 7 7]] by (auto simp: pid_gap_def pid_used_def)

text \<open>
  C12. The exception is real: it compares a process with the candidate once, and does not look
  again after stepping to the next number. Whenever the scan starts at a number \<open>m\<close>
  and meets a process with the group \<open>m\<close> and the pid \<open>m + 1\<close> (the first child of a group leader is such a one)
  before any other user of \<open>m\<close>, and nobody else uses \<open>m + 1\<close>, the new process gets the pid
  of that process, which is still there.
\<close>

theorem newproc_pid_collision:
  assumes free: "freeproc k \<noteq> []" and ok: "procs_ok k"
    and m: "m = (if mpid k + 1 \<ge> 30000 then 100 else mpid k + 1)" "mpid k + 1 \<ge> 30000 \<or> pidchecked k \<le> m" "m + 1 < 30000"
      "0 \<le> mpid k"
    and l: "allproc k @ zombproc k = us @ p # vs" and p: "p_pid (procs k p) = m + 1" "p_pgrp (procs k p) = m"
    and us: "\<forall>q\<in>set us. \<not> pid_used (procs k q) m" and oth: "\<forall>q\<in>set us \<union> set vs. \<not> pid_used (procs k q) (m + 1)"
  shows "\<exists>child k'. newproc_slot k = Some (Inr (child, k')) \<and> child \<noteq> p \<and> p \<in> set (allproc k' @ zombproc k') \<and>
     p_pid (procs k' child) = p_pid (procs k p) \<and> procs k' p = procs k p"
proof -
  obtain child fr where f: "freeproc k = child # fr" using free by (cases "freeproc k") auto
  obtain c where c: "pid_scan (map (procs k) (us @ p # vs)) m 30000 = (m + 1, c, False)"
    using pid_scan_collides [of "map (procs k) us" m "procs k p" "map (procs k) vs" 30000] us oth p m(3) by auto
  have "pid_retry (map (procs k) (us @ p # vs)) (mpid k + 1) (pidchecked k) = Some (m + 1, c)"
    using c m by (subst pid_retry.simps) (auto simp: Let_def)
  from newproc_slot_eff [OF this [folded l] f] obtain k' where
    k': "newproc_slot k = Some (Inr (child, k'))" "allproc k' = child # allproc k" "zombproc k' = zombproc k"
      "p_pid (procs k' child) = m + 1" "\<forall>q. q \<noteq> child \<longrightarrow> procs k' q = procs k q" by metis
  have "p \<in> set (allproc k @ zombproc k)" unfolding l by simp
  moreover from this have "child \<noteq> p" using procs_okD(5,6) [OF ok] f by auto
  ultimately show ?thesis using k' p(1) by (intro exI [of _ child] exI [of _ k']) auto
qed

text \<open>After the numbers have wrapped around at 30000: process 101 is in the group 100.\<close>

lemma newproc_pid_collision_witness:
  "\<exists>child k'. newproc_slot (demo_kern 101 100 29999) = Some (Inr (child, k')) \<and> child \<noteq> 2 \<and>
     p_pid (procs k' child) = 101 \<and> p_pid (procs k' 2) = 101"
  using newproc_pid_collision [of "demo_kern 101 100 29999" 100 "[]" 2 "[1, 0]", OF _ demo_kern_ok]
  by (auto simp: pid_used_def)

text \<open>
  On a well-formed table \<open>pfind\<close> returns the live process with the given pid, and no
  other: a dead process is not found, and there is at most one live one.
\<close>

theorem pfind_finds_live_process:
  assumes "procs_ok k" "pid \<noteq> 0"
  shows "pfind k pid = Some p \<longleftrightarrow> p \<in> set (allproc k) \<and> p_pid (procs k p) = pid"
  using assms by (rule pfind_iff)

lemma pfind_finds_live_process_witness: "pfind (demo_kern 7 7 7) 7 = Some 2"
  using pfind_finds_live_process [OF demo_kern_ok [of 7 7 7], of 7 2] by simp

lemma exit_zombie_moves:
  assumes ok: "procs_ok k" and run: "u_procp k \<in> set (allproc k)"
    and pid: "p_pid (procs k (u_procp k)) \<noteq> 0" "p_pid (procs k (u_procp k)) \<noteq> 1"
  shows "\<exists>k'. exit_zombie rv k = Inr k' \<and> procs_ok k' \<and> zombproc k' = u_procp k # zombproc k \<and>
     allproc k' = remove1 (u_procp k) (allproc k) \<and> p_stat (procs k' (u_procp k)) = SZOMB \<and>
     p_xstat (procs k' (u_procp k)) = rv \<and> (\<forall>h. u_procp k \<notin> set (pidhash k' h)) \<and>
     (\<forall>j. j \<noteq> u_procp k \<longrightarrow> procs k' j = procs k j)"
proof -
  obtain k' where k': "exit_zombie rv k = Inr k'" "procs_ok k'" "zombproc k' = u_procp k # zombproc k"
      "allproc k' = remove1 (u_procp k) (allproc k)"
      "procs k' (u_procp k) = zombie_overlay rv (ruadd (u_ru k) (u_cru k)) ((procs k (u_procp k))\<lparr>p_stat := SZOMB\<rparr>)"
      "\<forall>p. p \<noteq> u_procp k \<longrightarrow> procs k' p = procs k p"
    using exit_zombie_ok [OF ok run, of rv] pid by blast
  have "u_procp k \<notin> set (pidhash k' h)" for h
    using procs_okD(10) [OF k'(2), of h] procs_okD(1) [OF ok] k'(4) by simp
  with k' show ?thesis by (intro exI [of _ k']) (simp add: zombie_overlay_def)
qed

lemma wait_pass_reaps:
  assumes ok: "procs_ok k" and f: "find (\<lambda>p. wait_match q a (procs k p)) (zombproc k) = Some p"
  shows "if w_status a \<and> cpout 0 \<noteq> 0
     then wait_pass cpout q a k = WRet (cpout 0) (p_pid (procs k p)) (p_xstat (procs k p)) k
     else if w_rusage a \<and> cpout 1 \<noteq> 0
     then wait_pass cpout q a k = WRet (cpout 1) (p_pid (procs k p)) (p_xstat (procs k p)) k
     else \<exists>k'. wait_pass cpout q a k = WRet 0 (p_pid (procs k p)) (p_xstat (procs k p)) k' \<and> procs_ok k' \<and>
       p \<in> set (zombproc k) \<and> zombproc k' = remove1 p (zombproc k) \<and> freeproc k' = p # freeproc k \<and>
       allproc k' = allproc k \<and> p_stat (procs k' p) = SNONE \<and> p_pid (procs k' p) = 0 \<and>
       u_cru k' = ruadd (u_cru k) (p_ru (procs k p)) \<and> (\<forall>j. j \<noteq> p \<longrightarrow> procs k' j = procs k j)"
proof -
  have "p \<in> set (zombproc k)" using f by (auto simp: find_Some_iff)
  with wait_reap_ok [OF ok this] show ?thesis
    by (simp add: wait_pass_def f) (simp add: wait_reap_def)
qed

lemma wait_pass_none:
  assumes no: "\<forall>p\<in>set (allproc k @ zombproc k). \<not> wait_match q a (procs k p)"
  shows "wait_pass cpout q a k = WRet ECHILD 0 0 k"
proof -
  have z: "find (\<lambda>p. wait_match q a (procs k p)) (zombproc k) = None"
    using no by (auto simp: find_None_iff)
  have e: "filter (\<lambda>p. wait_match q a (procs k p)) (allproc k) = []"
    using no by (simp add: filter_empty_conv)
  show ?thesis by (simp add: wait_pass_def z e)
qed

lemma procs_ok_flag:
  assumes ok: "procs_ok k"
  shows "procs_ok (updproc p (\<lambda>x. x\<lparr>p_flag := F x\<rparr>) k)"
proof -
  have "p_pid (procs (updproc p (\<lambda>x. x\<lparr>p_flag := F x\<rparr>) k) q) = p_pid (procs k q)" for q by simp
  with ok show ?thesis unfolding procs_ok_def by simp
qed

lemma wait_pass_ok:
  assumes ok: "procs_ok k" and w: "wait_pass cpout q a k = WRet e r st k'"
  shows "procs_ok k'"
proof -
  have reap: "procs_ok (wait_reap p k)" if "find P (zombproc k) = Some p" for p P
    using wait_reap_ok [OF ok] that by (auto simp: find_Some_iff)
  show ?thesis
    using w ok reap procs_ok_flag [OF ok]
    by (auto simp: wait_pass_def Let_def split: option.splits if_splits)
qed

text \<open>
  C13. The end of a process. \<open>exit\<close> moves the running process from \<open>allproc\<close> to the zombies and
  out of its hash chain, with its exit status in the entry. A pass of \<open>wait1\<close> with a zombie
  among the children asked for answers with pid and status of the first one, and unless
  copying the results to the user failed, moves exactly that entry to the free list, cleared,
  and adds its usage to that of the caller's children. With no child at all the pass returns ECHILD and changes
  nothing. All this keeps the table well-formed: each entry is on exactly one list, and in a
  hash chain exactly while alive.
\<close>

theorem exit_wait_keep_lists:
  assumes ok: "procs_ok k"
  shows "(u_procp k \<in> set (allproc k) \<and> p_pid (procs k (u_procp k)) \<noteq> 0 \<and> p_pid (procs k (u_procp k)) \<noteq> 1 \<longrightarrow>
       (\<exists>k'. exit_zombie rv k = Inr k' \<and> procs_ok k' \<and> zombproc k' = u_procp k # zombproc k \<and>
          allproc k' = remove1 (u_procp k) (allproc k) \<and> p_stat (procs k' (u_procp k)) = SZOMB \<and>
          p_xstat (procs k' (u_procp k)) = rv \<and> (\<forall>h. u_procp k \<notin> set (pidhash k' h)) \<and>
          (\<forall>j. j \<noteq> u_procp k \<longrightarrow> procs k' j = procs k j))) \<and>
     (find (\<lambda>p. wait_match q a (procs k p)) (zombproc k) = Some p \<longrightarrow>
       (if w_status a \<and> cpout 0 \<noteq> 0
        then wait_pass cpout q a k = WRet (cpout 0) (p_pid (procs k p)) (p_xstat (procs k p)) k
        else if w_rusage a \<and> cpout 1 \<noteq> 0
        then wait_pass cpout q a k = WRet (cpout 1) (p_pid (procs k p)) (p_xstat (procs k p)) k
        else \<exists>k'. wait_pass cpout q a k = WRet 0 (p_pid (procs k p)) (p_xstat (procs k p)) k' \<and> procs_ok k' \<and>
          p \<in> set (zombproc k) \<and> zombproc k' = remove1 p (zombproc k) \<and> freeproc k' = p # freeproc k \<and>
          allproc k' = allproc k \<and> p_stat (procs k' p) = SNONE \<and> p_pid (procs k' p) = 0 \<and>
          u_cru k' = ruadd (u_cru k) (p_ru (procs k p)) \<and> (\<forall>j. j \<noteq> p \<longrightarrow> procs k' j = procs k j))) \<and>
     ((\<forall>p\<in>set (allproc k @ zombproc k). \<not> wait_match q a (procs k p)) \<longrightarrow> wait_pass cpout q a k = WRet ECHILD 0 0 k) \<and>
     (\<forall>e r st k'. wait_pass cpout q a k = WRet e r st k' \<longrightarrow> procs_ok k')"
  using exit_zombie_moves [OF ok, of rv] wait_pass_reaps [OF ok, of q a p cpout] wait_pass_none [of k q a cpout]
    wait_pass_ok [OF ok, of cpout q a]
  by blast

text \<open>Process 7 has exited; its parent, process 0, waits for it.\<close>

definition demo_zombie :: kern where
  "demo_zombie = (case exit_zombie 256 (demo_kern 7 7 7) of Inr k \<Rightarrow> k | Inl e \<Rightarrow> demo_kern 7 7 7)"

lemma exit_wait_keep_lists_witness:
  "exit_zombie 256 (demo_kern 7 7 7) = Inr demo_zombie \<and>
   (\<exists>k'. wait_pass (\<lambda>_. 0) 0 \<lparr>w_pid = -1, w_status = True, w_untraced = False, w_nohang = False, w_rusage = False\<rparr> demo_zombie =
      WRet 0 7 256 k' \<and> freeproc k' = 2 # freeproc demo_zombie \<and> zombproc k' = [])"
proof -
  let ?a = "\<lparr>w_pid = -1, w_status = True, w_untraced = False, w_nohang = False, w_rusage = False\<rparr>"
  obtain k' where k': "exit_zombie 256 (demo_kern 7 7 7) = Inr k'" "procs_ok k'" "zombproc k' = [2]" "p_xstat (procs k' 2) = 256"
    using exit_wait_keep_lists [OF demo_kern_ok [of 7 7 7], of 256 0 ?a 2 "\<lambda>_. 0", THEN conjunct1] by auto
  then have d: "demo_zombie = k'" by (simp add: demo_zombie_def)
  have p: "p_pid (procs k' 2) = 7" "p_pptr (procs k' 2) = Some 0"
    using k'(1) by (auto simp: exit_zombie_def Let_def zombie_overlay_def split: if_splits)
  have "find (\<lambda>p. wait_match 0 ?a (procs k' p)) (zombproc k') = Some 2" using p by (simp add: k'(3) wait_match_def)
  then show ?thesis
    using exit_wait_keep_lists [OF k'(2), of 0 0 ?a 2 "\<lambda>_. 0"] k' p unfolding d by auto
qed

text \<open>
  C14. A dead process is never found through its process group: the exit information shares
  its storage with \<^verbatim>\<open>p_pgrp\<close>, which after \<open>exit\<close> reads as the count of messages sent, 0. So
  \<open>wait1\<close> for the group \<open>g\<close> does not match a child of that group that has exited.
\<close>

theorem wait_group_misses_zombie:
  assumes ok: "procs_ok k" and run: "u_procp k \<in> set (allproc k)"
    and pid: "p_pid (procs k (u_procp k)) > 1"
    and msgs: "ru_msgsnd (u_ru k) = 0" "ru_msgsnd (u_cru k) = 0"
    and par: "p_pptr (procs k (u_procp k)) = Some q" and grp: "p_pgrp (procs k (u_procp k)) = g" "1 < g"
  shows "\<exists>k'. exit_zombie rv k = Inr k' \<and> u_procp k \<in> set (zombproc k') \<and>
     wait_match q a (procs k (u_procp k)) = (w_pid a = -1 \<or> w_pid a = p_pid (procs k (u_procp k)) \<or> w_pid a = - g) \<and>
     wait_match q a (procs k' (u_procp k)) =
       (w_pid a = -1 \<or> w_pid a = p_pid (procs k (u_procp k)) \<or> w_pid a = 0)"
  using exit_zombie_ok [OF ok run, of rv] pid msgs par grp
  by (auto simp: wait_match_def zombie_overlay_def ruadd_def)

lemma wait_group_misses_zombie_witness:
  "\<exists>k'. exit_zombie 256 (demo_kern 7 5 7) = Inr k' \<and>
     \<not> wait_match 0 \<lparr>w_pid = -5, w_status = True, w_untraced = False, w_nohang = False, w_rusage = False\<rparr>
         (procs k' 2)"
  using wait_group_misses_zombie [OF demo_kern_ok [of 7 5 7], of 0 5 256
      "\<lparr>w_pid = -5, w_status = True, w_untraced = False, w_nohang = False, w_rusage = False\<rparr>"]
  by auto

end
