(* ===== verification/Synch.thy ===== *)
theory Synch
  imports Proc
begin

text \<open>
  Sleeping, waking and scheduling (sys/kernel/kern_synch.c): the sleep queues hashed by
  wait channel, the run queue, priorities, and the choice of the next process. The hardware
  context switch of \<^verbatim>\<open>swtch\<close> is the choice it makes and the state it leaves; \<^verbatim>\<open>tsleep\<close> is split
  at that switch.
\<close>

section \<open>Model\<close>

definition SQSIZE :: nat where
  "SQSIZE = 16"

definition SHASH :: "u32 \<Rightarrow> nat" where
  "SHASH x = unat (drop_bit 5 x) mod SQSIZE"

abbreviation (input) PUSER :: int where "PUSER \<equiv> 50"
abbreviation (input) PZERO :: int where "PZERO \<equiv> 25"

definition setpri :: "nat \<Rightarrow> kern \<Rightarrow> kern" where
  "setpri pp k =
     (let p0 = uint (p_cpu (procs k pp)) div 16 + PUSER + p_nice (procs k pp);
          p = (if p0 > 127 then 127 else p0);
          k1 = (if p < curpri k then k\<lparr>runrun := runrun k + 1\<rparr> else k) in
      updproc pp (\<lambda>x. x\<lparr>p_pri := p\<rparr>) k1)"

text \<open>
  The loop of \<^verbatim>\<open>updatepri\<close>. \<^verbatim>\<open>SCHMAG\<close> is the text \<^verbatim>\<open>8/10\<close>, so that \<^verbatim>\<open>SCHMAG * a\<close> is \<^verbatim>\<open>(8/10) * a\<close>
  in integers.
\<close>

function updatepri_loop :: "int \<Rightarrow> int \<Rightarrow> int \<times> int" where
  "updatepri_loop a s =
     (if a \<noteq> 0 then
        (if s - 1 \<noteq> 0 then updatepri_loop ((8 div 10) * a) (s - 1) else (a, s - 1))
      else (a, s))"
  by pat_completeness auto
termination
  by (relation "measure (\<lambda>(a, s). nat \<bar>a\<bar>)") auto

definition updatepri :: "nat \<Rightarrow> kern \<Rightarrow> kern" where
  "updatepri p k =
     (let x = procs k p;
          (a, s) = updatepri_loop (uint (p_cpu x)) (p_slptime x - 1);
          a1 = (if a < 0 then 0 else if a > 255 then 255 else a) in
      setpri p (updproc p (\<lambda>x. x\<lparr>p_slptime := s, p_cpu := word_of_int a1\<rparr>) k))"

definition setrq :: "nat \<Rightarrow> kern \<Rightarrow> kern" where
  "setrq p k = k\<lparr>qs := p # qs k\<rparr>"

definition remrq :: "nat \<Rightarrow> kern \<Rightarrow> kern kres" where
  "remrq p k = (if p \<in> set (qs k) then Inr (k\<lparr>qs := remove1 p (qs k)\<rparr>) else Inl (Panic ''remrq''))"

text \<open>A walk that runs off the end of the chain follows a null pointer.\<close>

definition unsleep :: "nat \<Rightarrow> kern \<Rightarrow> kern kres" where
  "unsleep p k =
     (if p_wchan (procs k p) \<noteq> 0 then
        let h = SHASH (p_wchan (procs k p)) in
        if p \<in> set (slpque k h) then
          Inr (updproc p (\<lambda>x. x\<lparr>p_wchan := 0\<rparr>) (k\<lparr>slpque := (slpque k)(h := remove1 p (slpque k h))\<rparr>))
        else Inl Fault
      else Inr k)"

text \<open>
  The inline expansion of \<^verbatim>\<open>setrun\<close> in \<^verbatim>\<open>wakeup\<close>, up to the test of \<^verbatim>\<open>runout\<close>, for a process that
  was just taken off its sleep queue.
\<close>

definition wake_running :: "nat \<Rightarrow> kern \<Rightarrow> kern" where
  "wake_running p k =
     (let k2 = (if p_slptime (procs k p) > 1 then updatepri p k else k);
          k3 = updproc p (\<lambda>x. x\<lparr>p_slptime := 0, p_stat := SRUN\<rparr>) k2;
          k4 = (if SLOAD \<in> p_flag (procs k3 p) then setrq p k3 else k3) in
      k4\<lparr>runrun := runrun k4 + 1\<rparr>)"

text \<open>
  \<^verbatim>\<open>wakeup\<close> from the position \<open>q\<close> of the queue; \<^verbatim>\<open>goto restart\<close> is the position 0. The call
  of \<^verbatim>\<open>wakeup(&runout)\<close> inside it is the same function.
\<close>

partial_function (option) wakeup_from :: "u32 \<Rightarrow> nat \<Rightarrow> kern \<Rightarrow> kern kres option" where
  "wakeup_from chan q k =
     (let h = SHASH chan; p = slpque k h ! q; x = procs k p;
          k1 = updproc p (\<lambda>x. x\<lparr>p_wchan := 0\<rparr>)
                 (k\<lparr>slpque := (slpque k)(h := take q (slpque k h) @ drop (Suc q) (slpque k h))\<rparr>) in
      if length (slpque k h) \<le> q then Some (Inr k)
      else if p_stat x \<noteq> SSLEEP \<and> p_stat x \<noteq> SSTOP then Some (Inl (Panic ''wakeup''))
      else if p_wchan x = chan then
        (if p_stat x = SSLEEP then
           (let k2 = wake_running p k1 in
            if SLOAD \<notin> p_flag (procs k2 p) \<and> runout k2 \<noteq> 0 then
              Option.bind (wakeup_from (a_runout k2) 0 (k2\<lparr>runout := 0\<rparr>))
                (\<lambda>r. case r of Inl e \<Rightarrow> Some (Inl e) | Inr k3 \<Rightarrow> wakeup_from chan 0 k3)
            else wakeup_from chan 0 k2)
         else wakeup_from chan q (updproc p (\<lambda>x. x\<lparr>p_slptime := 0\<rparr>) k1))
      else wakeup_from chan (Suc q) k)"

definition wakeup :: "u32 \<Rightarrow> kern \<Rightarrow> kern kres option" where
  "wakeup chan k = wakeup_from chan 0 k"

definition setrun :: "nat \<Rightarrow> kern \<Rightarrow> kern kres option" where
  "setrun p k =
     (let r = (case p_stat (procs k p) of
                 SSTOP \<Rightarrow> unsleep p k | SSLEEP \<Rightarrow> unsleep p k | SIDL \<Rightarrow> Inr k
               | _ \<Rightarrow> Inl (Panic ''setrun'')) in
      case r of Inl e \<Rightarrow> Some (Inl e)
      | Inr k1 \<Rightarrow>
          let k2 = (if p_slptime (procs k1 p) > 1 then updatepri p k1 else k1);
              k3 = updproc p (\<lambda>x. x\<lparr>p_stat := SRUN\<rparr>) k2;
              k4 = (if SLOAD \<in> p_flag (procs k3 p) then setrq p k3 else k3);
              k5 = (if p_pri (procs k4 p) < curpri k4 then k4\<lparr>runrun := runrun k4 + 1\<rparr> else k4) in
          if SLOAD \<notin> p_flag (procs k5 p) \<and> runout k5 \<noteq> 0
          then wakeup (a_runout k5) (k5\<lparr>runout := 0\<rparr>)
          else Some (Inr k5))"

definition endtsleep :: "nat \<Rightarrow> kern \<Rightarrow> kern kres option" where
  "endtsleep p k =
     (if p_wchan (procs k p) \<noteq> 0 then
        map_option (\<lambda>r. kbind r (\<lambda>k1.
            Inr (updproc p (\<lambda>x. x\<lparr>p_flag := insert P_TIMEOUT (p_flag x)\<rparr>) k1)))
          (if p_stat (procs k p) = SSLEEP then setrun p k else Some (unsleep p k))
      else Some (Inr k))"

text \<open>
  The search of \<^verbatim>\<open>swtch\<close>: the best process so far and its priority. \<open>swtch_pick\<close> is the loop
  body once; \<open>None\<close> is the call of \<^verbatim>\<open>idle\<close>. The Boolean tells whether the process resumes
  at \<^verbatim>\<open>u_ssave\<close>.
\<close>

fun swtch_search :: "kern \<Rightarrow> nat list \<Rightarrow> nat option \<Rightarrow> int \<Rightarrow> nat option \<times> int" where
  "swtch_search k [] pp n = (pp, n)"
| "swtch_search k (p # ps) pp n =
     (if SLOAD \<in> p_flag (procs k p) \<and> p_pri (procs k p) < n
      then swtch_search k ps (Some p) (p_pri (procs k p))
      else swtch_search k ps pp n)"

definition swtch_pick :: "kern \<Rightarrow> (nat \<times> bool) option \<times> kern" where
  "swtch_pick k =
     (let k1 = k\<lparr>noproc := False, runrun := 0\<rparr> in
      case swtch_search k1 (qs k1) None 128 of
        (None, n) \<Rightarrow> (None, k1)
      | (Some p, n) \<Rightarrow>
          (Some (p, SSWAP \<in> p_flag (procs k1 p)),
           updproc p (\<lambda>x. x\<lparr>p_flag := p_flag x - {SSWAP}\<rparr>)
             (k1\<lparr>qs := remove1 p (qs k1), curpri := n\<rparr>)))"

text \<open>
  \<^verbatim>\<open>tsleep\<close> up to the switch: \<open>cursig\<close> stands for \<^verbatim>\<open>CURSIG\<close>, which can stop the process and
  so change the state. The outcome is either the end of the sleep with the signal and the
  value of \<^verbatim>\<open>catch\<close>, or the switch.
\<close>

datatype tsleep_out = TReturn int kern | TResume int bool kern | TSwitch kern

definition tsleep_enter ::
  "(nat \<Rightarrow> kern \<Rightarrow> int \<times> kern) \<Rightarrow> u32 \<Rightarrow> int \<Rightarrow> bool \<Rightarrow> int \<Rightarrow> kern \<Rightarrow> tsleep_out kres option" where
  "tsleep_enter cursig ident pri catch timo k =
     (if panicstr k then Some (Inr (TReturn 0 k))
      else
        let p = u_procp k; h = SHASH ident;
            k1 = updproc p (\<lambda>x. x\<lparr>p_wchan := ident, p_slptime := 0, p_pri := pri\<rparr>)
                   (k\<lparr>slpque := (slpque k)(h := p # slpque k h)\<rparr>);
            r2 = (if timo \<noteq> 0
                  then kbind (timeout (a_endtsleep k1) (a_proc k1 p) timo (callouts k1))
                         (\<lambda>c. Inr (k1\<lparr>callouts := c\<rparr>))
                  else Inr k1);
            block = (\<lambda>k. let k' = updproc p (\<lambda>x. x\<lparr>p_stat := SSLEEP\<rparr>) k in
                map_option (\<lambda>r. kbind r (\<lambda>k''.
                    Inr (TSwitch (k''\<lparr>u_ru := (u_ru k'')\<lparr>ru_nvcsw := ru_nvcsw (u_ru k'') + 1\<rparr>\<rparr>))))
                  (if p \<noteq> 0 then wakeup (a_runin k') k' else Some (Inr k'))) in
        case r2 of Inl e \<Rightarrow> Some (Inl e)
        | Inr k2 \<Rightarrow>
            if catch then
              (case cursig p (updproc p (\<lambda>x. x\<lparr>p_flag := insert P_SINTR (p_flag x)\<rparr>) k2) of
                 (sig, k3) \<Rightarrow>
                   if sig \<noteq> 0 then
                     Some (kbind (if p_wchan (procs k3 p) \<noteq> 0 then unsleep p k3 else Inr k3)
                       (\<lambda>k4. Inr (TResume sig True (updproc p (\<lambda>x. x\<lparr>p_stat := SRUN\<rparr>) k4))))
                   else if p_wchan (procs k3 p) = 0 then Some (Inr (TResume 0 False k3))
                   else block k3)
            else block k2)"

text \<open>The rest of \<^verbatim>\<open>tsleep\<close>, from the label \<^verbatim>\<open>resume\<close>: the value returned and the state.\<close>

definition tsleep_resume ::
  "(nat \<Rightarrow> kern \<Rightarrow> int \<times> kern) \<Rightarrow> int \<Rightarrow> bool \<Rightarrow> int \<Rightarrow> kern \<Rightarrow> int \<times> kern" where
  "tsleep_resume cursig sig catch timo k =
     (let p = u_procp k;
          k1 = updproc p (\<lambda>x. x\<lparr>p_flag := p_flag x - {P_SINTR}\<rparr>) k;
          timedout = (P_TIMEOUT \<in> p_flag (procs k1 p));
          k2 = (if timedout then updproc p (\<lambda>x. x\<lparr>p_flag := p_flag x - {P_TIMEOUT}\<rparr>) k1
                else if timo \<noteq> 0
                then k1\<lparr>callouts := untimeout (a_endtsleep k1) (a_proc k1 p) (callouts k1)\<rparr>
                else k1) in
      if timedout \<and> sig = 0 then (EWOULDBLOCK, k2)
      else if catch then
        (case (if sig \<noteq> 0 then (sig, k2) else cursig p k2) of
           (s, k3) \<Rightarrow>
             if s \<noteq> 0 then
               (if u_sigintr k3 AND push_bit (nat (s - 1)) 1 \<noteq> 0 then EINTR else ERESTART, k3)
             else (0, k3))
      else (0, k2))"

section \<open>The queues\<close>

text \<open>
  A sleep queue holds sleeping or stopped processes that wait on a channel of its hash
  class; the run queue holds loaded runnable processes that wait on nothing. No process is
  on a queue twice, and by their channels none is on two queues.
\<close>

definition sched_ok :: "kern \<Rightarrow> bool" where
  "sched_ok k \<longleftrightarrow>
     (\<forall>h. distinct (slpque k h)) \<and>
     (\<forall>h. \<forall>p\<in>set (slpque k h). p_wchan (procs k p) \<noteq> 0 \<and> SHASH (p_wchan (procs k p)) = h \<and>
        (p_stat (procs k p) = SSLEEP \<or> p_stat (procs k p) = SSTOP)) \<and>
     distinct (qs k) \<and>
     (\<forall>p\<in>set (qs k). p_stat (procs k p) = SRUN \<and> SLOAD \<in> p_flag (procs k p) \<and> p_wchan (procs k p) = 0)"

definition sleepers :: "u32 \<Rightarrow> kern \<Rightarrow> nat set" where
  "sleepers chan k = {p \<in> set (slpque k (SHASH chan)). p_wchan (procs k p) = chan}"

text \<open>The fields that the scheduler leaves alone: who the process is and its signals.\<close>

definition pident :: "proc \<Rightarrow> nat option \<times> int \<times> int \<times> int \<times> int \<times> int \<times> u32 \<times> u32 \<times> u32 \<times> u32 \<times> int" where
  "pident x = (p_pptr x, p_uid x, p_pid x, p_ppid x, p_pgrp x, p_nice x, p_sig x, p_sigmask x,
     p_sigignore x, p_sigcatch x, p_ptracesig x)"

definition kframe :: "kern \<Rightarrow> nat list \<times> nat list \<times> (nat \<Rightarrow> nat list) \<times> nat \<times> (nat \<Rightarrow> u32) \<times> u32 \<times> int \<times> u32" where
  "kframe k = (allproc k, zombproc k, pidhash k, u_procp k, a_proc k, a_runout k, u_error k, u_sigintr k)"

lemma pident_upd [simp]:
  "pident (x\<lparr>p_wchan := w\<rparr>) = pident x" "pident (x\<lparr>p_slptime := i\<rparr>) = pident x" "pident (x\<lparr>p_stat := st\<rparr>) = pident x"
  "pident (x\<lparr>p_pri := i\<rparr>) = pident x" "pident (x\<lparr>p_cpu := c\<rparr>) = pident x" "pident (x\<lparr>p_flag := fl\<rparr>) = pident x"
  by (simp_all add: pident_def)

lemma kframe_upd [simp]:
  "kframe (k\<lparr>procs := P\<rparr>) = kframe k" "kframe (k\<lparr>slpque := S\<rparr>) = kframe k" "kframe (k\<lparr>qs := Q\<rparr>) = kframe k"
  "kframe (k\<lparr>runrun := i\<rparr>) = kframe k" "kframe (k\<lparr>runout := i\<rparr>) = kframe k" "kframe (k\<lparr>curpri := i\<rparr>) = kframe k"
  by (simp_all add: kframe_def)

text \<open>
  The processes of \<open>X\<close> were taken off their sleep queues, those of them that slept are
  runnable, and everything else is as it was.
\<close>

definition woke :: "nat set \<Rightarrow> kern \<Rightarrow> kern \<Rightarrow> bool" where
  "woke X k k' \<longleftrightarrow>
     (\<forall>p. p \<notin> X \<longrightarrow> procs k' p = procs k p) \<and>
     (\<forall>p\<in>X. p_wchan (procs k' p) = 0 \<and> p_flag (procs k' p) = p_flag (procs k p) \<and>
        pident (procs k' p) = pident (procs k p) \<and>
        p_stat (procs k' p) = (if p_stat (procs k p) = SSLEEP then SRUN else p_stat (procs k p))) \<and>
     (\<forall>h. slpque k' h = filter (\<lambda>p. p \<notin> X) (slpque k h)) \<and>
     set (qs k') = set (qs k) \<union> {p \<in> X. p_stat (procs k p) = SSLEEP \<and> SLOAD \<in> p_flag (procs k p)} \<and>
     a_runout k' = a_runout k \<and> kframe k' = kframe k"

lemma woke_empty [simp]: "woke {} k k"
  by (simp add: woke_def)

lemma woke_trans:
  assumes "woke X k k1" "woke Y k1 k2" "X \<inter> Y = {}"
  shows "woke (X \<union> Y) k k2"
proof -
  have y: "procs k1 p = procs k p" if "p \<in> Y" for p using that assms by (auto simp: woke_def)
  have x: "procs k2 p = procs k1 p" if "p \<in> X" for p using that assms by (auto simp: woke_def)
  show ?thesis
    unfolding woke_def
  proof (intro conjI allI)
    show "\<forall>p\<in>X \<union> Y. p_wchan (procs k2 p) = 0 \<and> p_flag (procs k2 p) = p_flag (procs k p) \<and>
        pident (procs k2 p) = pident (procs k p) \<and>
        p_stat (procs k2 p) = (if p_stat (procs k p) = SSLEEP then SRUN else p_stat (procs k p))"
      using assms(1,2) x y by (auto simp: woke_def)
    show "slpque k2 h = filter (\<lambda>p. p \<notin> X \<union> Y) (slpque k h)" for h
      using assms(1,2) by (simp add: woke_def conj_commute)
    show "set (qs k2) = set (qs k) \<union> {p \<in> X \<union> Y. p_stat (procs k p) = SSLEEP \<and> SLOAD \<in> p_flag (procs k p)}"
      using assms(1,2) y by (auto simp: woke_def)
    show "a_runout k2 = a_runout k" "kframe k2 = kframe k" using assms(1,2) by (simp_all add: woke_def)
    show "p \<notin> X \<union> Y \<longrightarrow> procs k2 p = procs k p" for p using assms(1,2) by (auto simp: woke_def)
  qed
qed

lemma sleepers_woke: "woke X k k' \<Longrightarrow> sleepers c k' = sleepers c k - X"
  by (auto simp: sleepers_def woke_def)

lemma woke_sched_ok_same: "sched_ok k \<Longrightarrow> sched_ok (k\<lparr>runout := r\<rparr>)"
  by (simp add: sched_ok_def)

lemma setpri_fields [simp]:
  "slpque (setpri p k) = slpque k" "qs (setpri p k) = qs k" "runout (setpri p k) = runout k"
  "a_runout (setpri p k) = a_runout k" "curpri (setpri p k) = curpri k"
  "q \<noteq> p \<Longrightarrow> procs (setpri p k) q = procs k q"
  "p_stat (procs (setpri p k) q) = p_stat (procs k q)"
  "p_flag (procs (setpri p k) q) = p_flag (procs k q)"
  "p_wchan (procs (setpri p k) q) = p_wchan (procs k q)"
  "pident (procs (setpri p k) q) = pident (procs k q)" "kframe (setpri p k) = kframe k"
  by (simp_all add: setpri_def Let_def)

lemma updatepri_fields [simp]:
  "slpque (updatepri p k) = slpque k" "qs (updatepri p k) = qs k" "runout (updatepri p k) = runout k"
  "a_runout (updatepri p k) = a_runout k" "curpri (updatepri p k) = curpri k"
  "q \<noteq> p \<Longrightarrow> procs (updatepri p k) q = procs k q"
  "p_stat (procs (updatepri p k) q) = p_stat (procs k q)"
  "p_flag (procs (updatepri p k) q) = p_flag (procs k q)"
  "p_wchan (procs (updatepri p k) q) = p_wchan (procs k q)"
  "pident (procs (updatepri p k) q) = pident (procs k q)" "kframe (updatepri p k) = kframe k"
  by (simp_all add: updatepri_def split_beta Let_def)

lemma wake_running_fields [simp]:
  "slpque (wake_running p k) = slpque k" "runout (wake_running p k) = runout k"
  "a_runout (wake_running p k) = a_runout k"
  "qs (wake_running p k) = (if SLOAD \<in> p_flag (procs k p) then p # qs k else qs k)"
  "q \<noteq> p \<Longrightarrow> procs (wake_running p k) q = procs k q"
  "p_stat (procs (wake_running p k) p) = SRUN"
  "p_flag (procs (wake_running p k) q) = p_flag (procs k q)"
  "p_wchan (procs (wake_running p k) q) = p_wchan (procs k q)"
  "pident (procs (wake_running p k) q) = pident (procs k q)" "kframe (wake_running p k) = kframe k"
  by (simp_all add: wake_running_def setrq_def Let_def)

lemma remove_nth_filter:
  "distinct xs \<Longrightarrow> q < length xs \<Longrightarrow> take q xs @ drop (Suc q) xs = filter (\<lambda>x. x \<noteq> xs ! q) xs"
proof (induction xs arbitrary: q)
  case (Cons y ys)
  show ?case
  proof (cases q)
    case 0
    with Cons.prems show ?thesis by (auto intro!: filter_True [symmetric])
  next
    case (Suc r)
    with Cons show ?thesis by (auto simp: nth_mem)
  qed
qed simp

lemma sched_ok_woke:
  assumes ok: "sched_ok k" and w: "woke X k k'" and d: "distinct (qs k')"
    and X: "\<forall>p\<in>X. p_stat (procs k p) = SSLEEP \<or> p_stat (procs k p) = SSTOP"
  shows "sched_ok k'"
proof -
  have q: "procs k' p = procs k p" if "p \<in> set (qs k)" for p
  proof -
    have "p \<notin> X" using ok X that by (force simp: sched_ok_def)
    with w show ?thesis by (simp add: woke_def)
  qed
  have "p_stat (procs k' p) = SRUN \<and> SLOAD \<in> p_flag (procs k' p) \<and> p_wchan (procs k' p) = 0"
    if "p \<in> set (qs k')" for p
  proof (cases "p \<in> set (qs k)")
    case True
    with q ok show ?thesis by (simp add: sched_ok_def)
  next
    case False
    with that w show ?thesis by (auto simp: woke_def)
  qed
  then show ?thesis
    using ok w d unfolding sched_ok_def woke_def by (intro conjI allI ballI) auto
qed

text \<open>One round of \<^verbatim>\<open>wakeup\<close> that takes a process off the queue.\<close>

lemma wake_one:
  assumes ok: "sched_ok k" and q: "q < length (slpque k h)" and p: "p = slpque k h ! q"
  defines "k1 \<equiv> updproc p (\<lambda>x. x\<lparr>p_wchan := 0\<rparr>)
                 (k\<lparr>slpque := (slpque k)(h := take q (slpque k h) @ drop (Suc q) (slpque k h))\<rparr>)"
  shows "p_stat (procs k p) = SSLEEP \<Longrightarrow> woke {p} k (wake_running p k1) \<and> sched_ok (wake_running p k1)"
    and "p_stat (procs k p) = SSTOP \<Longrightarrow>
      woke {p} k (updproc p (\<lambda>x. x\<lparr>p_slptime := 0\<rparr>) k1) \<and> sched_ok (updproc p (\<lambda>x. x\<lparr>p_slptime := 0\<rparr>) k1)"
proof -
  have mem: "p \<in> set (slpque k h)" using q p by simp
  have d: "distinct (slpque k h)" using ok by (simp add: sched_ok_def)
  have w: "p_wchan (procs k p) \<noteq> 0" "SHASH (p_wchan (procs k p)) = h"
    using ok mem by (auto simp: sched_ok_def)
  have other: "p \<notin> set (slpque k h')" if "h' \<noteq> h" for h'
    using ok that w(2) by (auto simp: sched_ok_def)
  have sl: "slpque k1 h' = filter (\<lambda>x. x \<notin> {p}) (slpque k h')" for h'
  proof (cases "h' = h")
    case True
    then show ?thesis using remove_nth_filter [OF d q] p by (simp add: k1_def)
  next
    case False
    with other [OF False] show ?thesis by (auto simp: k1_def intro!: filter_True [symmetric])
  qed
  have nq: "p \<notin> set (qs k)" using ok w(1) by (auto simp: sched_ok_def)
  have dq: "distinct (qs k)" using ok by (simp add: sched_ok_def)
  {
    assume st: "p_stat (procs k p) = SSLEEP"
    have w1: "woke {p} k (wake_running p k1)"
      unfolding woke_def using sl st by (auto simp: k1_def)
    moreover have "sched_ok (wake_running p k1)"
      by (rule sched_ok_woke [OF ok w1]) (use nq dq st in \<open>auto simp: k1_def\<close>)
    ultimately show "woke {p} k (wake_running p k1) \<and> sched_ok (wake_running p k1)" by blast
  next
    assume st: "p_stat (procs k p) = SSTOP"
    let ?k = "updproc p (\<lambda>x. x\<lparr>p_slptime := 0\<rparr>) k1"
    have w1: "woke {p} k ?k"
      unfolding woke_def using sl st by (auto simp: k1_def)
    moreover have "sched_ok ?k"
      by (rule sched_ok_woke [OF ok w1]) (use dq st in \<open>auto simp: k1_def\<close>)
    ultimately show "woke {p} k ?k \<and> sched_ok ?k" by blast
  }
qed

definition n_sleep :: "kern \<Rightarrow> nat" where
  "n_sleep k = (\<Sum>h<SQSIZE. length (slpque k h))"

lemma SHASH_less: "SHASH c < SQSIZE"
  by (simp add: SHASH_def SQSIZE_def)

lemma n_sleep_woke:
  assumes "woke X k k'"
  shows "n_sleep k' \<le> n_sleep k"
    and "p \<in> X \<Longrightarrow> p \<in> set (slpque k h) \<Longrightarrow> h < SQSIZE \<Longrightarrow> n_sleep k' < n_sleep k"
proof -
  have le: "length (slpque k' g) \<le> length (slpque k g)" for g
    using assms by (simp add: woke_def)
  then show "n_sleep k' \<le> n_sleep k" by (simp add: n_sleep_def sum_mono)
  assume p: "p \<in> X" "p \<in> set (slpque k h)" "h < SQSIZE"
  then have "length (slpque k' h) < length (slpque k h)"
    using assms length_filter_less [of p "slpque k h" "\<lambda>p. p \<notin> X"] by (simp add: woke_def)
  then show "n_sleep k' < n_sleep k"
    unfolding n_sleep_def using le p(3) by (intro sum_strict_mono_ex1) auto
qed

lemma wakeup_from_correct:
  assumes "sched_ok k" "\<forall>i<q. i < length (slpque k (SHASH chan)) \<longrightarrow>
      p_wchan (procs k (slpque k (SHASH chan) ! i)) \<noteq> chan"
  shows "\<exists>k' X. wakeup_from chan q k = Some (Inr k') \<and> woke X k k' \<and> sched_ok k' \<and>
    sleepers chan k \<subseteq> X \<and> X \<subseteq> sleepers chan k \<union> sleepers (a_runout k) k"
  using assms
proof (induction "n_sleep k" arbitrary: k chan q rule: less_induct)
  case outer: less
  show ?case
    using outer.prems
  proof (induction "length (slpque k (SHASH chan)) - q" arbitrary: q)
    case 0
    then have "wakeup_from chan q k = Some (Inr k)"
      by (subst wakeup_from.simps) (simp add: Let_def)
    moreover have "sleepers chan k = {}"
    proof -
      have "p_wchan (procs k p) \<noteq> chan" if "p \<in> set (slpque k (SHASH chan))" for p
        using that 0(1,3) by (auto simp: in_set_conv_nth)
      then show ?thesis by (auto simp: sleepers_def)
    qed
    ultimately show ?case
      using 0(2) by (intro exI [of _ k] exI [of _ "{}"]) auto
  next
    case (Suc n)
    define h where "h = SHASH chan"
    define p where "p = slpque k h ! q"
    define k1 where "k1 = updproc p (\<lambda>x. x\<lparr>p_wchan := 0\<rparr>)
        (k\<lparr>slpque := (slpque k)(h := take q (slpque k h) @ drop (Suc q) (slpque k h))\<rparr>)"
    have q: "q < length (slpque k h)" using Suc(2) by (simp add: h_def)
    have mem: "p \<in> set (slpque k h)" using q by (simp add: p_def)
    have st: "p_stat (procs k p) = SSLEEP \<or> p_stat (procs k p) = SSTOP" "SHASH (p_wchan (procs k p)) = h"
      using Suc(3) mem by (auto simp: sched_ok_def)
    note one = wake_one [OF Suc(3) q p_def, folded k1_def]
    show ?case
    proof (cases "p_wchan (procs k p) = chan")
      case False
      have "wakeup_from chan q k = wakeup_from chan (Suc q) k"
        using q st False
        by (subst wakeup_from.simps) (auto simp: Let_def h_def [symmetric] p_def [symmetric])
      moreover have "\<forall>i<Suc q. i < length (slpque k (SHASH chan)) \<longrightarrow>
          p_wchan (procs k (slpque k (SHASH chan) ! i)) \<noteq> chan"
        using Suc(4) False by (auto simp: less_Suc_eq p_def h_def)
      ultimately show ?thesis using Suc(1) [of "Suc q"] Suc(2,3) by simp
    next
      case True
      have psl: "p \<in> sleepers chan k" using True mem by (simp add: sleepers_def h_def)
      have cont: "\<exists>k' X. wakeup_from c q' kk = Some (Inr k') \<and> woke (Y \<union> X) k k' \<and> sched_ok k' \<and>
          sleepers c k \<subseteq> Y \<union> X \<and> X \<subseteq> sleepers c k \<union> sleepers (a_runout k) k"
        if kk: "woke Y k kk" "sched_ok kk" "p \<in> Y" and q': "\<forall>i<q'. i < length (slpque kk (SHASH c)) \<longrightarrow>
            p_wchan (procs kk (slpque kk (SHASH c) ! i)) \<noteq> c" for Y kk q' c
      proof -
        have "n_sleep kk < n_sleep k"
          using n_sleep_woke(2) [OF kk(1,3) mem] SHASH_less by (simp add: h_def)
        from outer.hyps [OF this kk(2) q'] obtain k' X where X: "wakeup_from c q' kk = Some (Inr k')"
          "woke X kk k'" "sched_ok k'" "sleepers c kk \<subseteq> X" "X \<subseteq> sleepers c kk \<union> sleepers (a_runout kk) kk"
          by blast
        have s: "sleepers d kk = sleepers d k - Y" for d by (rule sleepers_woke [OF kk(1)])
        have "a_runout kk = a_runout k" using kk(1) by (simp add: woke_def)
        moreover have "woke (Y \<union> X) k k'"
          by (rule woke_trans [OF kk(1) X(2)]) (use X(5) s in auto)
        ultimately show ?thesis using X s by auto
      qed
      have "\<not> length (slpque k h) \<le> q" "\<not> (p_stat (procs k p) \<noteq> SSLEEP \<and> p_stat (procs k p) \<noteq> SSTOP)"
        using q st by auto
      then have unf: "wakeup_from chan q k =
          (if p_stat (procs k p) = SSLEEP then
             (if SLOAD \<notin> p_flag (procs (wake_running p k1) p) \<and> runout (wake_running p k1) \<noteq> 0 then
                Option.bind (wakeup_from (a_runout (wake_running p k1)) 0 ((wake_running p k1)\<lparr>runout := 0\<rparr>))
                  (\<lambda>r. case r of Inl e \<Rightarrow> Some (Inl e) | Inr k3 \<Rightarrow> wakeup_from chan 0 k3)
              else wakeup_from chan 0 (wake_running p k1))
           else wakeup_from chan q (updproc p (\<lambda>x. x\<lparr>p_slptime := 0\<rparr>) k1))"
        using True by (subst wakeup_from.simps)
          (simp only: Let_def h_def [symmetric] p_def [symmetric] k1_def [symmetric] if_False if_True simp_thms)
      show ?thesis
      proof (cases "p_stat (procs k p) = SSLEEP")
        case sl: True
        define k2 where "k2 = wake_running p k1"
        have w2: "woke {p} k k2" "sched_ok k2" using one(1) [OF sl] by (simp_all add: k2_def)
        have ro: "a_runout k2 = a_runout k" using w2(1) by (simp add: woke_def)
        show ?thesis
        proof (cases "SLOAD \<notin> p_flag (procs k2 p) \<and> runout k2 \<noteq> 0")
          case False
          have "wakeup_from chan q k = wakeup_from chan 0 k2"
            using unf sl False by (simp only: k2_def if_True if_False simp_thms)
          moreover from cont [OF w2, of 0 chan] obtain k' X where
            "wakeup_from chan 0 k2 = Some (Inr k')" "woke ({p} \<union> X) k k'" "sched_ok k'"
            "sleepers chan k \<subseteq> {p} \<union> X" "X \<subseteq> sleepers chan k \<union> sleepers (a_runout k) k"
            by auto
          ultimately show ?thesis using psl by (intro exI [of _ k'] exI [of _ "{p} \<union> X"]) auto
        next
          case ro0: True
          let ?k = "k2\<lparr>runout := 0\<rparr>"
          have w3: "woke {p} k ?k" using w2(1) by (simp add: woke_def)
          have w4: "sched_ok ?k" using w2(2) by (simp add: sched_ok_def)
          from cont [OF w3 w4, of 0 "a_runout k"] obtain k3 X3 where k3:
            "wakeup_from (a_runout k) 0 ?k = Some (Inr k3)" "woke ({p} \<union> X3) k k3" "sched_ok k3"
            "X3 \<subseteq> sleepers (a_runout k) k"
            by auto
          from cont [OF k3(2,3), of 0 chan] obtain k4 X4 where k4:
            "wakeup_from chan 0 k3 = Some (Inr k4)" "woke ({p} \<union> X3 \<union> X4) k k4" "sched_ok k4"
            "sleepers chan k \<subseteq> {p} \<union> X3 \<union> X4" "X4 \<subseteq> sleepers chan k \<union> sleepers (a_runout k) k"
            by auto
          have "wakeup_from chan q k = Some (Inr k4)"
            using unf sl ro0 k3(1) k4(1) ro
            by (simp only: k2_def [symmetric] if_True simp_thms) simp
          with k4 k3(4) psl show ?thesis
            by (intro exI [of _ k4] exI [of _ "{p} \<union> X3 \<union> X4"]) auto
        qed
      next
        case False
        then have sp: "p_stat (procs k p) = SSTOP" using st by blast
        define k2 where "k2 = updproc p (\<lambda>x. x\<lparr>p_slptime := 0\<rparr>) k1"
        have w2: "woke {p} k k2" "sched_ok k2" using one(2) [OF sp] by (simp_all add: k2_def)
        have "wakeup_from chan q k = wakeup_from chan q k2"
          using unf sp by (simp only: k2_def pstat.distinct if_False)
        moreover have "p_wchan (procs k2 (slpque k2 (SHASH chan) ! i)) \<noteq> chan"
          if i: "i < q" "i < length (slpque k2 (SHASH chan))" for i
        proof -
          have e: "slpque k2 h ! i = slpque k h ! i"
            using i(1) q by (simp add: k2_def k1_def nth_append)
          have "slpque k h ! i \<noteq> p"
            using Suc(3) i(1) q by (simp add: p_def sched_ok_def nth_eq_iff_index_eq)
          then have "procs k2 (slpque k h ! i) = procs k (slpque k h ! i)" by (simp add: k2_def k1_def)
          with e Suc(4) i(1) q show ?thesis by (simp add: h_def)
        qed
        moreover from calculation(2) cont [OF w2, of q chan] obtain k' X where
          "wakeup_from chan q k2 = Some (Inr k')" "woke ({p} \<union> X) k k'" "sched_ok k'"
          "sleepers chan k \<subseteq> {p} \<union> X" "X \<subseteq> sleepers chan k \<union> sleepers (a_runout k) k"
          by auto
        ultimately show ?thesis using psl by (intro exI [of _ k'] exI [of _ "{p} \<union> X"]) auto
      qed
    qed
  qed
qed

lemma wakeup_correct:
  assumes "sched_ok k"
  shows "\<exists>k' X. wakeup chan k = Some (Inr k') \<and> woke X k k' \<and> sched_ok k' \<and>
    sleepers chan k \<subseteq> X \<and> X \<subseteq> sleepers chan k \<union> sleepers (a_runout k) k"
  using wakeup_from_correct [OF assms, of 0 chan] by (simp add: wakeup_def)

section \<open>Making a process runnable\<close>

lemma filter_remove1: "distinct xs \<Longrightarrow> remove1 p xs = filter (\<lambda>x. x \<noteq> p) xs"
  by (induction xs) (auto intro: filter_True [symmetric])

lemma unsleep_correct:
  assumes ok: "sched_ok k" and p: "p_wchan (procs k p) \<noteq> 0 \<longrightarrow> p \<in> set (slpque k (SHASH (p_wchan (procs k p))))"
  shows "\<exists>k'. unsleep p k = Inr k' \<and> (\<forall>h. slpque k' h = filter (\<lambda>q. q \<noteq> p) (slpque k h)) \<and>
    qs k' = qs k \<and> (\<forall>q. q \<noteq> p \<longrightarrow> procs k' q = procs k q) \<and>
    procs k' p = (procs k p)\<lparr>p_wchan := 0\<rparr> \<and> runout k' = runout k \<and> a_runout k' = a_runout k \<and> curpri k' = curpri k \<and>
    kframe k' = kframe k"
proof (cases "p_wchan (procs k p) = 0")
  case True
  have "p \<notin> set (slpque k h)" for h using ok True by (auto simp: sched_ok_def)
  then have "filter (\<lambda>q. q \<noteq> p) (slpque k h) = slpque k h" for h by (auto intro: filter_True)
  with True show ?thesis by (simp add: unsleep_def)
next
  case False
  define h where "h = SHASH (p_wchan (procs k p))"
  have mem: "p \<in> set (slpque k h)" using p False by (simp add: h_def)
  have "p \<notin> set (slpque k g)" if "g \<noteq> h" for g using ok that by (auto simp: sched_ok_def h_def)
  then have o: "filter (\<lambda>q. q \<noteq> p) (slpque k g) = slpque k g" if "g \<noteq> h" for g
    using that by (auto intro: filter_True)
  have d: "distinct (slpque k h)" using ok by (simp add: sched_ok_def)
  show ?thesis
    using False mem o filter_remove1 [OF d, of p] by (auto simp: unsleep_def h_def [symmetric] Let_def)
qed

lemma setrun_correct:
  assumes ok: "sched_ok k" and st: "p_stat (procs k p) \<in> {SSLEEP, SSTOP, SIDL}"
    and w: "p_wchan (procs k p) \<noteq> 0 \<longrightarrow> p \<in> set (slpque k (SHASH (p_wchan (procs k p))))"
    and idl: "p_stat (procs k p) = SIDL \<longrightarrow> p_wchan (procs k p) = 0" and nq: "p \<notin> set (qs k)"
  shows "\<exists>k' X. setrun p k = Some (Inr k') \<and> sched_ok k' \<and> p_stat (procs k' p) = SRUN \<and>
    p_wchan (procs k' p) = 0 \<and> (SLOAD \<in> p_flag (procs k p) \<longrightarrow> p \<in> set (qs k')) \<and>
    X \<subseteq> sleepers (a_runout k) k \<and> (\<forall>q. q \<noteq> p \<longrightarrow> q \<notin> X \<longrightarrow> procs k' q = procs k q) \<and>
    kframe k' = kframe k \<and> p \<notin> X \<and> (\<forall>h. slpque k' h = filter (\<lambda>q. q \<noteq> p \<and> q \<notin> X) (slpque k h)) \<and>
    (\<forall>q. p_flag (procs k' q) = p_flag (procs k q) \<and> pident (procs k' q) = pident (procs k q)) \<and>
    (\<forall>q\<in>X. p_wchan (procs k' q) = 0) \<and> set (qs k') \<subseteq> insert p (set (qs k)) \<union> X"
proof -
  obtain k1 where r1: "(case p_stat (procs k p) of SSTOP \<Rightarrow> unsleep p k | SSLEEP \<Rightarrow> unsleep p k
        | SIDL \<Rightarrow> Inr k | _ \<Rightarrow> Inl (Panic ''setrun'')) = Inr k1"
    and s1: "\<forall>h. slpque k1 h = filter (\<lambda>q. q \<noteq> p) (slpque k h)" and k1: "qs k1 = qs k"
      "\<forall>q. q \<noteq> p \<longrightarrow> procs k1 q = procs k q" "procs k1 p = (procs k p)\<lparr>p_wchan := 0\<rparr>"
      "runout k1 = runout k" "a_runout k1 = a_runout k" "curpri k1 = curpri k" "kframe k1 = kframe k"
  proof (cases "p_stat (procs k p) = SIDL")
    case True
    have "p \<notin> set (slpque k h)" for h using ok True by (force simp: sched_ok_def)
    then have "filter (\<lambda>q. q \<noteq> p) (slpque k h) = slpque k h" for h by (auto intro: filter_True)
    with True idl show ?thesis by (intro that [of k]) auto
  next
    case False
    with st unsleep_correct [OF ok w] that show ?thesis by auto
  qed
  define k2 where "k2 = (if p_slptime (procs k1 p) > 1 then updatepri p k1 else k1)"
  define k3 where "k3 = updproc p (\<lambda>x. x\<lparr>p_stat := SRUN\<rparr>) k2"
  define k4 where "k4 = (if SLOAD \<in> p_flag (procs k3 p) then setrq p k3 else k3)"
  define k5 where "k5 = (if p_pri (procs k4 p) < curpri k4 then k4\<lparr>runrun := runrun k4 + 1\<rparr> else k4)"
  have run: "setrun p k = (if SLOAD \<notin> p_flag (procs k5 p) \<and> runout k5 \<noteq> 0
          then wakeup (a_runout k5) (k5\<lparr>runout := 0\<rparr>) else Some (Inr k5))"
    unfolding setrun_def r1 Let_def sum.case k2_def [symmetric] k3_def [symmetric]
      k4_def [symmetric] k5_def [symmetric] by (rule refl)
  have f5: "slpque k5 = slpque k1" "qs k5 = (if SLOAD \<in> p_flag (procs k p) then p # qs k else qs k)"
    "a_runout k5 = a_runout k" "p_stat (procs k5 p) = SRUN" "p_wchan (procs k5 p) = 0"
    "\<And>q. p_flag (procs k5 q) = p_flag (procs k q)" "\<And>q. q \<noteq> p \<Longrightarrow> procs k5 q = procs k q"
    "kframe k5 = kframe k" "\<And>q. pident (procs k5 q) = pident (procs k q)"
    using k1 by (auto simp: k5_def k4_def k3_def k2_def setrq_def)
  have "sched_ok k5"
    using ok nq s1 f5(1,2,4-7) unfolding sched_ok_def by (auto, metis+)
  then show ?thesis
  proof (cases "SLOAD \<notin> p_flag (procs k5 p) \<and> runout k5 \<noteq> 0")
    case False
    with run \<open>sched_ok k5\<close> f5 s1 show ?thesis by (intro exI [of _ k5] exI [of _ "{}"]) (auto split: if_splits)
  next
    case True
    let ?k = "k5\<lparr>runout := 0\<rparr>"
    have "sched_ok ?k" using \<open>sched_ok k5\<close> by (simp add: sched_ok_def)
    from wakeup_correct [OF this, of "a_runout k5"] obtain k' X where w:
      "wakeup (a_runout k5) ?k = Some (Inr k')" "woke X ?k k'" "sched_ok k'"
      "X \<subseteq> sleepers (a_runout k) ?k" using f5(3) by auto
    have "p \<notin> set (slpque k5 h)" for h using f5(1) s1 by simp
    then have px: "p \<notin> X" using w(4) by (auto simp: sleepers_def)
    have "sleepers (a_runout k) ?k \<subseteq> sleepers (a_runout k) k"
      using f5(1,7) s1 by (auto simp: sleepers_def)
    moreover have "p_flag (procs k' q) = p_flag (procs k q) \<and> pident (procs k' q) = pident (procs k q)" for q
      using w(2) f5(6,9) by (cases "q \<in> X") (auto simp: woke_def)
    moreover have "slpque k' h = filter (\<lambda>q. q \<noteq> p \<and> q \<notin> X) (slpque k h)" for h
      using w(2) f5(1) s1 by (simp add: woke_def)
    moreover have "set (qs k') \<subseteq> insert p (set (qs k)) \<union> X"
      using w(2) f5(2) by (auto simp: woke_def split: if_splits)
    ultimately show ?thesis using True run w px f5
      by (intro exI [of _ k'] exI [of _ X]) (auto simp: woke_def)
  qed
qed

section \<open>Choosing, priorities, going to sleep\<close>

lemma swtch_search_correct:
  assumes "swtch_search k ps pp n = (r, m)"
  shows "m \<le> n \<and> (\<forall>p\<in>set ps. SLOAD \<in> p_flag (procs k p) \<longrightarrow> m \<le> p_pri (procs k p)) \<and>
    (r = pp \<and> m = n \<or> (\<exists>p us vs. r = Some p \<and> ps = us @ p # vs \<and> m = p_pri (procs k p) \<and> m < n \<and>
       SLOAD \<in> p_flag (procs k p) \<and>
       (\<forall>q\<in>set us. SLOAD \<in> p_flag (procs k q) \<longrightarrow> m < p_pri (procs k q))))"
  using assms
proof (induction k ps pp n arbitrary: r m rule: swtch_search.induct)
  case (2 k p ps pp n)
  show ?case
  proof (cases "SLOAD \<in> p_flag (procs k p) \<and> p_pri (procs k p) < n")
    case True
    with 2 have IH: "m \<le> p_pri (procs k p) \<and> (\<forall>q\<in>set ps. SLOAD \<in> p_flag (procs k q) \<longrightarrow> m \<le> p_pri (procs k q)) \<and>
      (r = Some p \<and> m = p_pri (procs k p) \<or> (\<exists>q us vs. r = Some q \<and> ps = us @ q # vs \<and> m = p_pri (procs k q) \<and>
        m < p_pri (procs k p) \<and> SLOAD \<in> p_flag (procs k q) \<and>
        (\<forall>q\<in>set us. SLOAD \<in> p_flag (procs k q) \<longrightarrow> m < p_pri (procs k q))))" by simp
    then consider (here) "r = Some p" "m = p_pri (procs k p)"
      | (later) q us vs where "r = Some q" "ps = us @ q # vs" "m = p_pri (procs k q)"
          "m < p_pri (procs k p)" "SLOAD \<in> p_flag (procs k q)"
          "\<forall>q\<in>set us. SLOAD \<in> p_flag (procs k q) \<longrightarrow> m < p_pri (procs k q)"
      by blast
    then show ?thesis
    proof cases
      case here
      then show ?thesis
        using IH True by (intro conjI disjI2 exI [of _ p] exI [of _ "[]"] exI [of _ ps]) auto
    next
      case later
      then have "p # ps = (p # us) @ q # vs" "\<forall>q\<in>set (p # us). SLOAD \<in> p_flag (procs k q) \<longrightarrow> m < p_pri (procs k q)"
        by auto
      with later IH True show ?thesis
        by (intro conjI disjI2 exI [of _ q] exI [of _ "p # us"] exI [of _ vs]) auto
    qed
  next
    case False
    with 2 have IH: "m \<le> n \<and> (\<forall>q\<in>set ps. SLOAD \<in> p_flag (procs k q) \<longrightarrow> m \<le> p_pri (procs k q)) \<and>
      (r = pp \<and> m = n \<or> (\<exists>q us vs. r = Some q \<and> ps = us @ q # vs \<and> m = p_pri (procs k q) \<and>
        m < n \<and> SLOAD \<in> p_flag (procs k q) \<and>
        (\<forall>q\<in>set us. SLOAD \<in> p_flag (procs k q) \<longrightarrow> m < p_pri (procs k q))))" by auto
    then have le: "SLOAD \<in> p_flag (procs k p) \<longrightarrow> m \<le> p_pri (procs k p)" using False by auto
    from IH consider "r = pp" "m = n"
      | (later) q us vs where "r = Some q" "ps = us @ q # vs" "m = p_pri (procs k q)"
          "m < n" "SLOAD \<in> p_flag (procs k q)"
          "\<forall>q\<in>set us. SLOAD \<in> p_flag (procs k q) \<longrightarrow> m < p_pri (procs k q)"
      by blast
    then show ?thesis
    proof cases
      case later
      then have "p # ps = (p # us) @ q # vs" "\<forall>q\<in>set (p # us). SLOAD \<in> p_flag (procs k q) \<longrightarrow> m < p_pri (procs k q)"
        using False by auto
      with later IH le show ?thesis
        by (intro conjI disjI2 exI [of _ q] exI [of _ "p # us"] exI [of _ vs]) auto
    qed (use IH le in auto)
  qed
qed simp

lemma updatepri_loop_decays:
  "updatepri_loop a s = (if a = 0 then (0, s) else if s = 1 then (a, 0) else (0, s - 1))"
  by (subst updatepri_loop.simps, subst updatepri_loop.simps) simp

lemma sched_ok_sleep:
  assumes ok: "sched_ok k" and nq: "p \<notin> set (qs k)" "p_wchan (procs k p) = 0" and id: "ident \<noteq> 0"
  fixes pri :: int
  defines "k1 \<equiv> updproc p (\<lambda>x. x\<lparr>p_wchan := ident, p_slptime := 0, p_pri := pri, p_stat := SSLEEP\<rparr>)
      (k\<lparr>slpque := (slpque k)(SHASH ident := p # slpque k (SHASH ident))\<rparr>)"
  shows "sched_ok k1" "p \<in> sleepers ident k1"
proof -
  have n: "p \<notin> set (slpque k h)" for h using ok nq(2) by (auto simp: sched_ok_def)
  then show "sched_ok k1" using ok nq(1) id by (auto simp: sched_ok_def k1_def)
  show "p \<in> sleepers ident k1" by (simp add: sleepers_def k1_def)
qed

lemma sched_ok_flag:
  assumes "sched_ok k" "p \<notin> set (qs k)"
  shows "sched_ok (updproc p (\<lambda>x. x\<lparr>p_flag := fl\<rparr>) k)"
proof -
  have "p_wchan (procs (updproc p (\<lambda>x. x\<lparr>p_flag := fl\<rparr>) k) q) = p_wchan (procs k q)"
    "p_stat (procs (updproc p (\<lambda>x. x\<lparr>p_flag := fl\<rparr>) k) q) = p_stat (procs k q)" for q by simp_all
  moreover have "q \<in> set (qs k) \<Longrightarrow> procs (updproc p (\<lambda>x. x\<lparr>p_flag := fl\<rparr>) k) q = procs k q" for q
    using assms(2) by auto
  ultimately show ?thesis using assms(1) unfolding sched_ok_def by simp
qed

lemma tsleep_enter_blocks:
  assumes ok: "sched_ok k" and "\<not> panicstr k" and p: "p = u_procp k" "p \<notin> set (qs k)" "p_wchan (procs k p) = 0"
    and id: "ident \<noteq> 0" "p \<noteq> 0 \<longrightarrow> ident \<noteq> a_runin k \<and> ident \<noteq> a_runout k"
    and t: "timo = 0 \<or> callfree (callouts k) \<noteq> []" 
    and sg: "catch \<longrightarrow> (\<forall>j. p_sig (procs j p) = p_sig (procs k p) \<and> p_sigmask (procs j p) = p_sigmask (procs k p) \<and>
      p_flag (procs j p) = insert P_SINTR (p_flag (procs k p)) \<longrightarrow> cursig p j = (0, j))"
  shows "\<exists>k'. tsleep_enter cursig ident pri catch timo k = Some (Inr (TSwitch k')) \<and> sched_ok k' \<and>
    p \<in> sleepers ident k' \<and> p_stat (procs k' p) = SSLEEP \<and>
    p_flag (procs k' p) = (if catch then insert P_SINTR (p_flag (procs k p)) else p_flag (procs k p))"
proof -
  define fl where "fl = (if catch then insert P_SINTR (p_flag (procs k p)) else p_flag (procs k p))"
  define k1 where "k1 = updproc p (\<lambda>x. x\<lparr>p_wchan := ident, p_slptime := 0, p_pri := pri, p_stat := SSLEEP\<rparr>)
      (k\<lparr>slpque := (slpque k)(SHASH ident := p # slpque k (SHASH ident))\<rparr>)"
  note s = sched_ok_sleep [OF ok p(2,3) id(1), of pri, folded k1_def]
  obtain c where c: "timo \<noteq> 0 \<Longrightarrow> timeout (a_endtsleep k) (a_proc k p) timo (callouts k) = Inr c"
    using t by (cases "callfree (callouts k)") (auto simp: timeout_def)
  define k2 where "k2 = updproc p (\<lambda>x. x\<lparr>p_flag := fl\<rparr>) (if timo \<noteq> 0 then k1\<lparr>callouts := c\<rparr> else k1)"
  have "p \<notin> set (qs (if timo \<noteq> 0 then k1\<lparr>callouts := c\<rparr> else k1))" using p(2) by (simp add: k1_def)
  moreover have "sched_ok (if timo \<noteq> 0 then k1\<lparr>callouts := c\<rparr> else k1)"
    using s(1) by (simp add: sched_ok_def)
  ultimately have "sched_ok k2" unfolding k2_def by (intro sched_ok_flag)
  moreover have "p \<in> sleepers ident k2" "p_stat (procs k2 p) = SSLEEP"
    "a_runin k2 = a_runin k" "a_runout k2 = a_runout k" "p_flag (procs k2 p) = fl"
    by (simp_all add: k2_def sleepers_def k1_def)
  ultimately have k2: "sched_ok k2" "p \<in> sleepers ident k2" "p_stat (procs k2 p) = SSLEEP"
    "a_runin k2 = a_runin k" "a_runout k2 = a_runout k" "p_flag (procs k2 p) = fl" by blast+
  have pid: "p_wchan (procs k2 p) = ident" using k2(2) by (simp add: sleepers_def)
  let ?nv = "\<lambda>k. k\<lparr>u_ru := (u_ru k)\<lparr>ru_nvcsw := ru_nvcsw (u_ru k) + 1\<rparr>\<rparr>"
  have nv: "sched_ok (?nv k) = sched_ok k" "sleepers c (?nv k) = sleepers c k" for k c
    by (simp_all add: sched_ok_def sleepers_def)
  have comm: "x\<lparr>p_flag := f, p_stat := st\<rparr> = x\<lparr>p_stat := st, p_flag := f\<rparr>" for x f st by simp
  have e: "tsleep_enter cursig ident pri catch timo k =
      map_option (\<lambda>r. kbind r (\<lambda>k''. Inr (TSwitch (?nv k''))))
        (if p \<noteq> 0 then wakeup (a_runin k2) k2 else Some (Inr k2))"
    using assms(2) c id(1) sg
    by (cases "timo = 0"; cases catch) (simp_all add: tsleep_enter_def Let_def k2_def k1_def fl_def comm p(1) [symmetric])
  show ?thesis
    unfolding fl_def [symmetric]
  proof (cases "p = 0")
    case True
    with e k2 show "\<exists>k'. tsleep_enter cursig ident pri catch timo k = Some (Inr (TSwitch k')) \<and> sched_ok k' \<and>
      p \<in> sleepers ident k' \<and> p_stat (procs k' p) = SSLEEP \<and> p_flag (procs k' p) = fl"
      by (intro exI [of _ "?nv k2"]) (simp add: nv)
  next
    case False
    from wakeup_correct [OF k2(1), of "a_runin k2"] obtain k3 X where w:
      "wakeup (a_runin k2) k2 = Some (Inr k3)" "woke X k2 k3" "sched_ok k3"
      "X \<subseteq> sleepers (a_runin k2) k2 \<union> sleepers (a_runout k2) k2" by blast
    have "p \<notin> X" using w(4) pid id(2) False k2(4,5) by (auto simp: sleepers_def)
    then have "p \<in> sleepers ident k3" "procs k3 p = procs k2 p"
      using sleepers_woke [OF w(2), of ident] k2(2) w(2) by (auto simp: woke_def)
    with e False w k2 show "\<exists>k'. tsleep_enter cursig ident pri catch timo k = Some (Inr (TSwitch k')) \<and> sched_ok k' \<and>
      p \<in> sleepers ident k' \<and> p_stat (procs k' p) = SSLEEP \<and> p_flag (procs k' p) = fl"
      by (intro exI [of _ "?nv k3"]) (simp add: nv)
  qed
qed

section \<open>Properties\<close>

definition demo_sleep :: kern where
  "demo_sleep = (let k = demo_kern 7 7 7 in
     k\<lparr>procs := (procs k)(2 := (demo_proc 7 7)\<lparr>p_stat := SSLEEP, p_wchan := 4096\<rparr>),
       slpque := (\<lambda>_. [])(0 := [2])\<rparr>)"

lemma demo_sleep_fields [simp]:
  "slpque demo_sleep = (\<lambda>_. [])(0 := [2])" "qs demo_sleep = []"
  "procs demo_sleep 2 = (demo_proc 7 7)\<lparr>p_stat := SSLEEP, p_wchan := 4096\<rparr>"
  by (simp_all add: demo_sleep_def Let_def demo_kern_def)

lemma SHASH_4096 [simp]: "SHASH 4096 = 0"
  by (simp add: SHASH_def SQSIZE_def)

lemma demo_sleep_ok: "sched_ok demo_sleep"
  by (simp add: sched_ok_def)

lemma demo_kern_sched: "sched_ok (demo_kern pid grp m)"
  by (simp add: sched_ok_def demo_kern_def Let_def)

text \<open>
  C15. \<open>wakeup\<close> returns, without a panic, and wakes every process that waits on the channel:
  those that slept are runnable and, if loaded, on the run queue, those that were stopped
  stay stopped but wait on nothing. Apart from them it touches at most the processes that
  wait for \<^verbatim>\<open>runout\<close>, and it keeps the queue invariant.
\<close>

theorem wakeup_wakes_all:
  assumes "sched_ok k"
  shows "\<exists>k' X. wakeup chan k = Some (Inr k') \<and> sched_ok k' \<and> woke X k k' \<and>
    sleepers chan k \<subseteq> X \<and> X \<subseteq> sleepers chan k \<union> sleepers (a_runout k) k \<and> sleepers chan k' = {}"
proof -
  from wakeup_correct [OF assms, of chan] obtain k' X where w: "wakeup chan k = Some (Inr k')"
    "woke X k k'" "sched_ok k'" "sleepers chan k \<subseteq> X" "X \<subseteq> sleepers chan k \<union> sleepers (a_runout k) k"
    by blast
  moreover have "sleepers chan k' = {}" using sleepers_woke [OF w(2), of chan] w(4) by auto
  ultimately show ?thesis by blast
qed

lemma wakeup_wakes_all_witness:
  "\<exists>k'. wakeup 4096 demo_sleep = Some (Inr k') \<and> p_stat (procs k' 2) = SRUN \<and> p_wchan (procs k' 2) = 0"
  using wakeup_wakes_all [OF demo_sleep_ok, of 4096] by (auto simp: woke_def sleepers_def)

text \<open>
  \<open>setrun\<close> makes a sleeping, stopped or new process runnable, takes it off its sleep
  queue and puts it on the run queue if it is loaded; it touches no other process but
  those that wait for \<^verbatim>\<open>runout\<close>, and keeps the queue invariant. For a process in any other
  state it panics.
\<close>

theorem setrun_makes_runnable:
  assumes "sched_ok k" and "p \<notin> set (qs k)"
    and "p_wchan (procs k p) \<noteq> 0 \<longrightarrow> p \<in> set (slpque k (SHASH (p_wchan (procs k p))))"
    and "p_stat (procs k p) = SIDL \<longrightarrow> p_wchan (procs k p) = 0"
  shows "if p_stat (procs k p) \<in> {SSLEEP, SSTOP, SIDL} then
      \<exists>k' X. setrun p k = Some (Inr k') \<and> sched_ok k' \<and> p_stat (procs k' p) = SRUN \<and>
        p_wchan (procs k' p) = 0 \<and> (SLOAD \<in> p_flag (procs k p) \<longrightarrow> p \<in> set (qs k')) \<and>
        X \<subseteq> sleepers (a_runout k) k \<and> (\<forall>q. q \<noteq> p \<longrightarrow> q \<notin> X \<longrightarrow> procs k' q = procs k q)
    else setrun p k = Some (Inl (Panic ''setrun''))"
proof (cases "p_stat (procs k p) \<in> {SSLEEP, SSTOP, SIDL}")
  case True
  from setrun_correct [OF assms(1) True assms(3,4,2)] True show ?thesis by (elim exE conjE) (auto intro!: exI)
next
  case False
  then show ?thesis by (cases "p_stat (procs k p)") (auto simp: setrun_def)
qed

lemma setrun_makes_runnable_witness:
  "\<exists>k'. setrun 2 demo_sleep = Some (Inr k') \<and> 2 \<in> set (qs k')"
  using setrun_makes_runnable [OF demo_sleep_ok, of 2] by (auto simp: demo_proc_def)

text \<open>
  C17. \<open>swtch\<close> takes from the run queue the first of the loaded processes with the best
  (lowest) priority, makes its priority the current one and keeps the queue invariant; it
  idles only when no loaded process has a priority below 128.
\<close>

theorem swtch_picks_best:
  assumes "sched_ok k"
  shows "case swtch_pick k of
      (None, k') \<Rightarrow> qs k' = qs k \<and> (\<forall>q\<in>set (qs k). SLOAD \<in> p_flag (procs k q) \<longrightarrow> 128 \<le> p_pri (procs k q))
    | (Some (p, saved), k') \<Rightarrow>
        (\<exists>us vs. qs k = us @ p # vs \<and> qs k' = us @ vs \<and>
           (\<forall>q\<in>set us. SLOAD \<in> p_flag (procs k q) \<longrightarrow> p_pri (procs k p) < p_pri (procs k q)) \<and>
           (\<forall>q\<in>set vs. SLOAD \<in> p_flag (procs k q) \<longrightarrow> p_pri (procs k p) \<le> p_pri (procs k q))) \<and>
        SLOAD \<in> p_flag (procs k p) \<and> curpri k' = p_pri (procs k p) \<and>
        saved = (SSWAP \<in> p_flag (procs k p)) \<and> sched_ok k'"
proof -
  let ?k1 = "k\<lparr>noproc := False, runrun := 0\<rparr>"
  obtain r m where s: "swtch_search ?k1 (qs k) None 128 = (r, m)" by fastforce
  note c = swtch_search_correct [OF s, simplified]
  show ?thesis
  proof (cases r)
    case None
    with c show ?thesis by (auto simp: swtch_pick_def s Let_def)
  next
    case (Some p)
    with c obtain us vs where u: "qs k = us @ p # vs" "m = p_pri (procs k p)" "SLOAD \<in> p_flag (procs k p)"
      "\<forall>q\<in>set us. SLOAD \<in> p_flag (procs k q) \<longrightarrow> m < p_pri (procs k q)" by auto
    have d: "p \<notin> set us" "distinct (us @ vs)" using assms u(1) by (auto simp: sched_ok_def)
    then have rm: "remove1 p (qs k) = us @ vs" using u(1) by (simp add: remove1_append)
    let ?k' = "updproc p (\<lambda>x. x\<lparr>p_flag := p_flag x - {SSWAP}\<rparr>) (?k1\<lparr>qs := us @ vs, curpri := m\<rparr>)"
    have pick: "swtch_pick k = (Some (p, SSWAP \<in> p_flag (procs k p)), ?k')"
      by (simp add: swtch_pick_def s Let_def Some rm)
    have same: "p_stat (procs ?k' q) = p_stat (procs k q)" "p_wchan (procs ?k' q) = p_wchan (procs k q)"
      "SLOAD \<in> p_flag (procs ?k' q) \<longleftrightarrow> SLOAD \<in> p_flag (procs k q)" for q
      by auto
    have "slpque ?k' = slpque k" "qs ?k' = us @ vs" by simp_all
    then have "sched_ok ?k'"
      using assms d(2) u(1) unfolding sched_ok_def same by (simp del: fun_upd_apply)
    with pick u c show ?thesis by auto
  qed
qed

lemma swtch_picks_best_witness:
  "fst (swtch_pick ((demo_kern 7 7 7)\<lparr>qs := [1, 2],
      procs := (\<lambda>_. demo_proc 0 0)(2 := (demo_proc 7 7)\<lparr>p_pri := 30\<rparr>)\<rparr>)) = Some (2, False) \<and>
   sched_ok (snd (swtch_pick ((demo_kern 7 7 7)\<lparr>qs := [1, 2],
      procs := (\<lambda>_. demo_proc 0 0)(2 := (demo_proc 7 7)\<lparr>p_pri := 30\<rparr>)\<rparr>)))"
proof -
  let ?k = "(demo_kern 7 7 7)\<lparr>qs := [1, 2], procs := (\<lambda>_. demo_proc 0 0)(2 := (demo_proc 7 7)\<lparr>p_pri := 30\<rparr>)\<rparr>"
  have "sched_ok ?k" by (simp add: sched_ok_def demo_kern_def demo_proc_def Let_def)
  moreover have "fst (swtch_pick ?k) = Some (2, False)"
    by (simp add: swtch_pick_def Let_def demo_proc_def)
  ultimately show ?thesis using swtch_picks_best [of ?k] by (auto split: prod.splits)
qed

text \<open>
  C18. \<open>setpri\<close> never sets a priority above 127, and sets it below \<^verbatim>\<open>PUSER\<close> only for a negative
  nice value. \<open>updatepri\<close>, which is meant to let the recorded processor usage decay by one
  fifth for every second slept, drops all of it as soon as the process has slept for more
  than two seconds: \<^verbatim>\<open>SCHMAG * a\<close> expands to \<^verbatim>\<open>8/10 * a\<close>, which is 0.
\<close>

theorem updatepri_forgets_usage:
  "p_pri (procs (setpri p k) p) \<le> 127 \<and>
   (0 \<le> p_nice (procs k p) \<longrightarrow> 50 \<le> p_pri (procs (setpri p k) p)) \<and>
   (2 < p_slptime (procs k p) \<longrightarrow> p_cpu (procs (updatepri p k) p) = 0) \<and>
   (p_slptime (procs k p) = 2 \<longrightarrow> p_cpu (procs (updatepri p k) p) = p_cpu (procs k p))"
proof -
  have cpu: "p_cpu (procs (setpri p k') p) = p_cpu (procs k' p)" for k'
    by (simp add: setpri_def Let_def)
  have u: "0 \<le> uint (p_cpu (procs k p))" "uint (p_cpu (procs k p)) < 256"
    using uint_lt2p [of "p_cpu (procs k p)"] by simp_all
  have "0 \<le> uint (p_cpu (procs k p)) div 16"
    by (metis pos_imp_zdiv_nonneg_iff u(1) zero_less_numeral)
  then have "p_pri (procs (setpri p k) p) \<le> 127"
    "0 \<le> p_nice (procs k p) \<longrightarrow> 50 \<le> p_pri (procs (setpri p k) p)"
    by (auto simp: setpri_def Let_def)
  moreover have "2 < p_slptime (procs k p) \<longrightarrow> p_cpu (procs (updatepri p k) p) = 0"
    by (simp add: updatepri_def updatepri_loop_decays Let_def cpu split_beta)
  moreover have "p_slptime (procs k p) = 2 \<longrightarrow> p_cpu (procs (updatepri p k) p) = p_cpu (procs k p)"
    using u by (simp add: updatepri_def updatepri_loop_decays Let_def cpu split_beta uint_0_iff)
  ultimately show ?thesis by blast
qed

lemma updatepri_forgets_usage_witness:
  "p_cpu (procs (updatepri 2 ((demo_kern 7 7 7)\<lparr>procs := (\<lambda>_. (demo_proc 0 0)\<lparr>p_cpu := 200, p_slptime := 3\<rparr>)\<rparr>)) 2) = 0"
  using updatepri_forgets_usage [of 2 "(demo_kern 7 7 7)\<lparr>procs := (\<lambda>_. (demo_proc 0 0)\<lparr>p_cpu := 200, p_slptime := 3\<rparr>)\<rparr>"]
  by simp

text \<open>
  C16. No wakeup is lost: a process that calls \<open>tsleep\<close>, interruptible or not, while no signal
  is there for an interruptible call to return for (\<open>cursig\<close> answers 0 for the pending and held signals of the process), is on its sleep queue when it gives up the processor, and a
  later \<open>wakeup\<close> of the channel makes it runnable and puts it on the run queue if it is loaded.
  A process other than the swapper (process 0) is not to wait on the two channels of the
  swapper, because \<open>tsleep\<close> itself wakes those up; a time limit needs a free callout.
\<close>

theorem tsleep_then_wakeup:
  assumes "sched_ok k" "\<not> panicstr k" "u_procp k \<notin> set (qs k)" "p_wchan (procs k (u_procp k)) = 0"
    and "ident \<noteq> 0" "u_procp k \<noteq> 0 \<longrightarrow> ident \<noteq> a_runin k \<and> ident \<noteq> a_runout k"
    and "timo = 0 \<or> callfree (callouts k) \<noteq> []"
    and "catch \<longrightarrow> (\<forall>j. p_sig (procs j (u_procp k)) = p_sig (procs k (u_procp k)) \<and>
      p_sigmask (procs j (u_procp k)) = p_sigmask (procs k (u_procp k)) \<and>
      p_flag (procs j (u_procp k)) = insert P_SINTR (p_flag (procs k (u_procp k))) \<longrightarrow> cursig (u_procp k) j = (0, j))"
  shows "\<exists>k1 k2. tsleep_enter cursig ident pri catch timo k = Some (Inr (TSwitch k1)) \<and>
    sched_ok k1 \<and> u_procp k \<in> sleepers ident k1 \<and> p_stat (procs k1 (u_procp k)) = SSLEEP \<and>
    wakeup ident k1 = Some (Inr k2) \<and> sched_ok k2 \<and> p_stat (procs k2 (u_procp k)) = SRUN \<and>
    (SLOAD \<in> p_flag (procs k (u_procp k)) \<longrightarrow> u_procp k \<in> set (qs k2))"
proof -
  from tsleep_enter_blocks [OF assms(1,2) refl assms(3-7), of catch cursig pri, OF assms(8)] obtain k1 where k1:
    "tsleep_enter cursig ident pri catch timo k = Some (Inr (TSwitch k1))" "sched_ok k1"
    "u_procp k \<in> sleepers ident k1" "p_stat (procs k1 (u_procp k)) = SSLEEP"
    "SLOAD \<in> p_flag (procs k (u_procp k)) \<Longrightarrow> SLOAD \<in> p_flag (procs k1 (u_procp k))" by fastforce
  from wakeup_correct [OF k1(2), of ident] obtain k2 X where
    "wakeup ident k1 = Some (Inr k2)" "woke X k1 k2" "sched_ok k2" "sleepers ident k1 \<subseteq> X" by blast
  with k1 show ?thesis by (intro exI [of _ k1] exI [of _ k2]) (auto simp: woke_def)
qed

lemma tsleep_then_wakeup_witness:
  "\<exists>k1 k2. tsleep_enter (\<lambda>p j. (if p_sig (procs j p) AND NOT (p_sigmask (procs j p)) = 0 then 0 else 1, j)) 4096 30 True 100 (demo_kern 7 7 7) = Some (Inr (TSwitch k1)) \<and>
     wakeup 4096 k1 = Some (Inr k2) \<and> p_stat (procs k2 2) = SRUN"
proof -
  have f: "\<not> panicstr (demo_kern 7 7 7)" "qs (demo_kern 7 7 7) = []" "a_runin (demo_kern 7 7 7) = 1056"
    "a_runout (demo_kern 7 7 7) = 1088" "p_wchan (procs (demo_kern 7 7 7) 2) = 0"
    "callfree (callouts (demo_kern 7 7 7)) \<noteq> []"
    by (simp_all add: demo_kern_def demo_proc_def Let_def coutinit_def)
  have z: "p_sig (procs (demo_kern 7 7 7) 2) = 0" by (simp add: demo_kern_def demo_proc_def Let_def)
  show ?thesis
    using tsleep_then_wakeup [OF demo_kern_sched f(1), where ident = 4096 and timo = 100 and catch = True and pri = 30
        and cursig = "\<lambda>p j. (if p_sig (procs j p) AND NOT (p_sigmask (procs j p)) = 0 then 0 else 1, j)"] f z
    by simp blast
qed

end
