(* ===== verification/Sig.thy ===== *)
theory Sig
  imports Synch
begin

text \<open>
  Signals (sys/kernel/kern_sig.c, sys/kernel/kern_sig2.c, sys/include/signalvar.h): posting a
  signal (\<^verbatim>\<open>psignal\<close>, \<^verbatim>\<open>gsignal\<close>, \<^verbatim>\<open>kill\<close>), the choice of the signal that the running process
  takes (\<^verbatim>\<open>issignal\<close>, \<^verbatim>\<open>postsig\<close>) and the system calls on dispositions and masks. A signal set
  is a word of 32 bits, signal \<open>m\<close> being bit \<open>m - 1\<close>. A point where the process gives up the
  processor ends the operation with an outcome that says so. The results of \<^verbatim>\<open>copyin\<close> and
  \<^verbatim>\<open>copyout\<close>, the real user ids that \<^verbatim>\<open>fill_from_u\<close> finds, and the success of \<^verbatim>\<open>core\<close> are
  parameters.
\<close>

section \<open>Signals and their properties\<close>

definition NSIG :: nat where
  "NSIG = 32"

abbreviation (input) SIGILL :: nat where "SIGILL \<equiv> 4"
abbreviation (input) SIGKILL :: nat where "SIGKILL \<equiv> 9"
abbreviation (input) SIGSTOP :: nat where "SIGSTOP \<equiv> 17"
abbreviation (input) SIGTSTP :: nat where "SIGTSTP \<equiv> 18"
abbreviation (input) SIGCONT :: nat where "SIGCONT \<equiv> 19"
abbreviation (input) SIGCHLD :: nat where "SIGCHLD \<equiv> 20"
abbreviation (input) SIGTTIN :: nat where "SIGTTIN \<equiv> 21"
abbreviation (input) SIGTTOU :: nat where "SIGTTOU \<equiv> 22"
abbreviation (input) SIG_DFL :: u32 where "SIG_DFL \<equiv> 0"
abbreviation (input) SIG_IGN :: u32 where "SIG_IGN \<equiv> 1"
abbreviation (input) SA_ONSTACK :: u32 where "SA_ONSTACK \<equiv> 1"
abbreviation (input) SA_RESTART :: u32 where "SA_RESTART \<equiv> 2"
abbreviation (input) SA_DISABLE :: u32 where "SA_DISABLE \<equiv> 4"
abbreviation (input) SA_NOCLDSTOP :: u32 where "SA_NOCLDSTOP \<equiv> 8"
abbreviation (input) SAS_OLDMASK :: u32 where "SAS_OLDMASK \<equiv> 1"
abbreviation (input) SAS_ALTSTACK :: u32 where "SAS_ALTSTACK \<equiv> 2"
abbreviation (input) NZERO :: int where "NZERO \<equiv> 0"

datatype sigprop_bit = SA_KILL | SA_CORE | SA_STOP | SA_TTYSTOP | SA_IGNORE | SA_CONT

definition sigprop_table :: "sigprop_bit set list" where
  "sigprop_table =
     [{}, {SA_KILL}, {SA_KILL}, {SA_KILL, SA_CORE}, {SA_KILL, SA_CORE}, {SA_KILL, SA_CORE},
      {SA_KILL, SA_CORE}, {SA_KILL, SA_CORE}, {SA_KILL, SA_CORE}, {SA_KILL}, {SA_KILL, SA_CORE},
      {SA_KILL, SA_CORE}, {SA_KILL, SA_CORE}, {SA_KILL}, {SA_KILL}, {SA_KILL}, {SA_IGNORE},
      {SA_STOP}, {SA_STOP, SA_TTYSTOP}, {SA_IGNORE, SA_CONT}, {SA_IGNORE}, {SA_STOP, SA_TTYSTOP},
      {SA_STOP, SA_TTYSTOP}, {SA_IGNORE}, {SA_KILL}, {SA_KILL}, {SA_KILL}, {SA_KILL}, {SA_IGNORE},
      {SA_IGNORE}, {SA_KILL}, {SA_KILL}, {}]"

definition sigprop :: "nat \<Rightarrow> sigprop_bit set" where
  "sigprop sig = sigprop_table ! sig"

definition sigmask :: "nat \<Rightarrow> u32" where
  "sigmask m = push_bit (m - 1) 1"

definition contsigmask :: u32 where
  "contsigmask = sigmask SIGCONT"

definition stopsigmask :: u32 where
  "stopsigmask = sigmask SIGSTOP OR sigmask SIGTSTP OR sigmask SIGTTIN OR sigmask SIGTTOU"

definition sigcantmask :: u32 where
  "sigcantmask = sigmask SIGKILL OR sigmask SIGSTOP"

text \<open>\<^verbatim>\<open>ffs\<close> of sys/pic32/machdep.c; \<open>mips_clz\<close> is the instruction that counts leading zeros.\<close>

definition mips_clz :: "u32 \<Rightarrow> nat" where
  "mips_clz w = length (takeWhile (\<lambda>i. \<not> bit w i) (rev [0..<32]))"

definition ffs :: "u32 \<Rightarrow> nat" where
  "ffs i = (if i \<noteq> 0 then 32 - mips_clz (i AND (- i)) else 0)"

section \<open>Posting a signal\<close>

definition stop :: "nat \<Rightarrow> kern \<Rightarrow> kern kres option" where
  "stop p k =
     (let k1 = updproc p (\<lambda>x. x\<lparr>p_stat := SSTOP, p_flag := p_flag x - {P_WAITED}\<rparr>) k in
      wakeup (case p_pptr (procs k1 p) of None \<Rightarrow> 0 | Some q \<Rightarrow> a_proc k1 q) k1)"

datatype sigact = A_DFL | A_CATCH | A_HOLD

text \<open>
  \<^verbatim>\<open>psignal\<close> up to the switch on the state of the process: the action, the changes to the
  nice value and the pending set. \<open>None\<close> is an early return.
\<close>

definition sig_action :: "proc \<Rightarrow> nat \<Rightarrow> sigact" where
  "sig_action x sig =
     (if P_TRACED \<in> p_flag x then A_DFL
      else if p_sigmask x AND sigmask sig \<noteq> 0 then A_HOLD
      else if p_sigcatch x AND sigmask sig \<noteq> 0 then A_CATCH
      else A_DFL)"

definition sig_note :: "sigact \<Rightarrow> nat \<Rightarrow> proc \<Rightarrow> proc" where
  "sig_note action sig x =
     (let x1 = (if p_nice x > NZERO \<and> action = A_DFL \<and> SA_KILL \<in> sigprop sig \<and> P_TRACED \<notin> p_flag x
                then x\<lparr>p_nice := NZERO\<rparr> else x) in
      if SA_CONT \<in> sigprop sig then x1\<lparr>p_sig := p_sig x1 AND NOT stopsigmask\<rparr> else x1)"

definition sig_add :: "nat \<Rightarrow> proc \<Rightarrow> proc" where
  "sig_add sig x =
     (let x1 = (if SA_STOP \<in> sigprop sig then x\<lparr>p_sig := p_sig x AND NOT contsigmask\<rparr> else x) in
      x1\<lparr>p_sig := p_sig x1 OR sigmask sig\<rparr>)"

definition psignal_post :: "nat \<Rightarrow> nat \<Rightarrow> kern \<Rightarrow> sigact option \<times> kern" where
  "psignal_post p sig k =
     (let x = procs k p; action = sig_action x sig; prop = sigprop sig in
      if P_TRACED \<notin> p_flag x \<and> p_sigignore x AND sigmask sig \<noteq> 0 then (None, k)
      else
        let x2 = sig_note action sig x in
        if SA_STOP \<in> prop \<and> SA_TTYSTOP \<in> prop \<and> p_pptr x2 = Some 1 \<and> action = A_DFL
        then (None, updproc p (\<lambda>_. x2) k)
        else
          let x4 = sig_add sig x2 in
          (if action = A_HOLD \<and> (SA_CONT \<notin> prop \<or> p_stat x4 \<noteq> SSTOP) then None else Some action,
           updproc p (\<lambda>_. x4) k))"

definition psignal_run :: "nat \<Rightarrow> kern \<Rightarrow> kern kres option" where
  "psignal_run p k =
     setrun p (updproc p (\<lambda>x. if p_pri x > PUSER then x\<lparr>p_pri := PUSER\<rparr> else x) k)"

abbreviation sig_clear :: "nat \<Rightarrow> nat \<Rightarrow> kern \<Rightarrow> kern" where
  "sig_clear p sig k \<equiv> updproc p (\<lambda>x. x\<lparr>p_sig := p_sig x AND NOT (sigmask sig)\<rparr>) k"

text \<open>\<^verbatim>\<open>psignal\<close>, which calls itself for the parent, with \<^verbatim>\<open>SIGCHLD\<close>, when it stops a process.\<close>

function psignal :: "nat \<Rightarrow> nat \<Rightarrow> kern \<Rightarrow> kern kres option" where
  "psignal p sig k =
     (case psignal_post p sig k of
        (None, k1) \<Rightarrow> Some (Inr k1)
      | (Some action, k1) \<Rightarrow>
          let x = procs k1 p in
          (case p_stat x of
             SSLEEP \<Rightarrow>
               if P_SINTR \<notin> p_flag x then Some (Inr k1)
               else if P_TRACED \<in> p_flag x then psignal_run p k1
               else if SA_CONT \<in> sigprop sig \<and> action = A_DFL then Some (Inr (sig_clear p sig k1))
               else if SA_STOP \<in> sigprop sig then
                 (if action \<noteq> A_DFL then psignal_run p k1
                  else if SVFORK \<in> p_flag x then Some (Inr k1)
                  else case p_pptr x of None \<Rightarrow> Some (Inl Fault)
                  | Some q \<Rightarrow>
                      let k2 = updproc p (\<lambda>x. x\<lparr>p_ptracesig := int sig\<rparr>) (sig_clear p sig k1) in
                      (case (if P_NOCLDSTOP \<notin> p_flag (procs k2 q) then psignal q SIGCHLD k2
                             else Some (Inr k2)) of
                         None \<Rightarrow> None
                       | Some (Inl e) \<Rightarrow> Some (Inl e)
                       | Some (Inr k3) \<Rightarrow> stop p k3))
               else psignal_run p k1
           | SSTOP \<Rightarrow>
               if P_TRACED \<in> p_flag x then Some (Inr k1)
               else if sig = SIGKILL then psignal_run p k1
               else if SA_CONT \<in> sigprop sig then
                 (let k2 = (if action = A_DFL then sig_clear p sig k1 else k1) in
                  if action = A_CATCH \<or> p_wchan x = 0 then psignal_run p k2
                  else Some (Inr (updproc p (\<lambda>x. x\<lparr>p_stat := SSLEEP\<rparr>) k2)))
               else if SA_STOP \<in> sigprop sig then Some (Inr (sig_clear p sig k1))
               else if p_wchan x \<noteq> 0 \<and> P_SINTR \<in> p_flag x then Some (unsleep p k1)
               else Some (Inr k1)
           | _ \<Rightarrow> Some (Inr k1)))"
  by pat_completeness auto
termination
  by (relation "measure (\<lambda>(p, sig, k). if SA_STOP \<in> sigprop sig then 1 else 0)")
    (auto simp: sigprop_def sigprop_table_def)

declare psignal.simps [simp del]

fun gsignal_loop :: "int \<Rightarrow> nat \<Rightarrow> nat list \<Rightarrow> kern \<Rightarrow> kern kres option" where
  "gsignal_loop pgrp sig [] k = Some (Inr k)"
| "gsignal_loop pgrp sig (p # ps) k =
     (if p_pgrp (procs k p) = pgrp
      then (case psignal p sig k of Some (Inr k1) \<Rightarrow> gsignal_loop pgrp sig ps k1 | r \<Rightarrow> r)
      else gsignal_loop pgrp sig ps k)"

definition gsignal :: "int \<Rightarrow> nat \<Rightarrow> kern \<Rightarrow> kern kres option" where
  "gsignal pgrp sig k = (if pgrp = 0 then Some (Inr k) else gsignal_loop pgrp sig (allproc k) k)"

section \<open>Permission, kill and killpg\<close>

text \<open>
  The signal part of the user area of the running process. \<^verbatim>\<open>u_signal\<close> holds the addresses of the
  handlers. \<open>u_sigintr\<close> is in the kernel state, where \<^verbatim>\<open>tsleep\<close> reads it.
\<close>

record sigaltstack =
  ss_base :: u32
  ss_size :: int
  ss_flags :: u32

record usig =
  u_ruid :: int
  u_signal :: "nat \<Rightarrow> u32"
  u_sigmask :: "nat \<Rightarrow> u32"
  u_sigonstack :: u32
  u_oldmask :: u32
  u_psflags :: u32
  u_sigstk :: sigaltstack
  u_sigtramp :: u32

definition cansignal :: "(nat \<Rightarrow> int) \<Rightarrow> usig \<Rightarrow> nat \<Rightarrow> nat \<Rightarrow> kern \<Rightarrow> bool kres option" where
  "cansignal ruid us q signum k =
     (let c = procs k (u_procp k); t = procs k q in
      if p_uid c = 0 \<or> u_ruid us = ruid q \<or> uid_of c = ruid q \<or> u_ruid us = uid_of t \<or> p_uid c = p_uid t
      then Some (Inr True)
      else if signum = SIGCONT then inferior k q
      else Some (Inr False))"

text \<open>The loop of \<^verbatim>\<open>killpg1\<close> with the number of processes found and the error so far.\<close>

fun killpg1_loop ::
  "(nat \<Rightarrow> int) \<Rightarrow> usig \<Rightarrow> nat \<Rightarrow> int \<Rightarrow> bool \<Rightarrow> nat list \<Rightarrow> nat \<Rightarrow> int \<Rightarrow> kern \<Rightarrow> (nat \<times> int \<times> kern) kres option" where
  "killpg1_loop ruid us signo pgrp alle [] f error k = Some (Inr (f, error, k))"
| "killpg1_loop ruid us signo pgrp alle (p # ps) f error k =
     (let x = procs k p in
      if (p_pgrp x \<noteq> pgrp \<and> \<not> alle) \<or> p_ppid x = 0 \<or> SSYS \<in> p_flag x \<or> (alle \<and> p = u_procp k)
      then killpg1_loop ruid us signo pgrp alle ps f error k
      else case cansignal ruid us p signo k of
        None \<Rightarrow> None
      | Some (Inl e) \<Rightarrow> Some (Inl e)
      | Some (Inr False) \<Rightarrow>
          killpg1_loop ruid us signo pgrp alle ps f (if \<not> alle then EPERM else error) k
      | Some (Inr True) \<Rightarrow>
          (case (if signo \<noteq> 0 then psignal p signo k else Some (Inr k)) of
             None \<Rightarrow> None
           | Some (Inl e) \<Rightarrow> Some (Inl e)
           | Some (Inr k1) \<Rightarrow> killpg1_loop ruid us signo pgrp alle ps (f + 1) error k1))"

definition killpg1 ::
  "(nat \<Rightarrow> int) \<Rightarrow> usig \<Rightarrow> nat \<Rightarrow> int \<Rightarrow> bool \<Rightarrow> kern \<Rightarrow> (int \<times> kern) kres option" where
  "killpg1 ruid us signo pgrp alle k =
     (let pgrp' = (if \<not> alle \<and> pgrp = 0 then p_pgrp (procs k (u_procp k)) else pgrp) in
      if \<not> alle \<and> pgrp = 0 \<and> pgrp' = 0 then Some (Inr (ESRCH, k))
      else map_option (\<lambda>r. kbind r (\<lambda>(f, error, k1).
             Inr (if error \<noteq> 0 then error else if f = 0 then ESRCH else 0, k1)))
           (killpg1_loop ruid us signo pgrp' alle (allproc k) 0 0 k))"

definition kill :: "(nat \<Rightarrow> int) \<Rightarrow> usig \<Rightarrow> int \<Rightarrow> int \<Rightarrow> kern \<Rightarrow> kern kres option" where
  "kill ruid us pid signo k =
     (if signo < 0 \<or> signo \<ge> int NSIG then Some (Inr (k\<lparr>u_error := EINVAL\<rparr>))
      else if pid > 0 then
        (case pfind k pid of
           None \<Rightarrow> Some (Inr (k\<lparr>u_error := ESRCH\<rparr>))
         | Some p \<Rightarrow>
             (case cansignal ruid us p (nat signo) k of
                None \<Rightarrow> None
              | Some (Inl e) \<Rightarrow> Some (Inl e)
              | Some (Inr False) \<Rightarrow> Some (Inr (k\<lparr>u_error := EPERM\<rparr>))
              | Some (Inr True) \<Rightarrow>
                  map_option (\<lambda>r. kbind r (\<lambda>k1. Inr (k1\<lparr>u_error := 0\<rparr>)))
                    (if signo \<noteq> 0 then psignal p (nat signo) k else Some (Inr k))))
      else map_option (\<lambda>r. kbind r (\<lambda>(e, k1). Inr (k1\<lparr>u_error := e\<rparr>)))
             (if pid = -1 then killpg1 ruid us (nat signo) 0 True k
              else if pid = 0 then killpg1 ruid us (nat signo) 0 False k
              else killpg1 ruid us (nat signo) (- pid) False k))"

definition killpg :: "(nat \<Rightarrow> int) \<Rightarrow> usig \<Rightarrow> int \<Rightarrow> int \<Rightarrow> kern \<Rightarrow> kern kres option" where
  "killpg ruid us pgrp signo k =
     (if signo < 0 \<or> signo \<ge> int NSIG then Some (Inr (k\<lparr>u_error := EINVAL\<rparr>))
      else map_option (\<lambda>r. kbind r (\<lambda>(e, k1). Inr (k1\<lparr>u_error := e\<rparr>)))
             (killpg1 ruid us (nat signo) pgrp False k))"

section \<open>Taking a signal\<close>

text \<open>
  \<^verbatim>\<open>issignal\<close> ends with a signal to take (0 for none), or with the process stopped: by the
  default action of a stop signal, after which it clears the signal and looks again, or for
  its tracer, in \<^verbatim>\<open>issignal_traced\<close> after which the outcome of \<^verbatim>\<open>procxmt\<close> decides.
\<close>

datatype issig_out = ISig nat kern | IStop nat kern | ITrace nat kern

definition cur_pending :: "nat \<Rightarrow> kern \<Rightarrow> u32" where
  "cur_pending p k =
     (let x = procs k p; m = p_sig x AND NOT (p_sigmask x) in
      if SVFORK \<in> p_flag x then m AND NOT stopsigmask else m)"

text \<open>What \<^verbatim>\<open>issignal\<close> does with a signal that is neither ignored nor traced; \<open>None\<close> drops it.\<close>

definition issignal_act :: "usig \<Rightarrow> nat \<Rightarrow> nat \<Rightarrow> kern \<Rightarrow> issig_out kres option option" where
  "issignal_act us p sig k =
     (let x = procs k p; prop = sigprop sig in
      if u_signal us sig = SIG_DFL then
        (if p_pid x \<le> 1 then None
         else if SA_STOP \<in> prop then
           (if P_TRACED \<in> p_flag x \<or> p_pptr x = Some 1 \<and> SA_TTYSTOP \<in> prop then None
            else case p_pptr x of None \<Rightarrow> Some (Some (Inl Fault))
            | Some q \<Rightarrow>
                let k1 = updproc p (\<lambda>x. x\<lparr>p_ptracesig := int sig\<rparr>) k in
                Some (case (if P_NOCLDSTOP \<notin> p_flag (procs k1 q) then psignal q SIGCHLD k1
                            else Some (Inr k1)) of
                        None \<Rightarrow> None
                      | Some (Inl e) \<Rightarrow> Some (Inl e)
                      | Some (Inr k2) \<Rightarrow> map_option (map_sum id (IStop sig)) (stop p k2)))
         else if SA_IGNORE \<in> prop then None
         else Some (Some (Inr (ISig sig k))))
      else if u_signal us sig = SIG_IGN then None
      else Some (Some (Inr (ISig sig k))))"

definition issignal_trace :: "nat \<Rightarrow> nat \<Rightarrow> kern \<Rightarrow> issig_out kres option" where
  "issignal_trace p sig k =
     (let k1 = updproc p (\<lambda>x. x\<lparr>p_ptracesig := int sig\<rparr>) (sig_clear p sig k) in
      case p_pptr (procs k1 p) of None \<Rightarrow> Some (Inl Fault)
      | Some q \<Rightarrow>
          (case psignal q SIGCHLD k1 of
             None \<Rightarrow> None
           | Some (Inl e) \<Rightarrow> Some (Inl e)
           | Some (Inr k2) \<Rightarrow> map_option (map_sum id (ITrace sig)) (stop p k2)))"

partial_function (option) issignal :: "usig \<Rightarrow> nat \<Rightarrow> kern \<Rightarrow> issig_out kres option" where
  "issignal us p k =
     (let x = procs k p; m = cur_pending p k; sig = ffs m in
      if m = 0 then Some (Inr (ISig 0 k))
      else if sigmask sig AND p_sigignore x \<noteq> 0 \<and> P_TRACED \<notin> p_flag x then
        issignal us p (sig_clear p sig k)
      else if P_TRACED \<in> p_flag x \<and> SVFORK \<notin> p_flag x then issignal_trace p sig k
      else case issignal_act us p sig k of
             None \<Rightarrow> issignal us p (sig_clear p sig k)
           | Some r \<Rightarrow> r)"

text \<open>
  The rest of a pass after the tracer has let the process go with \<^verbatim>\<open>procxmt\<close> (\<open>None\<close> is the
  \<^verbatim>\<open>continue\<close> of the loop), and after a default stop.
\<close>

definition issignal_traced :: "usig \<Rightarrow> nat \<Rightarrow> kern \<Rightarrow> issig_out kres option" where
  "issignal_traced us p k =
     (let sig = nat (p_ptracesig (procs k p)) in
      if p_ptracesig (procs k p) = 0 then issignal us p k
      else
        let k1 = updproc p (\<lambda>x. x\<lparr>p_sig := p_sig x OR sigmask sig\<rparr>) k in
        if p_sigmask (procs k1 p) AND sigmask sig \<noteq> 0 then issignal us p k1
        else if P_TRACED \<notin> p_flag (procs k1 p) then issignal us p k1
        else case issignal_act us p sig k1 of
               None \<Rightarrow> issignal us p (sig_clear p sig k1)
             | Some r \<Rightarrow> r)"

definition issignal_resume :: "usig \<Rightarrow> nat \<Rightarrow> nat \<Rightarrow> kern \<Rightarrow> issig_out kres option" where
  "issignal_resume us p sig k = issignal us p (sig_clear p sig k)"

definition CURSIG :: "usig \<Rightarrow> nat \<Rightarrow> kern \<Rightarrow> issig_out kres option" where
  "CURSIG us p k =
     (let x = procs k p in
      if p_sig x = 0 \<or> P_TRACED \<notin> p_flag x \<and> p_sig x AND NOT (p_sigmask x) = 0
      then Some (Inr (ISig 0 k)) else issignal us p k)"

datatype postsig_out = PSend u32 nat u32 | PExit nat

definition postsig :: "bool \<Rightarrow> nat \<Rightarrow> usig \<Rightarrow> kern \<Rightarrow> postsig_out \<times> usig \<times> kern" where
  "postsig core sig us k =
     (let p = u_procp k; mask = sigmask sig; k1 = sig_clear p sig k; action = u_signal us sig in
      if action \<noteq> SIG_DFL then
        let old = (u_psflags us AND SAS_OLDMASK \<noteq> 0);
            returnmask = (if old then u_oldmask us else p_sigmask (procs k1 p));
            us1 = (if old then us\<lparr>u_psflags := u_psflags us AND NOT SAS_OLDMASK\<rparr> else us);
            k2 = updproc p (\<lambda>x. x\<lparr>p_sigmask := p_sigmask x OR (u_sigmask us sig OR mask)\<rparr>)
                   (k1\<lparr>u_error := 0, u_ru := (u_ru k1)\<lparr>ru_nsignals := ru_nsignals (u_ru k1) + 1\<rparr>\<rparr>) in
        (PSend action sig returnmask, us1, k2)
      else (PExit (if SA_CORE \<in> sigprop sig \<and> core then sig + 128 else sig), us, k1))"

section \<open>The system calls\<close>

record sigact_t =
  sa_handler :: u32
  sa_mask :: u32
  sa_flags :: u32

definition setsigvec :: "nat \<Rightarrow> sigact_t \<Rightarrow> usig \<Rightarrow> kern \<Rightarrow> usig \<times> kern" where
  "setsigvec signum sa us k =
     (let b = sigmask signum; p = u_procp k;
          us1 = us\<lparr>u_signal := (u_signal us)(signum := sa_handler sa),
                   u_sigmask := (u_sigmask us)(signum := sa_mask sa AND NOT sigcantmask),
                   u_sigonstack := (if sa_flags sa AND SA_ONSTACK \<noteq> 0
                                    then u_sigonstack us OR b else u_sigonstack us AND NOT b)\<rparr>;
          k1 = k\<lparr>u_sigintr := (if sa_flags sa AND SA_RESTART = 0
                               then u_sigintr k OR b else u_sigintr k AND NOT b)\<rparr>;
          x = procs k1 p;
          x1 = (if signum = SIGCHLD
                then x\<lparr>p_flag := (if sa_flags sa AND SA_NOCLDSTOP \<noteq> 0
                                  then insert P_NOCLDSTOP (p_flag x) else p_flag x - {P_NOCLDSTOP})\<rparr>
                else x);
          x2 = (if sa_handler sa = SIG_IGN \<or> SA_IGNORE \<in> sigprop signum \<and> sa_handler sa = SIG_DFL
                then x1\<lparr>p_sig := p_sig x1 AND NOT b,
                        p_sigignore := (if signum \<noteq> SIGCONT then p_sigignore x1 OR b else p_sigignore x1),
                        p_sigcatch := p_sigcatch x1 AND NOT b\<rparr>
                else x1\<lparr>p_sigignore := p_sigignore x1 AND NOT b,
                        p_sigcatch := (if sa_handler sa = SIG_DFL
                                       then p_sigcatch x1 AND NOT b else p_sigcatch x1 OR b)\<rparr>) in
      (us1, updproc p (\<lambda>_. x2) k1))"

text \<open>
  \<^verbatim>\<open>sigaction\<close>. The new action is \<open>nsa\<close>: absent, or what \<^verbatim>\<open>copyin\<close> gives (an error or the structure);
  \<open>osa\<close> is the result of \<^verbatim>\<open>copyout\<close> for the old one (0 for success), if it is asked for. The result has
  the old action that was stored. The other calls take their arguments in the same way.
\<close>

definition sigaction ::
  "int \<Rightarrow> (int + sigact_t) option \<Rightarrow> int option \<Rightarrow> u32 \<Rightarrow> usig \<times> kern \<Rightarrow> sigact_t option \<times> usig \<times> kern" where
  "sigaction signum nsa osa tramp st =
     (let us = (fst st)\<lparr>u_sigtramp := tramp\<rparr>; k = snd st; n = nat signum in
      if signum \<le> 0 \<or> signum \<ge> int NSIG then (None, us, k\<lparr>u_error := EINVAL\<rparr>)
      else if nsa \<noteq> None \<and> (n = SIGKILL \<or> n = SIGSTOP) then (None, us, k\<lparr>u_error := EINVAL\<rparr>)
      else
        let b = sigmask n;
            old = \<lparr>sa_handler = u_signal us n, sa_mask = u_sigmask us n,
              sa_flags = (if u_sigonstack us AND b \<noteq> 0 then SA_ONSTACK else 0) OR
                         (if u_sigintr k AND b = 0 then SA_RESTART else 0) OR
                         (if P_NOCLDSTOP \<in> p_flag (procs k (u_procp k)) then SA_NOCLDSTOP else 0)\<rparr>;
            out = (if osa = Some 0 then Some old else None) in
        if osa \<noteq> None \<and> osa \<noteq> Some 0 then (None, us, k\<lparr>u_error := the osa\<rparr>)
        else case nsa of
          None \<Rightarrow> (out, us, k\<lparr>u_error := 0\<rparr>)
        | Some (Inl e) \<Rightarrow> (out, us, k\<lparr>u_error := e\<rparr>)
        | Some (Inr sa) \<Rightarrow> (case setsigvec n sa us k of (us1, k1) \<Rightarrow> (out, us1, k1\<lparr>u_error := 0\<rparr>)))"

definition fatalsig :: "nat \<Rightarrow> usig \<Rightarrow> kern \<Rightarrow> usig \<times> kern kres option" where
  "fatalsig signum us k =
     (let p = u_procp k; mask = sigmask signum in
      (us\<lparr>u_signal := (u_signal us)(signum := SIG_DFL)\<rparr>,
       psignal p signum
         (updproc p (\<lambda>x. x\<lparr>p_sigignore := p_sigignore x AND NOT mask, p_sigcatch := p_sigcatch x AND NOT mask,
            p_sigmask := p_sigmask x AND NOT mask\<rparr>) k)))"

definition siginit :: "nat \<Rightarrow> kern \<Rightarrow> kern" where
  "siginit p k =
     fold (\<lambda>i k. if SA_IGNORE \<in> sigprop i \<and> i \<noteq> SIGCONT
                 then updproc p (\<lambda>x. x\<lparr>p_sigignore := p_sigignore x OR sigmask i\<rparr>) k else k) [0..<NSIG] k"

text \<open>\<open>sset\<close> is the result of \<^verbatim>\<open>copyin\<close>, if there is a new set, \<open>oset\<close> that of \<^verbatim>\<open>copyout\<close>.\<close>

definition sigprocmask ::
  "int \<Rightarrow> (int + u32) option \<Rightarrow> int option \<Rightarrow> kern \<Rightarrow> u32 option \<times> kern" where
  "sigprocmask how sset oset k =
     (let p = u_procp k; oldmask = p_sigmask (procs k p);
          (error, k1) =
            (case sset of None \<Rightarrow> (0, k)
             | Some (Inl e) \<Rightarrow> (e, k)
             | Some (Inr newmask) \<Rightarrow>
                 if how = 1 then
                   (0, updproc p (\<lambda>x. x\<lparr>p_sigmask := p_sigmask x OR (newmask AND NOT sigcantmask)\<rparr>) k)
                 else if how = 2 then (0, updproc p (\<lambda>x. x\<lparr>p_sigmask := p_sigmask x AND NOT newmask\<rparr>) k)
                 else if how = 3 then (0, updproc p (\<lambda>x. x\<lparr>p_sigmask := newmask AND NOT sigcantmask\<rparr>) k)
                 else (EINVAL, k)) in
      case oset of
        Some e \<Rightarrow> if error = 0 then (if e = 0 then Some oldmask else None, k1\<lparr>u_error := e\<rparr>)
                  else (None, k1\<lparr>u_error := error\<rparr>)
      | None \<Rightarrow> (None, k1\<lparr>u_error := error\<rparr>))"

definition sigpending :: "int option \<Rightarrow> kern \<Rightarrow> u32 option \<times> kern" where
  "sigpending sset k =
     (case sset of None \<Rightarrow> (None, k\<lparr>u_error := EINVAL\<rparr>)
      | Some e \<Rightarrow> (if e = 0 then Some (p_sig (procs k (u_procp k))) else None, k\<lparr>u_error := e\<rparr>))"

text \<open>\<^verbatim>\<open>sigsuspend\<close> up to its sleep, and after it.\<close>

definition sigsuspend_enter :: "(int + u32) option \<Rightarrow> usig \<Rightarrow> kern \<Rightarrow> usig \<times> kern" where
  "sigsuspend_enter sset us k =
     (let p = u_procp k;
          nmask = (case sset of Some (Inr m) \<Rightarrow> m | _ \<Rightarrow> 0) in
      (us\<lparr>u_oldmask := p_sigmask (procs k p), u_psflags := u_psflags us OR SAS_OLDMASK\<rparr>,
       updproc p (\<lambda>x. x\<lparr>p_sigmask := nmask AND NOT sigcantmask\<rparr>) k))"

definition sigsuspend_exit :: "kern \<Rightarrow> kern" where
  "sigsuspend_exit k = k\<lparr>u_error := EINTR\<rparr>"

definition sigaltstack ::
  "(int + sigaltstack) option \<Rightarrow> int option \<Rightarrow> usig \<Rightarrow> kern \<Rightarrow> sigaltstack option \<times> usig \<times> kern" where
  "sigaltstack nss oss us k =
     (let us0 = (if u_psflags us AND SAS_ALTSTACK = 0
                 then us\<lparr>u_sigstk := (u_sigstk us)\<lparr>ss_flags := ss_flags (u_sigstk us) OR SA_DISABLE\<rparr>\<rparr> else us);
          out = (if oss = Some 0 then Some (u_sigstk us0) else None) in
      if oss \<noteq> None \<and> oss \<noteq> Some 0 then (None, us0, k\<lparr>u_error := the oss\<rparr>)
      else case nss of
        None \<Rightarrow> (out, us0, k\<lparr>u_error := 0\<rparr>)
      | Some (Inl e) \<Rightarrow> (out, us0, k\<lparr>u_error := e\<rparr>)
      | Some (Inr ss) \<Rightarrow>
          if ss_flags ss AND SA_DISABLE \<noteq> 0 then
            (if ss_flags (u_sigstk us0) AND SA_ONSTACK \<noteq> 0 then (out, us0, k\<lparr>u_error := EINVAL\<rparr>)
             else (out, us0\<lparr>u_psflags := u_psflags us0 AND NOT SAS_ALTSTACK,
                            u_sigstk := (u_sigstk us0)\<lparr>ss_flags := ss_flags ss\<rparr>\<rparr>, k\<lparr>u_error := 0\<rparr>))
          else if ss_size ss < 128 then (out, us0, k\<lparr>u_error := ENOMEM\<rparr>)
          else (out, us0\<lparr>u_psflags := u_psflags us0 OR SAS_ALTSTACK, u_sigstk := ss\<rparr>, k\<lparr>u_error := 0\<rparr>))"

text \<open>\<^verbatim>\<open>sigstack\<close> with the base and the flag of the old and the new stack.\<close>

definition sigstack ::
  "(int + (u32 \<times> u32)) option \<Rightarrow> int option \<Rightarrow> usig \<Rightarrow> kern \<Rightarrow> (u32 \<times> u32) option \<times> usig \<times> kern" where
  "sigstack nss oss us k =
     (let out = (if oss = Some 0 then Some (ss_base (u_sigstk us), ss_flags (u_sigstk us) AND SA_ONSTACK) else None) in
      if oss \<noteq> None \<and> oss \<noteq> Some 0 then (None, us, k\<lparr>u_error := the oss\<rparr>)
      else case nss of
        None \<Rightarrow> (out, us, k\<lparr>u_error := 0\<rparr>)
      | Some (Inl e) \<Rightarrow> (out, us, k\<lparr>u_error := e\<rparr>)
      | Some (Inr (sp, onstack)) \<Rightarrow>
          (out, us\<lparr>u_sigstk := \<lparr>ss_base = sp, ss_size = 0,
                     ss_flags = ss_flags (u_sigstk us) OR (onstack AND SA_ONSTACK)\<rparr>,
                   u_psflags := u_psflags us OR SAS_ALTSTACK\<rparr>, k\<lparr>u_error := 0\<rparr>))"

text \<open>
  \<^verbatim>\<open>sigwait\<close> from the test of its loop: \<open>None\<close> says that it sleeps and tests again. \<open>sig\<close> is the
  result of \<^verbatim>\<open>copyout\<close>; the result has the signal that was stored.
\<close>

definition sigwait :: "(int + u32) option \<Rightarrow> int option \<Rightarrow> kern \<Rightarrow> (nat option \<times> kern) option" where
  "sigwait sset sig k =
     (case (sset, sig) of
        (Some s, Some e) \<Rightarrow>
          (case s of Inl err \<Rightarrow> Some (None, k\<lparr>u_error := err\<rparr>)
           | Inr wanted0 \<Rightarrow>
               let wanted = wanted0 OR sigcantmask; p = u_procp k;
                   avail = wanted AND p_sig (procs k p) in
               if avail = 0 then None
               else if avail AND sigcantmask \<noteq> 0 then Some (None, k\<lparr>u_error := EINTR\<rparr>)
               else let signo = ffs avail in
                 Some (if e = 0 then Some signo else None, (sig_clear p signo k)\<lparr>u_error := e\<rparr>))
      | _ \<Rightarrow> Some (None, k\<lparr>u_error := EINVAL\<rparr>))"

section \<open>Signal sets\<close>

lemma bit_sigmask: "bit (sigmask m) n \<longleftrightarrow> n = m - 1 \<and> n < 32"
  by (auto simp: sigmask_def bit_simps)

lemma and_sigmask:
  assumes "m \<le> 32"
  shows "w AND sigmask m \<noteq> 0 \<longleftrightarrow> bit w (m - 1)" "sigmask m AND w \<noteq> 0 \<longleftrightarrow> bit w (m - 1)"
proof -
  have "w AND sigmask m = 0 \<longleftrightarrow> \<not> bit w (m - 1)"
  proof
    assume "w AND sigmask m = 0"
    then have "\<not> bit (w AND sigmask m) (m - 1)" by simp
    then show "\<not> bit w (m - 1)" using assms by (auto simp: bit_and_iff bit_sigmask)
  next
    assume "\<not> bit w (m - 1)"
    then show "w AND sigmask m = 0" by (intro bit_eqI) (auto simp: bit_and_iff bit_sigmask)
  qed
  then show "w AND sigmask m \<noteq> 0 \<longleftrightarrow> bit w (m - 1)" by simp
  then show "sigmask m AND w \<noteq> 0 \<longleftrightarrow> bit w (m - 1)" by (simp add: and.commute)
qed

text \<open>\<^verbatim>\<open>i & -i\<close> keeps the lowest bit that is set.\<close>

lemma lowest_bit:
  fixes w :: u32
  assumes b: "bit w j" and low: "\<forall>i<j. \<not> bit w i"
  shows "w AND (- w) = push_bit j 1"
proof -
  define v where "v = drop_bit j w"
  have ge: "j \<le> n" if "bit w n" for n using low that not_le by blast
  have w: "w = push_bit j v"
    by (rule bit_eqI) (use ge in \<open>auto simp: v_def bit_simps\<close>)
  have odd: "bit v 0" using b by (simp add: v_def bit_simps)
  have "- w = push_bit j (- v)" by (simp add: w push_bit_eq_mult)
  moreover have "v AND (- v) = 1"
  proof -
    have "v - 1 = v AND NOT 1"
    proof -
      have "v = (v AND NOT 1) OR 1"
        by (rule bit_eqI) (use odd in \<open>auto simp: bit_simps\<close>)
      moreover have "(v AND NOT 1) OR 1 = (v AND NOT 1) + (1::u32)"
        by (rule disjunctive_add_eq_or [symmetric]) (rule bit_eqI, auto simp: bit_simps)
      ultimately show ?thesis by (metis add_diff_cancel_right')
    qed
    then have "- v = NOT (v AND NOT 1)" by (metis minus_eq_not_minus_1)
    then show ?thesis by (intro bit_eqI) (use odd in \<open>auto simp: bit_simps\<close>)
  qed
  ultimately have "w AND (- w) = push_bit j (v AND (- v))" by (metis push_bit_and w)
  then show ?thesis by (simp add: \<open>v AND (- v) = 1\<close>)
qed

lemma mips_clz_bit:
  assumes "j < 32"
  shows "mips_clz (push_bit j 1) = 31 - j"
proof -
  have "rev [0..<32] = rev [Suc j..<32] @ rev [0..<Suc j]"
    using assms by (metis Suc_leI rev_append upt_add_eq_append le0 le_add_diff_inverse add_0)
  moreover have "takeWhile (\<lambda>i. \<not> bit (push_bit j 1 :: u32) i) (rev [Suc j..<32] @ rev [0..<Suc j]) = rev [Suc j..<32]"
    using assms by (subst takeWhile_append2) (auto simp: bit_simps)
  ultimately show ?thesis unfolding mips_clz_def by simp
qed

lemma ffs_lowest:
  assumes "w \<noteq> 0"
  obtains j where "ffs w = Suc j" "j < 32" "bit w j" "\<forall>i<j. \<not> bit w i"
proof -
  have "\<exists>n. bit w n" using assms by (metis bit_eqI bit_0_eq bot_fun_def bot_bool_def)
  then obtain n where "bit w n" ..
  define j where "j = (LEAST n. bit w n)"
  have j: "bit w j" "\<forall>i<j. \<not> bit w i" unfolding j_def using \<open>bit w n\<close> not_less_Least by (blast intro: LeastI)+
  have "j < 32" using j(1) bit_imp_le_length by fastforce
  then show ?thesis using that [of j] j assms lowest_bit [OF j] mips_clz_bit [of j] by (simp add: ffs_def)
qed

lemma sigs_constants: "bit sigcantmask n \<longleftrightarrow> n = 8 \<or> n = 16" "bit contsigmask n \<longleftrightarrow> n = 18"
  "bit stopsigmask n \<longleftrightarrow> n = 16 \<or> n = 17 \<or> n = 20 \<or> n = 21"
  by (auto simp: sigcantmask_def contsigmask_def stopsigmask_def bit_or_iff bit_sigmask)

section \<open>What psignal does\<close>

text \<open>
  The queue invariant, completed for signals: a process with a wait channel is on its queue,
  whoever waits for \<^verbatim>\<open>runout\<close> (the swapper) does so uninterruptibly, and a process in an
  interruptible sleep has a parent other than itself.
\<close>

definition sig_ok :: "kern \<Rightarrow> bool" where
  "sig_ok k \<longleftrightarrow> sched_ok k \<and>
     (\<forall>p. p_wchan (procs k p) \<noteq> 0 \<longrightarrow> p \<in> set (slpque k (SHASH (p_wchan (procs k p))))) \<and>
     (\<forall>p\<in>sleepers (a_runout k) k. P_SINTR \<notin> p_flag (procs k p)) \<and>
     (\<forall>p. P_SINTR \<in> p_flag (procs k p) \<longrightarrow> (\<exists>q. p_pptr (procs k p) = Some q \<and> q \<noteq> p))"

lemma sig_okD:
  assumes "sig_ok k"
  shows "sched_ok k"
    "p_wchan (procs k p) \<noteq> 0 \<longrightarrow> p \<in> set (slpque k (SHASH (p_wchan (procs k p))))"
    "P_SINTR \<in> p_flag (procs k p) \<Longrightarrow> p \<notin> sleepers (a_runout k) k"
  using assms by (auto simp: sig_ok_def)

lemma sig_ok_parent:
  assumes "sig_ok k" "P_SINTR \<in> p_flag (procs k p)"
  obtains q where "p_pptr (procs k p) = Some q" "q \<noteq> p"
  using assms unfolding sig_ok_def by blast

lemma sig_ok_upd:
  assumes "p_stat x = p_stat (procs k p)" "p_flag x = p_flag (procs k p)" "p_wchan x = p_wchan (procs k p)"
    "p_pptr x = p_pptr (procs k p)"
  shows "sig_ok (k\<lparr>procs := (procs k)(p := x)\<rparr>) = sig_ok k"
proof -
  have e: "p_stat (((procs k)(p := x)) q) = p_stat (procs k q)" "p_flag (((procs k)(p := x)) q) = p_flag (procs k q)"
    "p_wchan (((procs k)(p := x)) q) = p_wchan (procs k q)" "p_pptr (((procs k)(p := x)) q) = p_pptr (procs k q)" for q
    using assms by simp_all
  show ?thesis unfolding sig_ok_def sched_ok_def sleepers_def by (simp add: e del: fun_upd_apply)
qed

text \<open>What a signal, the scheduler and \<^verbatim>\<open>stop\<close> leave alone in every process.\<close>

definition pwho :: "proc \<Rightarrow> nat option \<times> int \<times> int \<times> int \<times> int \<times> u32 \<times> u32 \<times> u32 \<times> pflag set" where
  "pwho x = (p_pptr x, p_uid x, p_pid x, p_ppid x, p_pgrp x, p_sigmask x, p_sigignore x, p_sigcatch x,
     p_flag x - {P_WAITED})"

lemma pwho_pident: "pident x = pident y \<Longrightarrow> p_flag x = p_flag y \<Longrightarrow> pwho x = pwho y"
  by (simp add: pwho_def pident_def)

lemma pwho_upd [simp]:
  "pwho (x\<lparr>p_sig := s\<rparr>) = pwho x" "pwho (x\<lparr>p_nice := i\<rparr>) = pwho x" "pwho (x\<lparr>p_ptracesig := i\<rparr>) = pwho x"
  "pwho (x\<lparr>p_stat := st\<rparr>) = pwho x" "pwho (x\<lparr>p_pri := i\<rparr>) = pwho x" "pwho (x\<lparr>p_wchan := w\<rparr>) = pwho x"
  by (simp_all add: pwho_def)

definition sig_frame :: "kern \<Rightarrow> kern \<Rightarrow> bool" where
  "sig_frame k k' \<longleftrightarrow> kframe k' = kframe k \<and> (\<forall>q. pwho (procs k' q) = pwho (procs k q))"

lemma sig_frame_refl [simp]: "sig_frame k k"
  by (simp add: sig_frame_def)

lemma sig_frame_trans: "sig_frame k k1 \<Longrightarrow> sig_frame k1 k2 \<Longrightarrow> sig_frame k k2"
  by (simp add: sig_frame_def)

lemma sig_note_fields [simp]:
  "p_stat (sig_note a sig x) = p_stat x" "p_flag (sig_note a sig x) = p_flag x" "p_wchan (sig_note a sig x) = p_wchan x"
  "p_pptr (sig_note a sig x) = p_pptr x" "pwho (sig_note a sig x) = pwho x"
  "p_sig (sig_note a sig x) = (if SA_CONT \<in> sigprop sig then p_sig x AND NOT stopsigmask else p_sig x)"
  by (simp_all add: sig_note_def Let_def)

lemma sig_add_fields [simp]:
  "p_stat (sig_add sig x) = p_stat x" "p_flag (sig_add sig x) = p_flag x" "p_wchan (sig_add sig x) = p_wchan x"
  "p_pptr (sig_add sig x) = p_pptr x" "pwho (sig_add sig x) = pwho x"
  "p_sig (sig_add sig x) = (if SA_STOP \<in> sigprop sig then p_sig x AND NOT contsigmask else p_sig x) OR sigmask sig"
  by (simp_all add: sig_add_def Let_def)

lemma psignal_post_effect:
  assumes "psignal_post p sig k = (r, k1)"
  shows "k1 = k\<lparr>procs := (procs k)(p := procs k1 p)\<rparr>" "p_stat (procs k1 p) = p_stat (procs k p)"
    "p_flag (procs k1 p) = p_flag (procs k p)" "p_wchan (procs k1 p) = p_wchan (procs k p)"
    "p_pptr (procs k1 p) = p_pptr (procs k p)" "pwho (procs k1 p) = pwho (procs k p)"
proof -
  from assms have k1: "k1 = snd (psignal_post p sig k)" by simp
  show "k1 = k\<lparr>procs := (procs k)(p := procs k1 p)\<rparr>" "p_stat (procs k1 p) = p_stat (procs k p)"
    "p_flag (procs k1 p) = p_flag (procs k p)" "p_wchan (procs k1 p) = p_wchan (procs k p)"
    "p_pptr (procs k1 p) = p_pptr (procs k p)" "pwho (procs k1 p) = pwho (procs k p)"
    unfolding k1 psignal_post_def Let_def by simp_all
qed

lemma psignal_post_frame:
  assumes "psignal_post p sig k = (r, k1)" "sig_ok k"
  shows "sig_ok k1" "sig_frame k k1" "q \<noteq> p \<Longrightarrow> procs k1 q = procs k q"
    "sleepers c k1 = sleepers c k" "a_runout k1 = a_runout k"
proof -
  note e = psignal_post_effect [OF assms(1)]
  show "sig_ok k1" using assms(2) sig_ok_upd [OF e(2-5)] e(1) by simp
  show o: "procs k1 q = procs k q" if "q \<noteq> p" for q by (subst e(1)) (simp add: that)
  have "pwho (procs k1 q) = pwho (procs k q)" "p_wchan (procs k1 q) = p_wchan (procs k q)" for q
    using o e(4,6) by (cases "q = p", auto)+
  moreover have "slpque k1 = slpque k" "kframe k1 = kframe k" "a_runout k1 = a_runout k"
    by (subst e(1), simp)+
  ultimately show "sleepers c k1 = sleepers c k" "sig_frame k k1" "a_runout k1 = a_runout k"
    by (simp_all add: sleepers_def sig_frame_def)
qed

text \<open>Taking processes off the sleep queues keeps the invariant.\<close>

lemma sig_ok_shrink:
  assumes ok: "sig_ok k" and so: "sched_ok k'" and ro: "a_runout k' = a_runout k"
    and fl: "\<forall>q. p_flag (procs k' q) = p_flag (procs k q) \<and> p_pptr (procs k' q) = p_pptr (procs k q)"
    and sl: "\<forall>h. slpque k' h = filter P (slpque k h)"
    and P: "\<forall>q. P q \<longrightarrow> p_wchan (procs k' q) = p_wchan (procs k q)" "\<forall>q. \<not> P q \<longrightarrow> p_wchan (procs k' q) = 0"
  shows "sig_ok k'"
proof -
  have "sleepers (a_runout k') k' \<subseteq> sleepers (a_runout k) k"
    using sl P(1) ro by (auto simp: sleepers_def)
  moreover have "q \<in> set (slpque k' (SHASH (p_wchan (procs k' q))))" if "p_wchan (procs k' q) \<noteq> 0" for q
  proof -
    have "P q" using P(2) that by blast
    then show ?thesis using P(1) that sl sig_okD(2) [OF ok, of q] by simp
  qed
  ultimately show ?thesis using ok so fl unfolding sig_ok_def by auto
qed

lemma psignal_run_ok:
  assumes ok: "sig_ok k" and st: "p_stat (procs k p) = SSLEEP \<or> p_stat (procs k p) = SSTOP"
  shows "\<exists>k'. psignal_run p k = Some (Inr k') \<and> sig_ok k' \<and> sig_frame k k' \<and> p_stat (procs k' p) = SRUN \<and>
    p_sig (procs k' p) = p_sig (procs k p) \<and> (SLOAD \<in> p_flag (procs k p) \<longrightarrow> p \<in> set (qs k')) \<and>
    (\<forall>q. q \<noteq> p \<longrightarrow> q \<notin> sleepers (a_runout k) k \<longrightarrow> procs k' q = procs k q) \<and>
    set (qs k') \<subseteq> insert p (set (qs k)) \<union> sleepers (a_runout k) k"
proof -
  define x where "x = (if p_pri (procs k p) > PUSER then (procs k p)\<lparr>p_pri := PUSER\<rparr> else procs k p)"
  define k0 where "k0 = k\<lparr>procs := (procs k)(p := x)\<rparr>"
  have x: "p_stat x = p_stat (procs k p)" "p_flag x = p_flag (procs k p)" "p_wchan x = p_wchan (procs k p)"
    "p_pptr x = p_pptr (procs k p)" "pident x = pident (procs k p)" by (simp_all add: x_def)
  have ok0: "sig_ok k0" unfolding k0_def using sig_ok_upd [OF x(1-4)] ok by simp
  have nq: "p \<notin> set (qs k0)" using st ok by (auto simp: k0_def sig_ok_def sched_ok_def)
  have st0: "p_stat (procs k0 p) \<in> {SSLEEP, SSTOP, SIDL}" using st x(1) by (auto simp: k0_def)
  have si: "p_stat (procs k0 p) = SIDL \<longrightarrow> p_wchan (procs k0 p) = 0" using st x(1) by (auto simp: k0_def)
  obtain k' X where r: "setrun p k0 = Some (Inr k')" "sched_ok k'" "p_stat (procs k' p) = SRUN"
    "p_wchan (procs k' p) = 0" "SLOAD \<in> p_flag (procs k0 p) \<longrightarrow> p \<in> set (qs k')"
    "X \<subseteq> sleepers (a_runout k0) k0" "\<forall>q. q \<noteq> p \<longrightarrow> q \<notin> X \<longrightarrow> procs k' q = procs k0 q"
    "kframe k' = kframe k0" "p \<notin> X" "\<forall>h. slpque k' h = filter (\<lambda>q. q \<noteq> p \<and> q \<notin> X) (slpque k0 h)"
    "\<forall>q. p_flag (procs k' q) = p_flag (procs k0 q) \<and> pident (procs k' q) = pident (procs k0 q)"
    "\<forall>q\<in>X. p_wchan (procs k' q) = 0" "set (qs k') \<subseteq> insert p (set (qs k0)) \<union> X"
    using setrun_correct [OF sig_okD(1) [OF ok0] st0 sig_okD(2) [OF ok0] si nq] by (elim exE conjE) (rule that)
  have id: "pident (procs k' q) = pident (procs k q)" "p_flag (procs k' q) = p_flag (procs k q)" for q
    using r(11) x(2,5) by (cases "q = p", auto simp: k0_def)+
  have "sig_ok k'"
    by (rule sig_ok_shrink [OF ok0 r(2) _ _ r(10)])
      (use r(4,7,8,11,12) in \<open>auto simp: kframe_def pident_def\<close>)
  moreover have "sig_frame k k'"
    using r(8) id by (auto simp: sig_frame_def k0_def intro: pwho_pident)
  moreover have "sleepers (a_runout k0) k0 = sleepers (a_runout k) k"
    using x(3) by (auto simp: k0_def sleepers_def)
  moreover have "p_sig (procs k' p) = p_sig (procs k p)" using id(1) [of p] by (simp add: pident_def)
  moreover have "psignal_run p k = setrun p k0" by (simp add: psignal_run_def k0_def x_def)
  ultimately show ?thesis using r x(2) by (intro exI [of _ k']) (auto simp: k0_def)
qed

lemma unsleep_ok:
  assumes ok: "sig_ok k" and st: "p_stat (procs k p) = SSTOP"
  shows "\<exists>k'. unsleep p k = Inr k' \<and> sig_ok k' \<and> sig_frame k k' \<and> p_stat (procs k' p) = SSTOP \<and>
    p_sig (procs k' p) = p_sig (procs k p) \<and> (\<forall>q. q \<noteq> p \<longrightarrow> procs k' q = procs k q) \<and> qs k' = qs k"
proof -
  obtain k' where u: "unsleep p k = Inr k'" "\<forall>h. slpque k' h = filter (\<lambda>q. q \<noteq> p) (slpque k h)"
    "qs k' = qs k" "\<forall>q. q \<noteq> p \<longrightarrow> procs k' q = procs k q" "procs k' p = (procs k p)\<lparr>p_wchan := 0\<rparr>"
    "a_runout k' = a_runout k" "kframe k' = kframe k"
    using unsleep_correct [OF sig_okD(1,2) [OF ok], of p] by (elim exE conjE) (rule that)
  have nq: "p \<notin> set (qs k)" using ok st by (auto simp: sig_ok_def sched_ok_def)
  have same: "procs k' q = (if q = p then (procs k p)\<lparr>p_wchan := 0\<rparr> else procs k q)" for q using u(4,5) by simp
  have "sched_ok k'"
    using sig_okD(1) [OF ok] nq unfolding sched_ok_def u(3) by (auto simp: same u(2))
  then have "sig_ok k'"
    by (rule sig_ok_shrink [OF ok _ u(6) _ u(2)]) (auto simp: same)
  then show ?thesis using u(1,3,7) st by (intro exI [of _ k']) (auto simp: same sig_frame_def)
qed

lemma stop_ok:
  assumes ok: "sig_ok k" and nq: "p \<notin> set (qs k)"
  shows "\<exists>k'. stop p k = Some (Inr k') \<and> sig_ok k' \<and> sig_frame k k' \<and> p_stat (procs k' p) = SSTOP \<and>
    p_sig (procs k' p) = p_sig (procs k p)"
proof -
  define x where "x = (procs k p)\<lparr>p_stat := SSTOP, p_flag := p_flag (procs k p) - {P_WAITED}\<rparr>"
  define k1 where "k1 = k\<lparr>procs := (procs k)(p := x)\<rparr>"
  have "sched_ok k1" using sig_okD(1) [OF ok] nq unfolding sched_ok_def k1_def x_def by auto
  moreover have "sleepers (a_runout k1) k1 = sleepers (a_runout k) k" by (auto simp: k1_def x_def sleepers_def)
  ultimately have ok1: "sig_ok k1" using ok unfolding sig_ok_def by (auto simp: k1_def x_def)
  obtain c where s: "stop p k = wakeup c k1" by (simp add: stop_def Let_def k1_def x_def)
  obtain k' X where w: "wakeup c k1 = Some (Inr k')" "woke X k1 k'" "sched_ok k'"
    using wakeup_correct [OF sig_okD(1) [OF ok1], of c] by (elim exE conjE) (rule that)
  have fl: "p_flag (procs k' q) = p_flag (procs k1 q) \<and> pident (procs k' q) = pident (procs k1 q)" for q
    using w(2) by (cases "q \<in> X") (auto simp: woke_def)
  have "sig_ok k'"
    by (rule sig_ok_shrink [OF ok1 w(3), where P = "\<lambda>q. q \<notin> X"])
      (use w(2) fl in \<open>auto simp: woke_def pident_def\<close>)
  moreover have "pwho (procs k' q) = pwho (procs k q)" for q
    using pwho_pident [of "procs k' q" "procs k1 q"] fl [of q] by (auto simp: k1_def x_def pwho_def split: if_splits)
  moreover have "p_stat (procs k' p) = SSTOP" "p_sig (procs k' p) = p_sig (procs k p)"
    using w(2) fl [of p] by (cases "p \<in> X"; auto simp: woke_def k1_def x_def pident_def)+
  ultimately show ?thesis using s w(1,2) by (auto simp: sig_frame_def woke_def k1_def)
qed

definition sig_done :: "nat \<Rightarrow> kern \<Rightarrow> kern kres option \<Rightarrow> bool" where
  "sig_done p k r \<longleftrightarrow> (\<exists>k'. r = Some (Inr k') \<and> sig_ok k' \<and> sig_frame k k' \<and>
     (\<forall>q. q \<noteq> p \<longrightarrow> q \<notin> sleepers (a_runout k) k \<longrightarrow> procs k' q = procs k q) \<and>
     set (qs k') \<subseteq> insert p (set (qs k)) \<union> sleepers (a_runout k) k)"

lemma sig_done_run:
  assumes "sig_ok k1" "sig_frame k k1" "qs k1 = qs k" "\<forall>q. q \<noteq> p \<longrightarrow> procs k1 q = procs k q"
    "sleepers (a_runout k1) k1 = sleepers (a_runout k) k"
    "p_stat (procs k1 p) = SSLEEP \<or> p_stat (procs k1 p) = SSTOP"
  shows "sig_done p k (psignal_run p k1)"
  using psignal_run_ok [OF assms(1,6)] assms(2-5) sig_frame_trans unfolding sig_done_def by fastforce

lemma sig_done_here:
  assumes "sig_ok k1" "sig_frame k k1" "qs k1 = qs k" "\<forall>q. q \<noteq> p \<longrightarrow> procs k1 q = procs k q"
  shows "sig_done p k (Some (Inr k1))"
  using assms by (auto simp: sig_done_def)

lemma sig_done_clear:
  assumes "sig_ok k1" "sig_frame k k1" "qs k1 = qs k" "\<forall>q. q \<noteq> p \<longrightarrow> procs k1 q = procs k q"
  shows "sig_done p k (Some (Inr (sig_clear p sig k1)))"
proof (rule sig_done_here)
  show "sig_ok (sig_clear p sig k1)" using assms(1) by (simp add: sig_ok_upd)
qed (use assms in \<open>auto simp: sig_frame_def\<close>)

lemma sleepers_clear [simp]: "sleepers c (sig_clear p sig k) = sleepers c k"
  by (auto simp: sleepers_def)

lemma sig_ok_resleep:
  assumes ok: "sig_ok k" and st: "p_stat (procs k p) = SSTOP"
  shows "sig_ok (updproc p (\<lambda>x. x\<lparr>p_stat := SSLEEP\<rparr>) k)" (is "sig_ok ?k")
proof -
  have nq: "p \<notin> set (qs k)" using ok st by (auto simp: sig_ok_def sched_ok_def)
  have "sched_ok ?k" using sig_okD(1) [OF ok] nq unfolding sched_ok_def by auto
  moreover have "sleepers (a_runout ?k) ?k = sleepers (a_runout k) k" by (auto simp: sleepers_def)
  ultimately show ?thesis using ok unfolding sig_ok_def by auto
qed

lemma sigprop_disjoint: "sig < NSIG \<Longrightarrow> SA_CONT \<in> sigprop sig \<longleftrightarrow> sig = SIGCONT"
  "sig < NSIG \<Longrightarrow> SA_STOP \<in> sigprop sig \<longleftrightarrow> sig \<in> {SIGSTOP, SIGTSTP, SIGTTIN, SIGTTOU}"
  by (auto simp: NSIG_def sigprop_def sigprop_table_def less_Suc_eq numeral_eq_Suc)

text \<open>A signal that does not stop a process changes only its target, and the waiters for \<^verbatim>\<open>runout\<close>.\<close>

lemma psignal_plain:
  assumes ok: "sig_ok k" and pl: "SA_STOP \<notin> sigprop sig"
  shows "sig_done p k (psignal p sig k)"
proof (cases "psignal_post p sig k")
  case (Pair r k1)
  note f = psignal_post_frame [OF Pair ok] and e = psignal_post_effect [OF Pair]
  have oth: "\<forall>q. q \<noteq> p \<longrightarrow> procs k1 q = procs k q" using f(3) by blast
  have sl: "sleepers (a_runout k1) k1 = sleepers (a_runout k) k" using f(4,5) by simp
  have q1: "qs k1 = qs k" by (subst e(1)) simp
  note here = sig_done_here [OF f(1,2) q1 oth] and clear = sig_done_clear [OF f(1,2) q1 oth]
    and run = sig_done_run [OF f(1,2) q1 oth sl]
  show ?thesis
  proof (cases r)
    case None
    then show ?thesis using here by (simp add: psignal.simps Pair)
  next
    case (Some a)
    show ?thesis
    proof (cases "p_stat (procs k1 p)")
      case SSLEEP
      then show ?thesis using here clear run pl by (simp add: psignal.simps [of p] Pair Some Let_def)
    next
      case SSTOP
      define k2 where "k2 = (if a = A_DFL then sig_clear p sig k1 else k1)"
      have k2: "sig_ok k2" "sig_frame k k2" "\<forall>q. q \<noteq> p \<longrightarrow> procs k2 q = procs k q"
        "p_stat (procs k2 p) = SSTOP" "p_wchan (procs k2 p) = p_wchan (procs k1 p)"
        "sleepers (a_runout k2) k2 = sleepers (a_runout k) k" "qs k2 = qs k"
        using f(1,2) oth SSTOP sl q1 by (auto simp: k2_def sig_ok_upd sig_frame_def)
      have run2: "sig_done p k (psignal_run p k2)" by (rule sig_done_run) (use k2 in auto)
      have sleep2: "sig_done p k (Some (Inr (updproc p (\<lambda>x. x\<lparr>p_stat := SSLEEP\<rparr>) k2)))"
        by (rule sig_done_here [OF sig_ok_resleep [OF k2(1,4)]]) (use k2 in \<open>auto simp: sig_frame_def\<close>)
      have uns: "sig_done p k (Some (unsleep p k1))"
        using unsleep_ok [OF f(1) SSTOP] oth f(2) q1 sig_frame_trans unfolding sig_done_def by fastforce
      show ?thesis using SSTOP here run run2 sleep2 uns pl
        by (simp add: psignal.simps [of p] Pair Some Let_def k2_def [symmetric])
    qed (use here Some Pair in \<open>simp_all add: psignal.simps [of p] Let_def\<close>)
  qed
qed

text \<open>The branch of \<^verbatim>\<open>psignal\<close> that stops a process: the signal is taken away, the parent told.\<close>

lemma psignal_stop:
  assumes ok: "sig_ok k" and po: "psignal_post p sig k = (Some A_DFL, k1)"
    and st: "SA_STOP \<in> sigprop sig" "SA_CONT \<notin> sigprop sig" "p_stat (procs k p) = SSLEEP"
    and fl: "P_SINTR \<in> p_flag (procs k p)" "P_TRACED \<notin> p_flag (procs k p)" "SVFORK \<notin> p_flag (procs k p)"
  shows "\<exists>k'. psignal p sig k = Some (Inr k') \<and> sig_ok k' \<and> sig_frame k k' \<and> p_stat (procs k' p) = SSTOP \<and>
    p_sig (procs k' p) = p_sig (procs k1 p) AND NOT (sigmask sig)"
proof -
  note f = psignal_post_frame [OF po ok] and e = psignal_post_effect [OF po]
  obtain q where q: "p_pptr (procs k p) = Some q" "q \<noteq> p" by (rule sig_ok_parent [OF ok fl(1)])
  define k2 where "k2 = updproc p (\<lambda>x. x\<lparr>p_ptracesig := int sig\<rparr>) (sig_clear p sig k1)"
  have k2: "sig_ok k2" "sig_frame k k2" "p_stat (procs k2 p) = SSLEEP" "p_flag (procs k2 p) = p_flag (procs k p)"
    "p_sig (procs k2 p) = p_sig (procs k1 p) AND NOT (sigmask sig)"
    using f(1,2) e(2,3) st(3) by (auto simp: k2_def sig_ok_upd sig_frame_def)
  have np: "p \<notin> sleepers (a_runout k2) k2" using sig_okD(3) [OF k2(1)] fl(1) k2(4) by simp
  obtain k3 where k3: "(if P_NOCLDSTOP \<notin> p_flag (procs k2 q) then psignal q SIGCHLD k2 else Some (Inr k2)) = Some (Inr k3)"
    "sig_ok k3" "sig_frame k2 k3" "procs k3 p = procs k2 p"
  proof (cases "P_NOCLDSTOP \<in> p_flag (procs k2 q)")
    case True
    then show ?thesis using k2(1) by (intro that [of k2]) auto
  next
    case False
    have "sig_done q k2 (psignal q SIGCHLD k2)"
      by (rule psignal_plain [OF k2(1)]) (simp add: sigprop_def sigprop_table_def)
    then show ?thesis using False q(2) np that unfolding sig_done_def by auto
  qed
  have nq3: "p \<notin> set (qs k3)" using k3(2,4) k2(3) by (auto simp: sig_ok_def sched_ok_def)
  have "psignal p sig k = stop p k3"
    unfolding psignal.simps [of p sig k] po prod.case option.case Let_def k2_def [symmetric] e(5) q(1) k3(1) sum.case
    using st fl e(2,3) by simp
  moreover obtain k' where "stop p k3 = Some (Inr k')" "sig_ok k'" "sig_frame k3 k'" "p_stat (procs k' p) = SSTOP"
    "p_sig (procs k' p) = p_sig (procs k3 p)"
    using stop_ok [OF k3(2) nq3] by (elim exE conjE) (rule that)
  ultimately show ?thesis using sig_frame_trans [OF sig_frame_trans [OF k2(2) k3(3)]] k3(4) k2(5)
    by (intro exI [of _ k']) auto
qed

lemma psignal_ok:
  assumes ok: "sig_ok k" and sig: "sig < NSIG"
  shows "\<exists>k'. psignal p sig k = Some (Inr k') \<and> sig_ok k' \<and> sig_frame k k'"
proof (cases "SA_STOP \<in> sigprop sig")
  case False
  then show ?thesis using psignal_plain [OF ok False, of p] by (auto simp: sig_done_def)
next
  case True
  have nc: "SA_CONT \<notin> sigprop sig" using True sigprop_disjoint [OF sig] by auto
  obtain r k1 where po: "psignal_post p sig k = (r, k1)" by fastforce
  note f = psignal_post_frame [OF po ok] and e = psignal_post_effect [OF po]
  have clear: "sig_ok (sig_clear p sig k1)" "sig_frame k (sig_clear p sig k1)"
    using f(1,2) by (auto simp: sig_ok_upd sig_frame_def)
  have run: "\<exists>k'. psignal_run p k2 = Some (Inr k') \<and> sig_ok k' \<and> sig_frame k k'"
    if "p_stat (procs k2 p) = SSLEEP \<or> p_stat (procs k2 p) = SSTOP" "sig_ok k2" "sig_frame k k2" for k2
    using psignal_run_ok [OF that(2,1)] sig_frame_trans [OF that(3)] by blast
  show ?thesis
  proof (cases "r = Some A_DFL \<and> p_stat (procs k p) = SSLEEP \<and> P_SINTR \<in> p_flag (procs k p) \<and>
      P_TRACED \<notin> p_flag (procs k p) \<and> SVFORK \<notin> p_flag (procs k p)")
    case c: True
    then show ?thesis using psignal_stop [OF ok po [unfolded c [THEN conjunct1]] True nc] by blast
  next
    case c: False
    show ?thesis
    proof (cases r)
      case None
      then show ?thesis using f(1,2) by (simp add: psignal.simps po)
    next
      case (Some a)
      show ?thesis
      proof (cases "p_stat (procs k1 p)")
        case SSLEEP
        then show ?thesis using f(1,2) run [of k1] c True nc e(2,3) Some
          by (simp add: psignal.simps [of p sig k] po Let_def) blast
      next
        case SSTOP
        then show ?thesis using f(1,2) run [of k1] clear True nc Some
          by (simp add: psignal.simps [of p sig k] po Let_def)
      qed (use f(1,2) Some in \<open>simp_all add: psignal.simps [of p sig k] po Let_def\<close>)
    qed
  qed
qed

section \<open>The outcome for the target\<close>

abbreviation ignores :: "proc \<Rightarrow> nat \<Rightarrow> bool" where "ignores x sig \<equiv> bit (p_sigignore x) (sig - 1)"
abbreviation blocks :: "proc \<Rightarrow> nat \<Rightarrow> bool" where "blocks x sig \<equiv> bit (p_sigmask x) (sig - 1)"
abbreviation catches :: "proc \<Rightarrow> nat \<Rightarrow> bool" where "catches x sig \<equiv> bit (p_sigcatch x) (sig - 1)"
abbreviation pending :: "proc \<Rightarrow> nat \<Rightarrow> bool" where "pending x sig \<equiv> bit (p_sig x) (sig - 1)"

text \<open>What \<open>psignal_post\<close> answers for a process that is not traced.\<close>

lemma psignal_post_result:
  assumes sig: "1 \<le> sig" "sig < NSIG" and x: "P_TRACED \<notin> p_flag (procs k p)" "\<not> ignores (procs k p) sig"
    and orphan: "SA_TTYSTOP \<in> sigprop sig \<and> p_pptr (procs k p) = Some 1 \<Longrightarrow> sig_action (procs k p) sig \<noteq> A_DFL"
  obtains k1 where "psignal_post p sig k = (if sig_action (procs k p) sig = A_HOLD \<and> \<not> (sig = SIGCONT \<and> p_stat (procs k p) = SSTOP)
      then None else Some (sig_action (procs k p) sig), k1)"
    "pending (procs k1 p) sig" "sig = SIGCONT \<longrightarrow> p_sig (procs k1 p) AND stopsigmask = 0"
    "SA_STOP \<in> sigprop sig \<longrightarrow> \<not> pending (procs k1 p) SIGCONT"
proof -
  have m: "sig \<le> 32" using sig by (simp add: NSIG_def)
  define x4 where "x4 = sig_add sig (sig_note (sig_action (procs k p) sig) sig (procs k p))"
  have cont: "SA_CONT \<in> sigprop sig \<longleftrightarrow> sig = SIGCONT" using sigprop_disjoint [OF sig(2)] by simp
  have ign: "p_sigignore (procs k p) AND sigmask sig = 0"
    using x(2) and_sigmask(1) [OF m, of "p_sigignore (procs k p)"] by simp
  have st: "p_stat x4 = p_stat (procs k p)" by (simp add: x4_def)
  show ?thesis
  proof (rule that [of "updproc p (\<lambda>_. x4) k"])
    show "psignal_post p sig k = (if sig_action (procs k p) sig = A_HOLD \<and> \<not> (sig = SIGCONT \<and> p_stat (procs k p) = SSTOP)
      then None else Some (sig_action (procs k p) sig), updproc p (\<lambda>_. x4) k)"
      unfolding psignal_post_def Let_def x4_def [symmetric] st cont ign using orphan by auto
    show "pending (procs (updproc p (\<lambda>_. x4) k) p) sig"
      using less_imp_diff_less [of sig 32 1] sig(2) by (simp add: x4_def bit_or_iff bit_sigmask NSIG_def)
    show "sig = SIGCONT \<longrightarrow> p_sig (procs (updproc p (\<lambda>_. x4) k) p) AND stopsigmask = 0"
      using sigprop_disjoint [OF sig(2)]
      by (auto simp: x4_def bit_simps bit_sigmask sigs_constants intro!: bit_eqI)
    show "SA_STOP \<in> sigprop sig \<longrightarrow> \<not> pending (procs (updproc p (\<lambda>_. x4) k) p) SIGCONT"
      using sigprop_disjoint [OF sig(2)]
      by (auto simp: x4_def bit_simps bit_sigmask sigs_constants)
  qed
qed

lemma psignal_wakes:
  assumes ok: "sig_ok k" and sig: "1 \<le> sig" "sig < NSIG" "sig \<noteq> SIGCONT" "SA_STOP \<notin> sigprop sig"
    and x: "P_TRACED \<notin> p_flag (procs k p)" "\<not> ignores (procs k p) sig" "\<not> blocks (procs k p) sig"
    and st: "p_stat (procs k p) = SSLEEP \<and> P_SINTR \<in> p_flag (procs k p) \<or> p_stat (procs k p) = SSTOP \<and> sig = SIGKILL"
    and r: "psignal p sig k = Some (Inr k')"
  shows "p_stat (procs k' p) = SRUN \<and> pending (procs k' p) sig \<and>
    (SLOAD \<in> p_flag (procs k p) \<longrightarrow> p \<in> set (qs k'))"
proof -
  have m: "sig \<le> 32" using sig by (simp add: NSIG_def)
  have nc: "SA_CONT \<notin> sigprop sig" using sigprop_disjoint [OF sig(2)] sig(3) by simp
  have tty: "SA_TTYSTOP \<notin> sigprop sig"
    using sig by (auto simp: NSIG_def sigprop_def sigprop_table_def less_Suc_eq numeral_eq_Suc)
  have act: "sig_action (procs k p) sig \<noteq> A_HOLD"
    using x(3) and_sigmask(1) [OF m, of "p_sigmask (procs k p)"] by (simp add: sig_action_def)
  obtain k1 where po0: "psignal_post p sig k = (if sig_action (procs k p) sig = A_HOLD \<and> \<not> (sig = SIGCONT \<and> p_stat (procs k p) = SSTOP)
      then None else Some (sig_action (procs k p) sig), k1)" "pending (procs k1 p) sig"
    by (rule psignal_post_result [OF sig(1,2) x(1,2)]) (use tty in blast)
  then have po: "psignal_post p sig k = (Some (sig_action (procs k p) sig), k1)" "pending (procs k1 p) sig"
    using act by simp_all
  note f = psignal_post_frame [OF po(1) ok] and e = psignal_post_effect [OF po(1)]
  have st1: "p_stat (procs k1 p) = SSLEEP \<or> p_stat (procs k1 p) = SSTOP" using st e(2) by auto
  obtain k2 where k2: "psignal_run p k1 = Some (Inr k2)" "p_stat (procs k2 p) = SRUN" "p_sig (procs k2 p) = p_sig (procs k1 p)"
    "SLOAD \<in> p_flag (procs k1 p) \<longrightarrow> p \<in> set (qs k2)"
    using psignal_run_ok [OF f(1) st1] by (elim exE conjE) (rule that)
  have "psignal p sig k = psignal_run p k1"
    using st
  proof
    assume "p_stat (procs k p) = SSLEEP \<and> P_SINTR \<in> p_flag (procs k p)"
    then show ?thesis using sig(4) nc x(1) e(2,3) by (simp add: psignal.simps [of p sig k] po(1) Let_def)
  next
    assume "p_stat (procs k p) = SSTOP \<and> sig = SIGKILL"
    then show ?thesis
      unfolding psignal.simps [of p sig k] po(1) using x(1) e(2,3) by (simp add: Let_def)
  qed
  then show ?thesis using r k2 po(2) e(3) by simp
qed

lemma psignal_continues:
  assumes ok: "sig_ok k" and x: "P_TRACED \<notin> p_flag (procs k p)" "\<not> ignores (procs k p) SIGCONT"
    and st: "p_stat (procs k p) = SSTOP" and r: "psignal p SIGCONT k = Some (Inr k')"
  shows "p_stat (procs k' p) \<noteq> SSTOP \<and> p_sig (procs k' p) AND stopsigmask = 0"
proof -
  have pr: "SA_CONT \<in> sigprop SIGCONT" "SA_TTYSTOP \<notin> sigprop SIGCONT" by (simp_all add: sigprop_def sigprop_table_def)
  obtain k1 where po: "psignal_post p SIGCONT k = (Some (sig_action (procs k p) SIGCONT), k1)"
    "p_sig (procs k1 p) AND stopsigmask = 0"
    by (rule psignal_post_result [of SIGCONT, OF _ _ x]) (use pr st in \<open>auto simp: NSIG_def intro: that\<close>)
  note f = psignal_post_frame [OF po(1) ok] and e = psignal_post_effect [OF po(1)]
  define a where "a = sig_action (procs k p) SIGCONT"
  define k2 where "k2 = (if a = A_DFL then sig_clear p SIGCONT k1 else k1)"
  have st2: "p_stat (procs k2 p) = SSTOP" using st e(2) by (simp add: k2_def)
  have ok2: "sig_ok k2" using f(1) by (simp add: k2_def sig_ok_upd)
  have sg: "p_sig (procs k2 p) AND stopsigmask = 0"
    using po(2) by (auto simp: k2_def and.assoc and.left_commute [of _ "NOT _"])
  have eq: "psignal p SIGCONT k = (if a = A_CATCH \<or> p_wchan (procs k1 p) = 0 then psignal_run p k2
      else Some (Inr (updproc p (\<lambda>x. x\<lparr>p_stat := SSLEEP\<rparr>) k2)))"
    unfolding psignal.simps [of p SIGCONT k] po(1) prod.case option.case Let_def a_def [symmetric] k2_def [symmetric]
    using pr st x(1) e(2,3) by simp
  obtain k3 where "psignal_run p k2 = Some (Inr k3)" "p_stat (procs k3 p) = SRUN" "p_sig (procs k3 p) = p_sig (procs k2 p)"
    using psignal_run_ok [OF ok2] st2 by blast
  then show ?thesis using r sg unfolding eq by (auto split: if_splits)
qed

lemma psignal_stops:
  assumes ok: "sig_ok k" and sig: "1 \<le> sig" "sig < NSIG" "SA_STOP \<in> sigprop sig"
    and x: "P_TRACED \<notin> p_flag (procs k p)" "\<not> ignores (procs k p) sig" "\<not> blocks (procs k p) sig" "\<not> catches (procs k p) sig"
    and orphan: "sig = SIGSTOP \<or> p_pptr (procs k p) \<noteq> Some 1"
    and st: "p_stat (procs k p) = SSLEEP" "P_SINTR \<in> p_flag (procs k p)" "SVFORK \<notin> p_flag (procs k p)"
    and r: "psignal p sig k = Some (Inr k')"
  shows "p_stat (procs k' p) = SSTOP \<and> \<not> pending (procs k' p) sig \<and> \<not> pending (procs k' p) SIGCONT"
proof -
  have m: "sig \<le> 32" using sig by (simp add: NSIG_def)
  have nc: "SA_CONT \<notin> sigprop sig" using sigprop_disjoint [OF sig(2)] sig(3) by auto
  have tty: "\<not> (SA_TTYSTOP \<in> sigprop sig \<and> p_pptr (procs k p) = Some 1)"
    using orphan by (auto simp: sigprop_def sigprop_table_def)
  have act: "sig_action (procs k p) sig = A_DFL"
    using x(3,4) and_sigmask(1) [OF m, of "p_sigmask (procs k p)"] and_sigmask(1) [OF m, of "p_sigcatch (procs k p)"]
    by (simp add: sig_action_def)
  obtain k1 where po0: "psignal_post p sig k = (if sig_action (procs k p) sig = A_HOLD \<and> \<not> (sig = SIGCONT \<and> p_stat (procs k p) = SSTOP)
      then None else Some (sig_action (procs k p) sig), k1)" "SA_STOP \<in> sigprop sig \<longrightarrow> \<not> pending (procs k1 p) SIGCONT"
    by (rule psignal_post_result [OF sig(1,2) x(1,2)]) (use tty in blast)
  then have po: "psignal_post p sig k = (Some A_DFL, k1)" "\<not> pending (procs k1 p) SIGCONT"
    using act sig(3) by simp_all
  obtain k2 where "psignal p sig k = Some (Inr k2)" "p_stat (procs k2 p) = SSTOP"
    "p_sig (procs k2 p) = p_sig (procs k1 p) AND NOT (sigmask sig)"
    using psignal_stop [OF ok po(1) sig(3) nc st(1,2) x(1) st(3)] by (elim exE conjE) (rule that)
  then show ?thesis using r po(2) by (simp add: bit_and_iff bit_not_iff bit_sigmask)
qed

end
