(* ===== verification/Sendsig.thy ===== *)
theory Sendsig
  imports Sig
begin

text \<open>
  Entering and leaving a signal handler (sys/pic32/signal.c): \<^verbatim>\<open>sendsig\<close> saves the registers of the
  interrupted process on its stack and redirects it to the handler, \<^verbatim>\<open>sigreturn\<close> restores them.
  User memory is a function from the addresses of words to words; the trap frame is the list
  of the \<^verbatim>\<open>FRAME_WORDS\<close> registers in the order of sys/pic32/io.h.
\<close>

section \<open>Model\<close>

definition USER_DATA_START :: u32 where
  "USER_DATA_START = 0x7f000000 + 32 * 1024"

definition USER_DATA_END :: u32 where
  "USER_DATA_END = 0x7f000000 + 128 * 1024"

definition USER_FLASH_START :: u32 where
  "USER_FLASH_START = 0x9d000000 + 192 * 1024"

definition USER_FLASH_END :: u32 where
  "USER_FLASH_END = 0x9d000000 + 512 * 1024"

definition baduaddr :: "u32 \<Rightarrow> bool" where
  "baduaddr addr =
     (if addr \<ge> USER_FLASH_START \<and> addr < USER_FLASH_END then False
      else if addr \<ge> USER_DATA_START \<and> addr < USER_DATA_END then False
      else True)"

definition FRAME_R4 :: nat where "FRAME_R4 = 3"
definition FRAME_R5 :: nat where "FRAME_R5 = 4"
definition FRAME_R6 :: nat where "FRAME_R6 = 5"
definition FRAME_SP :: nat where "FRAME_SP = 26"
definition FRAME_RA :: nat where "FRAME_RA = 28"
definition FRAME_PC :: nat where "FRAME_PC = 32"
definition FRAME_WORDS :: nat where "FRAME_WORDS = 33"

lemmas frame_defs = FRAME_R4_def FRAME_R5_def FRAME_R6_def FRAME_SP_def FRAME_RA_def FRAME_PC_def FRAME_WORDS_def

text \<open>
  \<^verbatim>\<open>struct sigcontext\<close>: \<^verbatim>\<open>sc_onstack\<close>, \<^verbatim>\<open>sc_mask\<close>, two words of padding, then the registers \<^verbatim>\<open>r1\<close> to
  \<^verbatim>\<open>r25\<close>, \<^verbatim>\<open>gp\<close>, \<^verbatim>\<open>sp\<close>, \<^verbatim>\<open>fp\<close>, \<^verbatim>\<open>ra\<close>, \<^verbatim>\<open>lo\<close>, \<^verbatim>\<open>hi\<close> and \<^verbatim>\<open>pc\<close>: the words of the trap frame in their order,
  without the status register. \<open>sc_regs\<close> lists their indices in the frame.
\<close>

definition sc_regs :: "nat list" where
  "sc_regs = [0..<31] @ [FRAME_PC]"

definition sc_onstack :: "u32 \<Rightarrow> u32" where "sc_onstack scp = scp"
definition sc_mask :: "u32 \<Rightarrow> u32" where "sc_mask scp = scp + 4"
definition sc_reg :: "u32 \<Rightarrow> nat \<Rightarrow> u32" where "sc_reg scp j = scp + 16 + 4 * word_of_nat j"
definition sc_size :: u32 where "sc_size = 16 + 4 * 32"
definition sf_size :: u32 where "sf_size = 16 + sc_size"

record uframe =
  regs :: "u32 list"
  umem :: "u32 \<Rightarrow> u32"
  u_code :: u32
  u_dsize :: u32
  u_ssize :: u32

definition sc_write :: "u32 \<Rightarrow> u32 \<Rightarrow> u32 \<Rightarrow> u32 list \<Rightarrow> (u32 \<Rightarrow> u32) \<Rightarrow> u32 \<Rightarrow> u32" where
  "sc_write scp onstack msk r m =
     fold (\<lambda>j m. m(sc_reg scp j := r ! (sc_regs ! j))) [0..<32]
       (m(sc_onstack scp := onstack, sc_mask scp := msk))"

text \<open>The stack on which the frame goes, \<open>sf_size\<close> bytes below its top.\<close>

definition sendsig_stack :: "nat \<Rightarrow> usig \<Rightarrow> uframe \<Rightarrow> u32 \<times> usig" where
  "sendsig_stack sig us f =
     (let stk = u_sigstk us in
      if u_psflags us AND SAS_ALTSTACK \<noteq> 0 \<and> ss_flags stk AND SA_ONSTACK = 0 \<and> u_sigonstack us AND sigmask sig \<noteq> 0
      then (ss_base stk + word_of_int (ss_size stk) - sf_size,
            us\<lparr>u_sigstk := stk\<lparr>ss_flags := ss_flags stk OR SA_ONSTACK\<rparr>\<rparr>)
      else (regs f ! FRAME_SP - sf_size, us))"

text \<open>The frame would go below the end of the data of the process.\<close>

definition sendsig_trashed :: "nat \<Rightarrow> usig \<Rightarrow> kern \<Rightarrow> uframe \<Rightarrow> bool" where
  "sendsig_trashed sig us k f =
     (case sendsig_stack sig us f of (sfp, us1) \<Rightarrow>
        ss_flags (u_sigstk us1) AND SA_ONSTACK = 0 \<and> sfp < p_daddr (procs k (u_procp k)) + u_dsize f)"

definition sendsig ::
  "u32 \<Rightarrow> nat \<Rightarrow> u32 \<Rightarrow> usig \<Rightarrow> kern \<Rightarrow> uframe \<Rightarrow> (usig \<times> kern \<times> uframe) kres option" where
  "sendsig p sig msk us k f =
     (let oonstack = ss_flags (u_sigstk us) AND SA_ONSTACK;
          sfp = fst (sendsig_stack sig us f); us1 = snd (sendsig_stack sig us f);
          pr = u_procp k in
      if sendsig_trashed sig us k f then
        (case fatalsig SIGILL us1 k of (us2, r) \<Rightarrow> map_option (map_sum id (\<lambda>k1. (us2, k1, f))) r)
      else
        let grow = (ss_flags (u_sigstk us1) AND SA_ONSTACK = 0 \<and> p_ssize (procs k pr) < USER_DATA_END - sfp);
            k1 = (if grow then updproc pr (\<lambda>x. x\<lparr>p_ssize := USER_DATA_END - sfp, p_saddr := sfp\<rparr>) k else k);
            scp = sfp + 16;
            r = regs f in
        Some (Inr (us1, k1,
          f\<lparr>u_ssize := (if grow then USER_DATA_END - sfp else u_ssize f),
            umem := sc_write scp oonstack msk r (umem f),
            regs := r[FRAME_R4 := word_of_nat sig, FRAME_R5 := u_code f, FRAME_R6 := scp,
                      FRAME_RA := u_sigtramp us1, FRAME_SP := sfp, FRAME_PC := p]\<rparr>)))"

abbreviation (input) EJUSTRETURN :: int where "EJUSTRETURN \<equiv> -2"

definition sigreturn :: "usig \<Rightarrow> kern \<Rightarrow> uframe \<Rightarrow> usig \<times> kern \<times> uframe" where
  "sigreturn us k f =
     (let scp = regs f ! FRAME_SP + 16; m = umem f; stk = u_sigstk us in
      if baduaddr scp \<or> baduaddr (scp + sc_size) then (us, k\<lparr>u_error := EFAULT\<rparr>, f)
      else
        (us\<lparr>u_sigstk := stk\<lparr>ss_flags :=
             (if m (sc_onstack scp) AND SA_ONSTACK \<noteq> 0 then ss_flags stk OR SA_ONSTACK
              else ss_flags stk AND NOT SA_ONSTACK)\<rparr>\<rparr>,
         updproc (u_procp k) (\<lambda>x. x\<lparr>p_sigmask := m (sc_mask scp) AND NOT sigcantmask\<rparr>)
           (k\<lparr>u_error := EJUSTRETURN\<rparr>),
         f\<lparr>regs := fold (\<lambda>j r. r[sc_regs ! j := m (sc_reg scp j)]) [0..<32] (regs f)\<rparr>))"

section \<open>The saved context\<close>

lemma fold_upd_other: "a \<notin> g ` set js \<Longrightarrow> fold (\<lambda>j m. m(g j := v j)) js m a = m a"
  by (induction js arbitrary: m) auto

lemma fold_upd_at:
  "inj_on g (set js) \<Longrightarrow> distinct js \<Longrightarrow> i \<in> set js \<Longrightarrow> fold (\<lambda>j m. m(g j := v j)) js m (g i) = v i"
proof (induction js arbitrary: m)
  case (Cons j js)
  show ?case
  proof (cases "i = j")
    case True
    with Cons.prems have "g i \<notin> g ` set js" by (auto simp: inj_on_def)
    then show ?thesis using True fold_upd_other [of "g i" g js v "m(g j := v j)"] by (simp del: fun_upd_apply add: fun_upd_same)
  next
    case False
    with Cons show ?thesis by simp
  qed
qed simp

lemma sc_offset:
  assumes "j < 32"
  shows "unat (4 * word_of_nat j :: u32) = 4 * j"
  using assms by (simp add: unat_word_ariths unat_of_nat take_bit_eq_mod)

lemma sc_reg_inj: "inj_on (sc_reg scp) (set [0..<32])"
proof (rule inj_onI)
  fix i j assume "i \<in> set [0..<32]" "j \<in> set [0..<32]" "sc_reg scp i = sc_reg scp j"
  then have "i < 32" "j < 32" "(4 * word_of_nat i :: u32) = 4 * word_of_nat j"
    by (auto simp: sc_reg_def simp del: mult_cancel_left)
  then have "4 * i = 4 * j" using sc_offset [of i] sc_offset [of j] by metis
  then show "i = j" by simp
qed

lemma sc_reg_header:
  assumes "j < 32"
  shows "sc_reg scp j \<noteq> sc_onstack scp" "sc_reg scp j \<noteq> sc_mask scp"
proof -
  have u: "unat (16 + 4 * word_of_nat j :: u32) = 16 + 4 * j"
    using assms sc_offset [OF assms] by (subst unat_add_le) auto
  define x where "x = (16 + 4 * word_of_nat j :: u32)"
  have "unat x \<noteq> unat (0::u32)" "unat x \<noteq> unat (4::u32)" using u by (simp_all add: x_def)
  then have "x \<noteq> 0" "x \<noteq> 4" by metis+
  moreover have "sc_reg scp j = scp + x" by (simp add: sc_reg_def x_def add.assoc)
  ultimately show "sc_reg scp j \<noteq> sc_onstack scp" "sc_reg scp j \<noteq> sc_mask scp"
    by (simp_all add: sc_onstack_def sc_mask_def)
qed

lemma sc_write_read:
  "j < 32 \<Longrightarrow> sc_write scp on msk r m (sc_reg scp j) = r ! (sc_regs ! j)"
  "sc_write scp on msk r m (sc_onstack scp) = on"
  "sc_write scp on msk r m (sc_mask scp) = msk"
proof -
  show "j < 32 \<Longrightarrow> sc_write scp on msk r m (sc_reg scp j) = r ! (sc_regs ! j)"
    unfolding sc_write_def by (rule fold_upd_at [OF sc_reg_inj]) auto
  have "sc_onstack scp \<notin> sc_reg scp ` set [0..<32]" "sc_mask scp \<notin> sc_reg scp ` set [0..<32]"
    using sc_reg_header by (metis atLeast_upt image_iff lessThan_iff)+
  then show "sc_write scp on msk r m (sc_onstack scp) = on" "sc_write scp on msk r m (sc_mask scp) = msk"
    unfolding sc_write_def by (simp_all add: fold_upd_other) (simp add: sc_onstack_def sc_mask_def)
qed

lemma sc_regs_nth: "j < 32 \<Longrightarrow> sc_regs ! j = (if j < 31 then j else 32)"
  by (simp add: sc_regs_def nth_append FRAME_PC_def)

text \<open>The loop that restores the registers, as a list: all but the status register.\<close>

lemma restore_regs:
  "n \<le> 32 \<Longrightarrow> length r = FRAME_WORDS \<Longrightarrow>
   length (fold (\<lambda>j r. r[sc_regs ! j := w j]) [0..<n] r) = FRAME_WORDS \<and>
   (\<forall>i<FRAME_WORDS. fold (\<lambda>j r. r[sc_regs ! j := w j]) [0..<n] r ! i =
      (if i < 31 \<and> i < n then w i else if i = 32 \<and> n = 32 then w 31 else r ! i))"
proof (induction n)
  case (Suc n)
  then have IH: "length (fold (\<lambda>j r. r[sc_regs ! j := w j]) [0..<n] r) = FRAME_WORDS"
    "\<forall>i<FRAME_WORDS. fold (\<lambda>j r. r[sc_regs ! j := w j]) [0..<n] r ! i =
      (if i < 31 \<and> i < n then w i else if i = 32 \<and> n = 32 then w 31 else r ! i)" by auto
  have "sc_regs ! n = (if n < 31 then n else 32)" using Suc.prems sc_regs_nth by simp
  then show ?case using IH Suc.prems by (auto simp: nth_list_update FRAME_WORDS_def less_Suc_eq)
qed simp

section \<open>Properties\<close>

text \<open>
  C26. Round trip of a signal handler. When \<^verbatim>\<open>sendsig\<close> has entered a handler and the handler comes
  back to \<^verbatim>\<open>sigreturn\<close> with its stack pointer and the saved context as they were, in user memory,
  every register of the interrupted process but the status register is what it was, the signal
  mask is the one given to \<^verbatim>\<open>sendsig\<close> and the process is on the alternate stack exactly if it
  was; the handler itself started at its address with the signal number, the code and the
  address of the context as its arguments.
\<close>

theorem sendsig_sigreturn:
  assumes s: "sendsig p sig msk us k f = Some (Inr (us1, k1, f1))"
    and live: "\<not> sendsig_trashed sig us k f"
    and len: "length (regs f) = FRAME_WORDS" "length (regs f2) = FRAME_WORDS"
    and hnd: "regs f2 ! FRAME_SP = regs f1 ! FRAME_SP" "umem f2 = umem f1"
    and addr: "\<not> baduaddr (regs f1 ! FRAME_SP + 16)" "\<not> baduaddr (regs f1 ! FRAME_SP + 16 + sc_size)"
    and r: "sigreturn us2 k2 f2 = (us3, k3, f3)"
  shows "(\<forall>i<FRAME_WORDS. i \<noteq> 31 \<longrightarrow> regs f3 ! i = regs f ! i) \<and> regs f3 ! 31 = regs f2 ! 31 \<and>
    p_sigmask (procs k3 (u_procp k2)) = msk AND NOT sigcantmask \<and>
    ss_flags (u_sigstk us3) AND SA_ONSTACK = ss_flags (u_sigstk us) AND SA_ONSTACK \<and>
    regs f1 ! FRAME_PC = p \<and> regs f1 ! FRAME_R4 = word_of_nat sig \<and> regs f1 ! FRAME_R5 = u_code f \<and>
    regs f1 ! FRAME_R6 = regs f1 ! FRAME_SP + 16 \<and> regs f1 ! FRAME_RA = u_sigtramp us"
proof -
  define sfp where "sfp = fst (sendsig_stack sig us f)"
  have f1: "regs f1 = (regs f)[FRAME_R4 := word_of_nat sig, FRAME_R5 := u_code f, FRAME_R6 := sfp + 16,
                      FRAME_RA := u_sigtramp us1, FRAME_SP := sfp, FRAME_PC := p]"
    and m1: "umem f1 = sc_write (sfp + 16) (ss_flags (u_sigstk us) AND SA_ONSTACK) msk (regs f) (umem f)"
    and us1: "us1 = snd (sendsig_stack sig us f)"
    using s live by (auto simp: sendsig_def Let_def sfp_def)
  have tr: "u_sigtramp us1 = u_sigtramp us" by (simp add: us1 sendsig_stack_def Let_def)
  have sp: "regs f1 ! FRAME_SP = sfp" using len(1) by (simp add: f1 frame_defs)
  have r3: "regs f3 = fold (\<lambda>j r. r[sc_regs ! j := umem f1 (sc_reg (sfp + 16) j)]) [0..<32] (regs f2)"
    and k3: "p_sigmask (procs k3 (u_procp k2)) = umem f1 (sc_mask (sfp + 16)) AND NOT sigcantmask"
    and us3: "ss_flags (u_sigstk us3) = (if umem f1 (sc_onstack (sfp + 16)) AND SA_ONSTACK \<noteq> 0
        then ss_flags (u_sigstk us2) OR SA_ONSTACK else ss_flags (u_sigstk us2) AND NOT SA_ONSTACK)"
    using r addr hnd sp by (auto simp: sigreturn_def Let_def)
  have regs: "\<forall>i<FRAME_WORDS. regs f3 ! i = (if i < 31 then umem f1 (sc_reg (sfp + 16) i)
      else if i = 32 then umem f1 (sc_reg (sfp + 16) 31) else regs f2 ! i)"
    using restore_regs [of 32 "regs f2" "\<lambda>j. umem f1 (sc_reg (sfp + 16) j)"] len(2) unfolding r3 by auto
  have saved: "umem f1 (sc_reg (sfp + 16) j) = regs f ! (if j < 31 then j else 32)" if "j < 32" for j
    unfolding m1 using sc_write_read(1) [OF that] sc_regs_nth [OF that] by simp
  have "regs f3 ! i = regs f ! i" if "i < FRAME_WORDS" "i \<noteq> 31" for i
  proof (cases "i < 31")
    case True
    then show ?thesis using regs that saved [of i] by simp
  next
    case False
    then have "i = 32" using that by (simp add: FRAME_WORDS_def)
    then show ?thesis using regs that saved [of 31] by simp
  qed
  moreover have "regs f3 ! 31 = regs f2 ! 31" using regs by (simp add: FRAME_WORDS_def)
  moreover have "ss_flags (u_sigstk us3) AND SA_ONSTACK = ss_flags (u_sigstk us) AND SA_ONSTACK"
    unfolding us3 m1 sc_write_read(2)
    by (cases "bit (ss_flags (u_sigstk us)) 0") (auto intro!: bit_eqI simp: bit_simps)
  moreover have "p_sigmask (procs k3 (u_procp k2)) = msk AND NOT sigcantmask"
    unfolding k3 m1 sc_write_read(3) ..
  moreover have "regs f1 ! FRAME_PC = p \<and> regs f1 ! FRAME_R4 = word_of_nat sig \<and> regs f1 ! FRAME_R5 = u_code f \<and>
    regs f1 ! FRAME_R6 = regs f1 ! FRAME_SP + 16 \<and> regs f1 ! FRAME_RA = u_sigtramp us"
    using len(1) by (simp add: f1 frame_defs tr)
  ultimately show ?thesis by blast
qed

text \<open>A process with its stack just below the end of user memory, about to take signal 2.\<close>

definition demo_frame :: uframe where
  "demo_frame = \<lparr>regs = replicate 26 7 @ [0x7f01ff00] @ replicate 6 9, umem = (\<lambda>_. 0), u_code = 0, u_dsize = 0x1000, u_ssize = 0x800\<rparr>"

definition demo_usig :: usig where
  "demo_usig = \<lparr>u_ruid = 0, u_signal = (\<lambda>_. 0)(2 := 0x7f008100), u_sigmask = (\<lambda>_. 0), u_sigonstack = 0, u_oldmask = 0,
     u_psflags = 0, u_sigstk = \<lparr>ss_base = 0, ss_size = 0, ss_flags = 0\<rparr>, u_sigtramp = 0x7f008200\<rparr>"

lemma demo_sfp: "sendsig_stack 2 demo_usig demo_frame = (0x7f01fe60, demo_usig)"
  by (simp add: sendsig_stack_def demo_usig_def demo_frame_def frame_defs sf_size_def sc_size_def Let_def nth_append)

lemma demo_not_trashed: "\<not> sendsig_trashed 2 demo_usig (demo_kern 7 7 7) demo_frame"
  by (simp add: sendsig_trashed_def demo_sfp) (simp add: demo_usig_def demo_frame_def demo_proc_def)

theorem sendsig_sigreturn_witness:
  "\<exists>us1 k1 f1. sendsig 0x7f008100 2 5 demo_usig (demo_kern 7 7 7) demo_frame = Some (Inr (us1, k1, f1)) \<and>
     p_sigmask (procs (fst (snd (sigreturn us1 k1 f1))) 2) = 5 AND NOT sigcantmask"
proof -
  obtain us1 k1 f1 where s: "sendsig 0x7f008100 2 5 demo_usig (demo_kern 7 7 7) demo_frame = Some (Inr (us1, k1, f1))"
    and k: "u_procp k1 = 2" and f: "regs f1 ! FRAME_SP = 0x7f01fe60" "length (regs f1) = FRAME_WORDS"
    using demo_not_trashed
    by (simp add: sendsig_def Let_def demo_sfp) (simp add: demo_frame_def frame_defs)
  obtain us3 k3 f3 where r: "sigreturn us1 k1 f1 = (us3, k3, f3)" by (metis prod_cases3)
  have "length (regs demo_frame) = FRAME_WORDS" by (simp add: demo_frame_def FRAME_WORDS_def)
  from sendsig_sigreturn [OF s demo_not_trashed this f(2) refl refl _ _ r]
  have "p_sigmask (procs k3 (u_procp k1)) = 5 AND NOT sigcantmask"
    by (simp add: f(1) baduaddr_def USER_DATA_START_def USER_DATA_END_def sc_size_def)
  then show ?thesis using s r k by auto
qed

text \<open>
  C27. The address of the frame is not checked. If the alternate stack of the process, which
  \<^verbatim>\<open>sigaltstack\<close> takes from the user as it is, lies outside user memory, \<^verbatim>\<open>sendsig\<close> writes the saved
  registers there: the word at the place of register \<open>j\<close> becomes a value that the process
  chose, wherever the base of the stack points.
\<close>

theorem sendsig_writes_anywhere:
  assumes ss: "128 \<le> ss_size ss" "ss_flags ss = 0"
    and us: "snd (sigaltstack (Some (Inr ss)) None us0 k0) = (us, k)" "u_sigonstack us0 AND sigmask sig \<noteq> 0"
    and j: "j < 32"
  shows "\<exists>us1 k1 f1. sendsig p sig msk us k f = Some (Inr (us1, k1, f1)) \<and>
    umem f1 (ss_base ss + word_of_int (ss_size ss) - sf_size + 16 + 16 + 4 * word_of_nat j) = regs f ! (sc_regs ! j)"
proof -
  have u0: "u_psflags us = u_psflags us0 OR SAS_ALTSTACK" "u_sigstk us = ss" "u_sigonstack us = u_sigonstack us0"
    using us(1) ss by (auto simp: sigaltstack_def Let_def)
  have "bit ((u_psflags us0 OR SAS_ALTSTACK) AND SAS_ALTSTACK) 1" by (simp add: bit_simps)
  then have u: "u_psflags us AND SAS_ALTSTACK \<noteq> 0" "u_sigstk us = ss" "u_sigonstack us = u_sigonstack us0"
    using u0 by (metis bit_0_eq bot_fun_def bot_bool_def, simp_all)
  define sfp where "sfp = ss_base ss + word_of_int (ss_size ss) - sf_size"
  have st: "sendsig_stack sig us f = (sfp, us\<lparr>u_sigstk := ss\<lparr>ss_flags := 1\<rparr>\<rparr>)"
    using u us(2) ss by (simp add: sendsig_stack_def Let_def sfp_def)
  have "\<not> sendsig_trashed sig us k f" by (simp add: sendsig_trashed_def st)
  then obtain us1 k1 f1 where s: "sendsig p sig msk us k f = Some (Inr (us1, k1, f1))"
    "umem f1 = sc_write (sfp + 16) (ss_flags (u_sigstk us) AND SA_ONSTACK) msk (regs f) (umem f)"
    by (simp add: sendsig_def Let_def st)
  have "sfp + 16 + 16 + 4 * word_of_nat j = sc_reg (sfp + 16) j" by (simp add: sc_reg_def)
  then show ?thesis using s sc_write_read(1) [OF j] unfolding sfp_def [symmetric] by auto
qed

theorem sendsig_writes_anywhere_witness:
  "\<exists>us1 k1 f1. sendsig 0x7f008100 2 0
       (fst (snd (sigaltstack (Some (Inr \<lparr>ss_base = 0x80001000, ss_size = 512, ss_flags = 0\<rparr>)) None
          (demo_usig\<lparr>u_sigonstack := 2\<rparr>) (demo_kern 7 7 7))))
       (snd (snd (sigaltstack (Some (Inr \<lparr>ss_base = 0x80001000, ss_size = 512, ss_flags = 0\<rparr>)) None
          (demo_usig\<lparr>u_sigonstack := 2\<rparr>) (demo_kern 7 7 7)))) demo_frame = Some (Inr (us1, k1, f1)) \<and>
     baduaddr 0x80001180 \<and> umem f1 0x80001180 = 7"
proof -
  let ?ss = "\<lparr>ss_base = 0x80001000, ss_size = 512, ss_flags = 0\<rparr>"
  obtain us k where u: "snd (sigaltstack (Some (Inr ?ss)) None (demo_usig\<lparr>u_sigonstack := 2\<rparr>) (demo_kern 7 7 7)) = (us, k)"
    by fastforce
  have "u_sigonstack (demo_usig\<lparr>u_sigonstack := 2\<rparr>) AND sigmask 2 \<noteq> 0"
    by (simp add: and_sigmask bit_simps)
  from sendsig_writes_anywhere [OF _ _ u this, of 0 "0x7f008100" 0 demo_frame]
  obtain us1 k1 f1 where "sendsig 0x7f008100 2 0 us k demo_frame = Some (Inr (us1, k1, f1))"
    "umem f1 0x80001180 = 7"
    by (auto simp: sf_size_def sc_size_def sc_regs_nth demo_frame_def nth_append)
  then show ?thesis unfolding u
    by (auto simp: baduaddr_def USER_DATA_START_def USER_DATA_END_def USER_FLASH_START_def USER_FLASH_END_def)
qed

end
