(* ===== verification/Sig_Calls.thy ===== *)
theory Sig_Calls
  imports Sendsig
begin

text \<open>
  Properties of the signal code: what a posted signal does to its target, the agreement
  between the dispositions and the masks over every sequence of signal calls, the signal that
  the running process takes, and who may be signalled.
\<close>

section \<open>Dispositions\<close>

text \<open>
  The masks in the process entry agree with the handlers in the user area, and \<^verbatim>\<open>SIGKILL\<close> and
  \<^verbatim>\<open>SIGSTOP\<close> are neither caught nor ignored nor held nor in a mask that will be installed.
\<close>

definition disp_ok :: "usig \<Rightarrow> kern \<Rightarrow> bool" where
  "disp_ok us k \<longleftrightarrow>
     (let x = procs k (u_procp k) in
      (\<forall>s. 1 \<le> s \<and> s < NSIG \<longrightarrow>
         (catches x s \<longleftrightarrow> u_signal us s \<noteq> SIG_DFL \<and> u_signal us s \<noteq> SIG_IGN) \<and>
         (ignores x s \<longleftrightarrow> s \<noteq> SIGCONT \<and>
            (u_signal us s = SIG_IGN \<or> u_signal us s = SIG_DFL \<and> SA_IGNORE \<in> sigprop s))) \<and>
      u_signal us SIGKILL = SIG_DFL \<and> u_signal us SIGSTOP = SIG_DFL \<and>
      p_sigmask x AND sigcantmask = 0 \<and> (\<forall>s. u_sigmask us s AND sigcantmask = 0) \<and>
      u_oldmask us AND sigcantmask = 0)"

lemma cant_iff: "w AND sigcantmask = 0 \<longleftrightarrow> \<not> bit w 8 \<and> \<not> bit w 16"
proof
  assume "w AND sigcantmask = 0"
  then have "\<not> bit (w AND sigcantmask) 8" "\<not> bit (w AND sigcantmask) 16" by simp_all
  then show "\<not> bit w 8 \<and> \<not> bit w 16" by (simp add: bit_and_iff sigs_constants)
next
  assume "\<not> bit w 8 \<and> \<not> bit w 16"
  then show "w AND sigcantmask = 0" by (intro bit_eqI) (auto simp: bit_and_iff sigs_constants)
qed

lemma disp_ok_frame:
  assumes "u_procp k' = u_procp k" "u_signal us' = u_signal us" "u_sigmask us' = u_sigmask us" "u_oldmask us' = u_oldmask us"
    "p_sigcatch (procs k' (u_procp k)) = p_sigcatch (procs k (u_procp k))"
    "p_sigignore (procs k' (u_procp k)) = p_sigignore (procs k (u_procp k))"
    "p_sigmask (procs k' (u_procp k)) = p_sigmask (procs k (u_procp k))"
  shows "disp_ok us' k' = disp_ok us k"
  using assms by (simp add: disp_ok_def Let_def)

lemma disp_ok_setsigvec:
  assumes ok: "disp_ok us k" and n: "1 \<le> n" "n < NSIG" "n \<noteq> SIGKILL" "n \<noteq> SIGSTOP"
    and s: "setsigvec n sa us k = (us', k')"
  shows "disp_ok us' k'"
proof -
  have us': "us' = fst (setsigvec n sa us k)" and k': "k' = snd (setsigvec n sa us k)" using s by simp_all
  have bits: "bit (sigmask n) (s - 1) \<longleftrightarrow> s = n" if "1 \<le> s" "s < NSIG" for s
    using that n by (auto simp: bit_sigmask NSIG_def)
  have lt: "s - 1 < 32" if "s < NSIG" for s using that by (simp add: NSIG_def less_imp_diff_less)
  have f: "u_procp k' = u_procp k" "u_signal us' = (u_signal us)(n := sa_handler sa)"
    "u_sigmask us' = (u_sigmask us)(n := sa_mask sa AND NOT sigcantmask)" "u_oldmask us' = u_oldmask us"
    "p_sigmask (procs k' (u_procp k)) = p_sigmask (procs k (u_procp k))"
    unfolding us' k' setsigvec_def Let_def by simp_all
  have c: "p_sigcatch (procs k' (u_procp k)) =
      (if sa_handler sa = SIG_DFL \<or> sa_handler sa = SIG_IGN
       then p_sigcatch (procs k (u_procp k)) AND NOT (sigmask n) else p_sigcatch (procs k (u_procp k)) OR sigmask n)"
    unfolding k' setsigvec_def Let_def by simp
  define ig where "ig = (sa_handler sa = SIG_IGN \<or> SA_IGNORE \<in> sigprop n \<and> sa_handler sa = SIG_DFL)"
  have i: "p_sigignore (procs k' (u_procp k)) =
      (if ig then if n \<noteq> SIGCONT then p_sigignore (procs k (u_procp k)) OR sigmask n else p_sigignore (procs k (u_procp k))
       else p_sigignore (procs k (u_procp k)) AND NOT (sigmask n))"
    unfolding k' setsigvec_def Let_def ig_def by simp
  have o: "\<forall>s. 1 \<le> s \<and> s < NSIG \<longrightarrow>
         (catches (procs k (u_procp k)) s \<longleftrightarrow> u_signal us s \<noteq> SIG_DFL \<and> u_signal us s \<noteq> SIG_IGN) \<and>
         (ignores (procs k (u_procp k)) s \<longleftrightarrow> s \<noteq> SIGCONT \<and>
            (u_signal us s = SIG_IGN \<or> u_signal us s = SIG_DFL \<and> SA_IGNORE \<in> sigprop s))"
    using ok by (simp add: disp_ok_def Let_def)
  have "catches (procs k' (u_procp k)) s \<longleftrightarrow> u_signal us' s \<noteq> SIG_DFL \<and> u_signal us' s \<noteq> SIG_IGN"
    if "1 \<le> s" "s < NSIG" for s
    using o [rule_format, of s] that bits [OF that] lt [OF that(2)]
    by (auto simp: c f(2) bit_and_iff bit_or_iff bit_not_iff)
  moreover have "ignores (procs k' (u_procp k)) s \<longleftrightarrow> s \<noteq> SIGCONT \<and>
            (u_signal us' s = SIG_IGN \<or> u_signal us' s = SIG_DFL \<and> SA_IGNORE \<in> sigprop s)"
    if "1 \<le> s" "s < NSIG" for s
    using o [rule_format, of s] that bits [OF that] lt [OF that(2)]
    by (auto simp: i ig_def f(2) bit_and_iff bit_or_iff bit_not_iff)
  ultimately show ?thesis using ok n unfolding disp_ok_def Let_def f(1)
    by (auto simp: f(2-5) cant_iff bit_and_iff bit_not_iff sigs_constants)
qed

text \<open>
  One step of the running process or of another process that posts a signal. \<^verbatim>\<open>fatalsig\<close> is called
  with \<^verbatim>\<open>SIGILL\<close>.
\<close>

datatype sigcall =
    S_sigaction int "(int + sigact_t) option" "int option" u32
  | S_sigprocmask int "(int + u32) option" "int option"
  | S_sigpending "int option"
  | S_sigsuspend "(int + u32) option"
  | S_sigsuspend_exit
  | S_sigaltstack "(int + sigaltstack) option" "int option"
  | S_sigstack "(int + (u32 \<times> u32)) option" "int option"
  | S_sigwait "(int + u32) option" "int option"
  | S_postsig nat
  | S_fatalsig
  | S_sigreturn uframe
  | S_psignal nat nat

fun sig_step :: "sigcall \<Rightarrow> usig \<times> kern \<Rightarrow> (usig \<times> kern) kres option" where
  "sig_step (S_sigaction n nsa osa t) st = Some (Inr (snd (sigaction n nsa osa t st)))"
| "sig_step (S_sigprocmask how sset oset) (us, k) = Some (Inr (us, snd (sigprocmask how sset oset k)))"
| "sig_step (S_sigpending sset) (us, k) = Some (Inr (us, snd (sigpending sset k)))"
| "sig_step (S_sigsuspend sset) (us, k) = Some (Inr (sigsuspend_enter sset us k))"
| "sig_step S_sigsuspend_exit (us, k) = Some (Inr (us, sigsuspend_exit k))"
| "sig_step (S_sigaltstack nss oss) (us, k) = Some (Inr (snd (sigaltstack nss oss us k)))"
| "sig_step (S_sigstack nss oss) (us, k) = Some (Inr (snd (sigstack nss oss us k)))"
| "sig_step (S_sigwait sset sig) (us, k) =
     Some (Inr (us, case sigwait sset sig k of None \<Rightarrow> k | Some (r, k') \<Rightarrow> k'))"
| "sig_step (S_postsig sig) (us, k) = Some (Inr (snd (postsig False sig us k)))"
| "sig_step S_fatalsig (us, k) =
     (case fatalsig SIGILL us k of (us', r) \<Rightarrow> map_option (map_sum id (Pair us')) r)"
| "sig_step (S_sigreturn f) (us, k) = (case sigreturn us k f of (us', k', f') \<Rightarrow> Some (Inr (us', k')))"
| "sig_step (S_psignal p sig) (us, k) = map_option (map_sum id (Pair us)) (psignal p sig k)"

fun sig_valid :: "sigcall \<Rightarrow> bool" where
  "sig_valid (S_psignal p sig) \<longleftrightarrow> 1 \<le> sig \<and> sig < NSIG"
| "sig_valid _ \<longleftrightarrow> True"

lemma sig_ok_irrelevant [simp]:
  "sig_ok (k\<lparr>u_error := e\<rparr>) = sig_ok k" "sig_ok (k\<lparr>u_sigintr := w\<rparr>) = sig_ok k" "sig_ok (k\<lparr>u_ru := r\<rparr>) = sig_ok k"
  by (simp_all add: sig_ok_def sched_ok_def sleepers_def)

lemma sig_ok_upd':
  "procs k = P \<Longrightarrow> p_stat x = p_stat (P p) \<Longrightarrow> p_flag x = p_flag (P p) \<Longrightarrow> p_wchan x = p_wchan (P p) \<Longrightarrow>
   p_pptr x = p_pptr (P p) \<Longrightarrow> sig_ok (k\<lparr>procs := P(p := x)\<rparr>) = sig_ok k"
  using sig_ok_upd [of x k p] by simp

lemma disp_ok_irrelevant [simp]:
  "disp_ok us (k\<lparr>u_error := e\<rparr>) = disp_ok us k" "disp_ok us (k\<lparr>u_sigintr := w\<rparr>) = disp_ok us k"
  "disp_ok (us\<lparr>u_sigtramp := t\<rparr>) k = disp_ok us k" "disp_ok (us\<lparr>u_sigstk := ss\<rparr>) k = disp_ok us k"
  "disp_ok (us\<lparr>u_psflags := f\<rparr>) k = disp_ok us k" "disp_ok (us\<lparr>u_sigonstack := w\<rparr>) k = disp_ok us k"
  by (simp_all add: disp_ok_def Let_def)

lemma disp_ok_sig [simp]:
  "disp_ok us (updproc p (\<lambda>x. x\<lparr>p_sig := w\<rparr>) k) = disp_ok us k"
  by (rule disp_ok_frame) auto

lemma sig_ok_setsigvec:
  assumes "sig_ok k" "setsigvec n sa us k = (us', k')"
  shows "sig_ok k'"
proof -
  define k1 where "k1 = k\<lparr>u_sigintr := u_sigintr k'\<rparr>"
  have k': "k' = snd (setsigvec n sa us k)" using assms by simp
  have e: "k' = k1\<lparr>procs := (procs k1)(u_procp k := procs k' (u_procp k))\<rparr>"
    unfolding k1_def k' setsigvec_def Let_def by simp
  have f: "p_stat (procs k' (u_procp k)) = p_stat (procs k (u_procp k))"
    "p_wchan (procs k' (u_procp k)) = p_wchan (procs k (u_procp k))"
    "p_pptr (procs k' (u_procp k)) = p_pptr (procs k (u_procp k))"
    "P_SINTR \<in> p_flag (procs k' (u_procp k)) \<longleftrightarrow> P_SINTR \<in> p_flag (procs k (u_procp k))"
    "SLOAD \<in> p_flag (procs k' (u_procp k)) \<longleftrightarrow> SLOAD \<in> p_flag (procs k (u_procp k))"
    unfolding k' setsigvec_def Let_def by auto
  have o: "procs k' q = procs k q" if "q \<noteq> u_procp k" for q by (subst e) (simp add: k1_def that)
  have g: "p_stat (procs k' q) = p_stat (procs k q)" "p_wchan (procs k' q) = p_wchan (procs k q)"
    "p_pptr (procs k' q) = p_pptr (procs k q)" "P_SINTR \<in> p_flag (procs k' q) \<longleftrightarrow> P_SINTR \<in> p_flag (procs k q)"
    "SLOAD \<in> p_flag (procs k' q) \<longleftrightarrow> SLOAD \<in> p_flag (procs k q)" for q
    using o f by (cases "q = u_procp k"; simp)+
  have h: "slpque k' = slpque k" "qs k' = qs k" "a_runout k' = a_runout k" by (subst e, simp add: k1_def)+
  show ?thesis using assms(1) unfolding sig_ok_def sched_ok_def sleepers_def by (simp add: g h)
qed

lemma disp_ok_fatal:
  assumes "disp_ok us k"
  shows "disp_ok (us\<lparr>u_signal := (u_signal us)(SIGILL := SIG_DFL)\<rparr>)
     (updproc (u_procp k) (\<lambda>x. x\<lparr>p_sigignore := p_sigignore x AND NOT (sigmask SIGILL),
        p_sigcatch := p_sigcatch x AND NOT (sigmask SIGILL), p_sigmask := p_sigmask x AND NOT (sigmask SIGILL)\<rparr>) k)"
proof -
  have p4: "SA_IGNORE \<notin> sigprop 4" by (simp add: sigprop_def sigprop_table_def)
  have b: "bit (sigmask 4) (s - Suc 0) \<longleftrightarrow> s = 4" if "Suc 0 \<le> s" "s < NSIG" for s
    using that by (auto simp: bit_sigmask NSIG_def)
  have lt: "s - Suc 0 < 32" if "s < NSIG" for s using that by (simp add: NSIG_def less_imp_diff_less)
  show ?thesis using assms p4 unfolding disp_ok_def Let_def
    by (auto simp: cant_iff bit_and_iff bit_not_iff b lt)
qed

lemma sig_frame_disp: "sig_frame k k' \<Longrightarrow> disp_ok us k' = disp_ok us k"
  by (rule disp_ok_frame) (auto simp: sig_frame_def kframe_def pwho_def)

text \<open>Steps that only change the mask, or nothing that matters.\<close>

lemma disp_ok_mask:
  assumes "disp_ok us k" "m AND sigcantmask = 0"
  shows "disp_ok us (updproc (u_procp k) (\<lambda>x. x\<lparr>p_sigmask := m\<rparr>) k)"
  using assms by (simp add: disp_ok_def Let_def)

lemma sig_step_keeps:
  assumes sok: "sig_ok k" and dok: "disp_ok us k" and v: "sig_valid c"
  shows "\<exists>us' k'. sig_step c (us, k) = Some (Inr (us', k')) \<and> sig_ok k' \<and> disp_ok us' k'"
proof (cases c)
  case (S_sigaction n nsa osa t)
  have "sig_ok (snd (snd (sigaction n nsa osa t (us, k)))) \<and>
    disp_ok (fst (snd (sigaction n nsa osa t (us, k)))) (snd (snd (sigaction n nsa osa t (us, k))))"
  proof (cases "n \<le> 0 \<or> n \<ge> int NSIG \<or> (\<forall>sa. nsa \<noteq> Some (Inr sa)) \<or> nat n = SIGKILL \<or> nat n = SIGSTOP \<or> (osa \<noteq> None \<and> osa \<noteq> Some 0)")
    case True
    then show ?thesis using sok dok by (auto simp: sigaction_def Let_def split: option.splits sum.splits)
  next
    case False
    then obtain sa where sa: "nsa = Some (Inr sa)" by blast
    obtain us' k' where sv: "setsigvec (nat n) sa (us\<lparr>u_sigtramp := t\<rparr>) k = (us', k')" by fastforce
    have "disp_ok us' k'"
      by (rule disp_ok_setsigvec [OF _ _ _ _ _ sv]) (use False dok in auto)
    then show ?thesis using False sa sv sig_ok_setsigvec [OF sok sv]
      by (auto simp: sigaction_def Let_def)
  qed
  then show ?thesis using S_sigaction by (auto simp: prod_eq_iff)
next
  case (S_psignal p sig)
  then show ?thesis using psignal_ok [OF sok, of sig p] v sig_frame_disp dok by auto
next
  case S_fatalsig
  let ?k = "updproc (u_procp k) (\<lambda>x. x\<lparr>p_sigignore := p_sigignore x AND NOT (sigmask SIGILL),
        p_sigcatch := p_sigcatch x AND NOT (sigmask SIGILL), p_sigmask := p_sigmask x AND NOT (sigmask SIGILL)\<rparr>) k"
  have "sig_ok ?k" using sok by (simp add: sig_ok_upd)
  from psignal_ok [OF this, of SIGILL "u_procp k"] obtain k' where
    "psignal (u_procp k) SIGILL ?k = Some (Inr k')" "sig_ok k'" "sig_frame ?k k'" by (auto simp: NSIG_def)
  then show ?thesis using S_fatalsig sig_frame_disp disp_ok_fatal [OF dok] by (simp add: fatalsig_def Let_def)
next
  case (S_sigprocmask how sset oset)
  have mask: "sig_ok (updproc (u_procp k) (\<lambda>x. x\<lparr>p_sigmask := m\<rparr>) k)" for m using sok by (simp add: sig_ok_upd)
  have m0: "p_sigmask (procs k (u_procp k)) AND sigcantmask = 0" using dok by (simp add: disp_ok_def Let_def)
  have "sig_ok (snd (sigprocmask how sset oset k)) \<and> disp_ok us (snd (sigprocmask how sset oset k))"
  proof (cases sset)
    case None
    then show ?thesis using sok dok by (simp add: sigprocmask_def Let_def split: option.splits)
  next
    case (Some a)
    show ?thesis
    proof (cases a)
      case (Inl e)
      then show ?thesis using Some sok dok by (simp add: sigprocmask_def Let_def split: option.splits)
    next
      case (Inr m)
      have "disp_ok us (updproc (u_procp k) (\<lambda>x. x\<lparr>p_sigmask := p_sigmask x OR (m AND NOT sigcantmask)\<rparr>) k)"
        "disp_ok us (updproc (u_procp k) (\<lambda>x. x\<lparr>p_sigmask := p_sigmask x AND NOT m\<rparr>) k)"
        "disp_ok us (updproc (u_procp k) (\<lambda>x. x\<lparr>p_sigmask := m AND NOT sigcantmask\<rparr>) k)"
        using m0 by (auto intro!: disp_ok_mask [OF dok] simp: cant_iff bit_simps sigs_constants)
      then show ?thesis using Some Inr sok dok mask by (simp add: sigprocmask_def Let_def split: option.splits)
    qed
  qed
  then show ?thesis using S_sigprocmask by simp
next
  case (S_sigpending x)
  then show ?thesis using sok dok by (auto simp: sigpending_def split: option.splits)
next
  case (S_sigsuspend sset)
  have "disp_ok (us\<lparr>u_oldmask := p_sigmask (procs k (u_procp k)), u_psflags := w\<rparr>)
      (updproc (u_procp k) (\<lambda>x. x\<lparr>p_sigmask := m AND NOT sigcantmask\<rparr>) k)" for m w
    using dok by (simp add: disp_ok_def Let_def and.assoc)
  then show ?thesis using S_sigsuspend sok by (simp add: sigsuspend_enter_def Let_def sig_ok_upd)
next
  case S_sigsuspend_exit
  then show ?thesis using sok dok by (simp add: sigsuspend_exit_def)
next
  case (S_sigaltstack x y)
  then show ?thesis using sok dok by (auto simp: sigaltstack_def Let_def split: option.splits sum.splits)
next
  case (S_sigstack x y)
  then show ?thesis using sok dok by (auto simp: sigstack_def Let_def split: option.splits sum.splits)
next
  case (S_sigwait x y)
  then show ?thesis using sok dok by (auto simp: sigwait_def Let_def sig_ok_upd split: option.splits sum.splits)
next
  case (S_postsig sig)
  have m: "(p_sigmask (procs k (u_procp k)) OR (u_sigmask us sig OR sigmask sig)) AND sigcantmask = 0"
    if "u_signal us sig \<noteq> SIG_DFL"
  proof -
    have "sig \<noteq> SIGKILL" "sig \<noteq> SIGSTOP" using dok that by (auto simp: disp_ok_def Let_def)
    then show ?thesis using dok by (auto simp: disp_ok_def Let_def cant_iff bit_simps bit_sigmask)
  qed
  show ?thesis
  proof (cases "u_signal us sig = SIG_DFL")
    case True
    then show ?thesis using S_postsig sok dok by (simp add: postsig_def Let_def sig_ok_upd)
  next
    case False
    have "disp_ok us' (updproc (u_procp k) (\<lambda>x. x\<lparr>p_sig := w, p_sigmask := p_sigmask x OR (u_sigmask us sig OR sigmask sig)\<rparr>)
        (k\<lparr>u_error := 0, u_ru := ru\<rparr>))"
      if "us' = us \<or> (\<exists>fl. us' = us\<lparr>u_psflags := fl\<rparr>)" for us' w ru
      using dok m [OF False] that by (auto simp: disp_ok_def Let_def)
    then show ?thesis using S_postsig False sok
      by (simp add: postsig_def Let_def sig_ok_upd')
  qed
next
  case (S_sigreturn f)
  have "disp_ok (us\<lparr>u_sigstk := ss\<rparr>) (updproc (u_procp k) (\<lambda>x. x\<lparr>p_sigmask := m AND NOT sigcantmask\<rparr>) (k\<lparr>u_error := e\<rparr>))" for ss m e
    using dok by (simp add: disp_ok_def Let_def and.assoc)
  then show ?thesis using S_sigreturn sok dok by (simp add: sigreturn_def Let_def sig_ok_upd')
qed

section \<open>The signal to take\<close>

text \<open>Signals that \<^verbatim>\<open>issignal\<close> drops without an effect.\<close>

definition droppable :: "usig \<Rightarrow> proc \<Rightarrow> nat \<Rightarrow> bool" where
  "droppable us x s \<longleftrightarrow> u_signal us s = SIG_IGN \<or>
     u_signal us s = SIG_DFL \<and> (SA_IGNORE \<in> sigprop s \<or> SA_TTYSTOP \<in> sigprop s \<and> p_pptr x = Some 1)"

definition deliverable :: "kern \<Rightarrow> nat \<Rightarrow> nat \<Rightarrow> bool" where
  "deliverable k p s \<longleftrightarrow> 1 \<le> s \<and> bit (cur_pending p k) (s - 1)"

fun issig_good :: "usig \<Rightarrow> nat \<Rightarrow> kern \<Rightarrow> issig_out \<Rightarrow> bool" where
  "issig_good us p k (ISig s k') \<longleftrightarrow> sig_ok k' \<and>
     (if s = 0 then cur_pending p k' = 0 \<and> (\<forall>t. deliverable k p t \<longrightarrow> droppable us (procs k p) t)
      else deliverable k p s \<and> \<not> droppable us (procs k p) s \<and>
        (u_signal us s = SIG_DFL \<longrightarrow> SA_STOP \<notin> sigprop s) \<and>
        (\<forall>t < s. deliverable k p t \<longrightarrow> droppable us (procs k p) t))"
| "issig_good us p k (IStop s k') \<longleftrightarrow> sig_ok k' \<and> p_stat (procs k' p) = SSTOP \<and>
     deliverable k p s \<and> u_signal us s = SIG_DFL \<and> SA_STOP \<in> sigprop s \<and>
     (\<forall>t < s. deliverable k p t \<longrightarrow> droppable us (procs k p) t)"
| "issig_good us p k (ITrace s k') \<longleftrightarrow> False"

text \<open>The state in which the running process looks for a signal.\<close>

definition looks :: "usig \<Rightarrow> nat \<Rightarrow> kern \<Rightarrow> bool" where
  "looks us p k \<longleftrightarrow> sig_ok k \<and> disp_ok us k \<and> p = u_procp k \<and> P_TRACED \<notin> p_flag (procs k p) \<and>
     p_pid (procs k p) > 1 \<and> p_wchan (procs k p) = 0 \<and> p \<notin> set (qs k) \<and>
     (\<exists>q. p_pptr (procs k p) = Some q \<and> q \<noteq> p) \<and> \<not> bit (p_sig (procs k p)) 31"

lemma cur_pending_clear:
  "cur_pending p (sig_clear p s k) = cur_pending p k AND NOT (sigmask s)"
  by (simp add: cur_pending_def Let_def and.assoc and.commute and.left_commute)

lemma cur_pending_subset: "bit (cur_pending p k) n \<Longrightarrow> bit (p_sig (procs k p)) n"
  by (simp add: cur_pending_def Let_def bit_and_iff split: if_splits)

lemma unat_clear_less:
  fixes w :: u32
  assumes "bit w n"
  shows "unat (w AND NOT (sigmask (Suc n))) < unat w"
proof -
  have "n < 32" using assms bit_imp_le_length by fastforce
  then have "w AND NOT (sigmask (Suc n)) \<noteq> w"
    using assms by (auto simp: bit_eq_iff bit_and_iff bit_not_iff bit_sigmask)
  moreover have "w AND NOT (sigmask (Suc n)) \<le> w" by (rule word_and_le2)
  ultimately show ?thesis by (simp add: word_less_nat_alt [symmetric])
qed

lemma looks_clear: "looks us p k \<Longrightarrow> looks us p (sig_clear p s k)"
  by (auto simp: looks_def sig_ok_upd bit_and_iff)

lemma droppable_clear: "droppable us (procs (sig_clear p s k) p) t = droppable us (procs k p) t"
  by (simp add: droppable_def)

text \<open>Skipping a droppable signal.\<close>

lemma issig_good_skip:
  assumes g: "issig_good us p k1 r" and k1: "k1 = sig_clear p s k"
    and s: "deliverable k p s" "s \<le> 32" and d: "droppable us (procs k p) s"
  shows "issig_good us p k r"
proof -
  have pend: "cur_pending p k1 = cur_pending p k AND NOT (sigmask s)" unfolding k1 by (rule cur_pending_clear)
  have del: "deliverable k1 p t \<longleftrightarrow> deliverable k p t \<and> t \<noteq> s" for t
  proof -
    have "bit (sigmask s) (t - 1) \<longleftrightarrow> t = s" if "1 \<le> t" "t \<le> 32" using that s by (auto simp: bit_sigmask deliverable_def)
    moreover have "t \<le> 32" "t - 1 < 32" if "bit (cur_pending p k) (t - 1)"
      using bit_imp_le_length [OF that] by simp_all
    ultimately show ?thesis using s(1) unfolding deliverable_def pend by (auto simp: bit_and_iff bit_not_iff)
  qed
  have dr: "droppable us (procs k1 p) t = droppable us (procs k p) t" for t by (simp add: k1 droppable_def)
  have all: "droppable us (procs k p) t"
    if "deliverable k p t" "t \<noteq> s \<longrightarrow> deliverable k1 p t \<longrightarrow> droppable us (procs k p) t" for t
    using that d del [of t] by blast
  show ?thesis
  proof (cases r)
    case (ISig n k')
    then show ?thesis using g del dr all by (cases "n = 0") (simp_all, blast)
  next
    case (IStop n k')
    then show ?thesis using g del dr all by (simp, blast)
  qed (use g in simp)
qed

lemma issignal_act_good:
  assumes l: "looks us p k" and s: "deliverable k p s" "s < NSIG" "\<forall>t < s. \<not> deliverable k p t"
  shows "case issignal_act us p s k of None \<Rightarrow> droppable us (procs k p) s
    | Some r \<Rightarrow> \<exists>out. r = Some (Inr out) \<and> issig_good us p k out"
proof -
  note L = l[unfolded looks_def]
  obtain q where q: "p_pptr (procs k p) = Some q" "q \<noteq> p" using L by blast
  have low: "\<forall>t < s. deliverable k p t \<longrightarrow> droppable us (procs k p) t" using s(3) by blast
  show ?thesis
  proof (cases "u_signal us s = SIG_DFL \<and> SA_STOP \<in> sigprop s \<and> \<not> (p_pptr (procs k p) = Some 1 \<and> SA_TTYSTOP \<in> sigprop s)")
    case False
    have tty: "SA_TTYSTOP \<in> sigprop s \<Longrightarrow> SA_STOP \<in> sigprop s"
      using s(2) by (auto simp: NSIG_def sigprop_def sigprop_table_def less_Suc_eq numeral_eq_Suc)
    have e: "\<not> p_pid (procs k p) \<le> 1" "P_TRACED \<notin> p_flag (procs k p)" "sig_ok k" using L by auto
    have s0: "s \<noteq> 0" using s(1) by (auto simp: deliverable_def)
    consider "u_signal us s = SIG_DFL" "SA_STOP \<in> sigprop s" | "u_signal us s = SIG_DFL" "SA_STOP \<notin> sigprop s" "SA_IGNORE \<in> sigprop s"
      | "u_signal us s = SIG_DFL" "SA_STOP \<notin> sigprop s" "SA_IGNORE \<notin> sigprop s" | "u_signal us s = SIG_IGN"
      | "u_signal us s \<noteq> SIG_DFL" "u_signal us s \<noteq> SIG_IGN" by blast
    then show ?thesis
      by cases (use False e s0 s low tty in \<open>simp_all add: issignal_act_def Let_def droppable_def, blast?\<close>)
  next
    case True
    define k1 where "k1 = updproc p (\<lambda>x. x\<lparr>p_ptracesig := int s\<rparr>) k"
    have ok1: "sig_ok k1" using L by (simp add: k1_def sig_ok_upd)
    have np: "p \<notin> sleepers (a_runout k1) k1"
      using L sig_okD(1) [of k] by (auto simp: k1_def sleepers_def sched_ok_def)
    obtain k2 where k2: "(if P_NOCLDSTOP \<notin> p_flag (procs k1 q) then psignal q SIGCHLD k1 else Some (Inr k1)) = Some (Inr k2)"
      "sig_ok k2" "p \<notin> set (qs k2)"
    proof (cases "P_NOCLDSTOP \<in> p_flag (procs k1 q)")
      case True
      then show ?thesis using ok1 L by (intro that [of k1]) (auto simp: k1_def)
    next
      case False
      have "sig_done q k1 (psignal q SIGCHLD k1)"
        by (rule psignal_plain [OF ok1]) (simp add: sigprop_def sigprop_table_def)
      then show ?thesis using False q(2) np L that unfolding sig_done_def by (auto simp: k1_def)
    qed
    obtain k3 where "stop p k2 = Some (Inr k3)" "sig_ok k3" "p_stat (procs k3 p) = SSTOP"
      using stop_ok [OF k2(2,3)] by (elim exE conjE) (rule that)
    moreover have "issignal_act us p s k = Some (map_option (map_sum id (IStop s)) (stop p k2))"
      using True L q(1) k2(1) unfolding issignal_act_def Let_def k1_def [symmetric] by auto
    ultimately show ?thesis using True s low by simp
  qed
qed

lemma issignal_good:
  "looks us p k \<Longrightarrow> \<exists>out. issignal us p k = Some (Inr out) \<and> issig_good us p k out"
proof (induction "unat (p_sig (procs k p))" arbitrary: k rule: less_induct)
  case less
  note L = less.prems[unfolded looks_def]
  show ?case
  proof (cases "cur_pending p k = 0")
    case True
    then have "issignal us p k = Some (Inr (ISig 0 k))" by (subst issignal.simps) (simp add: Let_def)
    then show ?thesis using True L by (simp add: deliverable_def)
  next
    case False
    obtain j where j: "ffs (cur_pending p k) = Suc j" "j < 32" "bit (cur_pending p k) j" "\<forall>i<j. \<not> bit (cur_pending p k) i"
      by (rule ffs_lowest [OF False])
    define s where "s = Suc j"
    have pj: "bit (p_sig (procs k p)) j" using cur_pending_subset [OF j(3)] .
    have "j \<noteq> 31" using L pj by metis
    then have s: "s < NSIG" "deliverable k p s" "\<forall>t < s. \<not> deliverable k p t"
      using j by (auto simp: s_def NSIG_def deliverable_def)
    define k1 where "k1 = sig_clear p s k"
    have "unat (p_sig (procs k1 p)) < unat (p_sig (procs k p))"
      using unat_clear_less [OF pj] by (simp add: k1_def s_def)
    moreover have "looks us p k1" unfolding k1_def by (rule looks_clear [OF less.prems])
    ultimately obtain o1 where o1: "issignal us p k1 = Some (Inr o1)" "issig_good us p k1 o1"
      using less.hyps [of k1] by blast
    have skip: "issig_good us p k o1" if "droppable us (procs k p) s"
      using issig_good_skip [OF o1(2) k1_def s(2) _ that] s(1) by (simp add: NSIG_def)
    have m: "sigmask s AND p_sigignore (procs k p) \<noteq> 0 \<longleftrightarrow> ignores (procs k p) s"
      using s(1) by (intro and_sigmask) (simp add: NSIG_def)
    have nt: "P_TRACED \<notin> p_flag (procs k p)" using L by blast
    have fs: "ffs (cur_pending p k) = s" using j(1) by (simp add: s_def)
    have eq: "issignal us p k = (if ignores (procs k p) s then issignal us p k1
        else case issignal_act us p s k of None \<Rightarrow> issignal us p k1 | Some r \<Rightarrow> r)"
      unfolding issignal.simps [of us p k] Let_def fs k1_def [symmetric] using nt False m by simp
    show ?thesis
    proof (cases "ignores (procs k p) s")
      case True
      have dk: "disp_ok us k" "p = u_procp k" using L by auto
      then have "droppable us (procs k p) s"
        using True s(1,2) unfolding disp_ok_def Let_def droppable_def deliverable_def by blast
      then show ?thesis using skip o1(1) True eq by simp
    next
      case False
      from issignal_act_good [OF less.prems s(2,1,3)] show ?thesis
        using skip o1(1) False eq by (auto split: option.splits)
    qed
  qed
qed

section \<open>Who is signalled\<close>

lemma inferior_cong1:
  assumes r: "inferior k p = Some b"
    and same: "\<And>q. p_ppid (procs k' q) = p_ppid (procs k q) \<and> p_pptr (procs k' q) = p_pptr (procs k q)" "u_procp k' = u_procp k"
  shows "inferior k' p = Some b"
proof -
  have "\<forall>k'. (\<forall>q. p_ppid (procs k' q) = p_ppid (procs k q) \<and> p_pptr (procs k' q) = p_pptr (procs k q)) \<longrightarrow>
      u_procp k' = u_procp k \<longrightarrow> inferior k' p = Some b"
  proof (rule inferior.raw_induct [where P = "\<lambda>k p b. \<forall>k'. (\<forall>q. p_ppid (procs k' q) = p_ppid (procs k q) \<and>
      p_pptr (procs k' q) = p_pptr (procs k q)) \<longrightarrow> u_procp k' = u_procp k \<longrightarrow> inferior k' p = Some b", OF _ r], goal_cases)
    case (1 inf k p y)
    show ?case
    proof (intro allI impI)
      fix k' :: kern
      assume s: "\<forall>q. p_ppid (procs k' q) = p_ppid (procs k q) \<and> p_pptr (procs k' q) = p_pptr (procs k q)"
        "u_procp k' = u_procp k"
      then show "inferior k' p = Some y"
        using 1 by (subst inferior.simps) (auto split: if_splits option.splits)
    qed
  qed
  then show ?thesis using same by blast
qed

text \<open>The processes that \<^verbatim>\<open>killpg1\<close> considers, and a signal to each of a list.\<close>

definition kill_target :: "int \<Rightarrow> bool \<Rightarrow> kern \<Rightarrow> nat \<Rightarrow> bool" where
  "kill_target pgrp alle k p \<longleftrightarrow> (alle \<or> p_pgrp (procs k p) = pgrp) \<and> p_ppid (procs k p) \<noteq> 0 \<and>
     SSYS \<notin> p_flag (procs k p) \<and> \<not> (alle \<and> p = u_procp k)"

fun psignals :: "nat list \<Rightarrow> nat \<Rightarrow> kern \<Rightarrow> kern kres option" where
  "psignals [] sig k = Some (Inr k)"
| "psignals (p # ps) sig k =
     (case (if sig \<noteq> 0 then psignal p sig k else Some (Inr k)) of Some (Inr k1) \<Rightarrow> psignals ps sig k1 | r \<Rightarrow> r)"

definition kinship :: "kern \<Rightarrow> bool" where
  "kinship k \<longleftrightarrow> (\<forall>p\<in>set (allproc k). \<exists>b. inferior k p = Some (Inr b))"

abbreviation permitted :: "(nat \<Rightarrow> int) \<Rightarrow> usig \<Rightarrow> nat \<Rightarrow> kern \<Rightarrow> nat \<Rightarrow> bool" where
  "permitted ruid us sig k p \<equiv> cansignal ruid us p sig k = Some (Inr True)"

lemma pwhoD:
  assumes "pwho x = pwho y"
  shows "p_pptr x = p_pptr y" "p_uid x = p_uid y" "p_ppid x = p_ppid y" "p_pgrp x = p_pgrp y"
    "SSYS \<in> p_flag x \<longleftrightarrow> SSYS \<in> p_flag y"
  using assms unfolding pwho_def by auto

lemma cansignal_cases:
  assumes kin: "kinship k" and f: "sig_frame k k1" and p: "p \<in> set (allproc k)"
  shows "cansignal ruid us p sig k1 = cansignal ruid us p sig k"
    "cansignal ruid us p sig k = Some (Inr True) \<or> cansignal ruid us p sig k = Some (Inr False)"
proof -
  obtain b where b: "inferior k p = Some (Inr b)" using kin p by (auto simp: kinship_def)
  have w: "pwho (procs k1 q) = pwho (procs k q)" for q using f by (simp add: sig_frame_def)
  have u: "u_procp k1 = u_procp k" using f by (simp add: sig_frame_def kframe_def)
  have "inferior k1 p = Some (Inr b)" by (rule inferior_cong1 [OF b]) (use pwhoD [OF w] u in auto)
  then show "cansignal ruid us p sig k1 = cansignal ruid us p sig k"
    using b pwhoD [OF w] u by (simp add: cansignal_def uid_of_def Let_def)
  show "cansignal ruid us p sig k = Some (Inr True) \<or> cansignal ruid us p sig k = Some (Inr False)"
    using b by (cases b) (simp_all add: cansignal_def Let_def)
qed

lemma killpg1_loop_signals:
  assumes kin: "kinship k" and sig: "sig < NSIG" and sub: "set ps \<subseteq> set (allproc k)"
    and ok: "sig_ok k1" and f: "sig_frame k k1"
  shows "\<exists>k'. killpg1_loop ruid us sig pgrp alle ps n e k1 =
      Some (Inr (n + length (filter (permitted ruid us sig k) (filter (kill_target pgrp alle k) ps)),
        if \<not> alle \<and> (\<exists>p\<in>set ps. kill_target pgrp alle k p \<and> \<not> permitted ruid us sig k p) then EPERM else e, k')) \<and>
    psignals (filter (permitted ruid us sig k) (filter (kill_target pgrp alle k) ps)) sig k1 = Some (Inr k') \<and>
    sig_ok k' \<and> sig_frame k k'"
  using sub ok f
proof (induction ps arbitrary: n e k1)
  case (Cons p ps)
  have w: "pwho (procs k1 p) = pwho (procs k p)" and u: "u_procp k1 = u_procp k"
    using Cons.prems(3) by (simp_all add: sig_frame_def kframe_def)
  note c = cansignal_cases [OF kin Cons.prems(3), of p ruid us sig]
  have mem: "p \<in> set (allproc k)" "set ps \<subseteq> set (allproc k)" using Cons.prems(1) by auto
  note IH = Cons.IH [OF mem(2)]
  have skip: "(p_pgrp (procs k1 p) \<noteq> pgrp \<and> \<not> alle) \<or> p_ppid (procs k1 p) = 0 \<or> SSYS \<in> p_flag (procs k1 p) \<or>
      (alle \<and> p = u_procp k1) \<longleftrightarrow> \<not> kill_target pgrp alle k p"
    using pwhoD [OF w] u by (auto simp: kill_target_def)
  show ?case
  proof (cases "kill_target pgrp alle k p")
    case False
    have "killpg1_loop ruid us sig pgrp alle (p # ps) n e k1 = killpg1_loop ruid us sig pgrp alle ps n e k1"
      unfolding killpg1_loop.simps Let_def skip using False by simp
    then show ?thesis using IH [OF Cons.prems(2,3), of n e] False by simp
  next
    case T: True
    show ?thesis
    proof (cases "permitted ruid us sig k p")
      case False
      then have "cansignal ruid us p sig k1 = Some (Inr False)" using c(1,2) mem by auto
      then have "killpg1_loop ruid us sig pgrp alle (p # ps) n e k1 =
          killpg1_loop ruid us sig pgrp alle ps n (if \<not> alle then EPERM else e) k1"
        unfolding killpg1_loop.simps Let_def skip using T by simp
      then show ?thesis using IH [OF Cons.prems(2,3), of n "if \<not> alle then EPERM else e"] T False by auto
    next
      case True
      have cs: "cansignal ruid us p sig k1 = Some (Inr True)" using c(1) mem True by simp
      obtain k2 where k2: "(if sig \<noteq> 0 then psignal p sig k1 else Some (Inr k1)) = Some (Inr k2)" "sig_ok k2" "sig_frame k1 k2"
      proof (cases "sig = 0")
        case True
        then show ?thesis using Cons.prems(2) by (intro that [of k1]) auto
      next
        case False
        then show ?thesis using psignal_ok [OF Cons.prems(2) sig, of p] that by auto
      qed
      have "killpg1_loop ruid us sig pgrp alle (p # ps) n e k1 = killpg1_loop ruid us sig pgrp alle ps (n + 1) e k2"
        unfolding killpg1_loop.simps Let_def skip cs k2(1) using T by simp
      moreover have "psignals (p # qs) sig k1 = psignals qs sig k2" for qs
        unfolding psignals.simps k2(1) by simp
      ultimately show ?thesis
        using T True IH [OF k2(2) sig_frame_trans [OF Cons.prems(3) k2(3)], of "n + 1" e] by (simp del: psignals.simps)
    qed
  qed
qed simp

section \<open>Process 0\<close>

lemma siginit_loop:
  "n \<le> 32 \<Longrightarrow> \<exists>w. fold (\<lambda>i k. if SA_IGNORE \<in> sigprop i \<and> i \<noteq> SIGCONT
                 then updproc p (\<lambda>x. x\<lparr>p_sigignore := p_sigignore x OR sigmask i\<rparr>) k else k) [0..<n] k =
      updproc p (\<lambda>x. x\<lparr>p_sigignore := w\<rparr>) k \<and>
    (\<forall>j. bit w j \<longleftrightarrow> bit (p_sigignore (procs k p)) j \<or> (\<exists>i<n. SA_IGNORE \<in> sigprop i \<and> i \<noteq> SIGCONT \<and> j = i - 1))"
proof (induction n)
  case 0
  then show ?case by (intro exI [of _ "p_sigignore (procs k p)"]) simp
next
  case (Suc n)
  have n32: "n \<le> 32" using Suc.prems by simp
  obtain w where w: "fold (\<lambda>i k. if SA_IGNORE \<in> sigprop i \<and> i \<noteq> SIGCONT
                 then updproc p (\<lambda>x. x\<lparr>p_sigignore := p_sigignore x OR sigmask i\<rparr>) k else k) [0..<n] k =
      updproc p (\<lambda>x. x\<lparr>p_sigignore := w\<rparr>) k"
    "\<forall>j. bit w j \<longleftrightarrow> bit (p_sigignore (procs k p)) j \<or> (\<exists>i<n. SA_IGNORE \<in> sigprop i \<and> i \<noteq> SIGCONT \<and> j = i - 1)"
    using Suc.IH [OF n32] by (elim exE conjE) (rule that)
  have n: "n - 1 < 32" using Suc.prems by simp
  show ?case
  proof (cases "SA_IGNORE \<in> sigprop n \<and> n \<noteq> SIGCONT")
    case True
    then show ?thesis using w n
      by (intro exI [of _ "w OR sigmask n"]) (auto simp: bit_or_iff bit_sigmask less_Suc_eq fun_upd_same simp del: fun_upd_apply)
  next
    case False
    then show ?thesis using w by (intro exI [of _ w]) (auto simp: less_Suc_eq simp del: fun_upd_apply)
  qed
qed

lemma siginit_eq: "\<exists>w. siginit p k = updproc p (\<lambda>x. x\<lparr>p_sigignore := w\<rparr>) k"
  using siginit_loop [of NSIG p k] unfolding siginit_def NSIG_def by blast

text \<open>\<^verbatim>\<open>siginit\<close> establishes the agreement for a process without handlers.\<close>

lemma siginit_ok:
  assumes p: "u_procp k = p" "p_sigcatch (procs k p) = 0" "p_sigignore (procs k p) = 0" "p_sigmask (procs k p) = 0"
    and us: "u_signal us = (\<lambda>_. SIG_DFL)" "u_sigmask us = (\<lambda>_. 0)" "u_oldmask us = 0"
  shows "disp_ok us (siginit p k)" "sig_ok (siginit p k) = sig_ok k"
proof -
  obtain w where w: "siginit p k = updproc p (\<lambda>x. x\<lparr>p_sigignore := w\<rparr>) k"
    "\<forall>j. bit w j \<longleftrightarrow> (\<exists>i<NSIG. SA_IGNORE \<in> sigprop i \<and> i \<noteq> SIGCONT \<and> j = i - 1)"
    using siginit_loop [of NSIG p k] p(3) by (auto simp: siginit_def NSIG_def)
  have "SA_IGNORE \<notin> sigprop 0" by (simp add: sigprop_def sigprop_table_def)
  then have "bit w (s - 1) \<longleftrightarrow> s \<noteq> SIGCONT \<and> SA_IGNORE \<in> sigprop s" if "1 \<le> s" "s < NSIG" for s
    using w(2) that by (metis (no_types, lifting) diff_Suc_1 le_add_diff_inverse not_less_eq_eq not_one_le_zero One_nat_def gr0I Suc_pred)
  then show "disp_ok us (siginit p k)"
    using p us unfolding disp_ok_def Let_def w(1) by simp
  show "sig_ok (siginit p k) = sig_ok k" unfolding w(1) by (simp add: sig_ok_upd)
qed

section \<open>Properties\<close>

fun sig_run :: "sigcall list \<Rightarrow> usig \<times> kern \<Rightarrow> (usig \<times> kern) kres option" where
  "sig_run [] st = Some (Inr st)"
| "sig_run (c # cs) st = (case sig_step c st of Some (Inr st1) \<Rightarrow> sig_run cs st1 | r \<Rightarrow> r)"

text \<open>
  C22. Dispositions. After any sequence of signal calls by the running process (sigaction,
  sigprocmask, sigpending, sigsuspend, sigaltstack, sigstack, sigwait, delivery by postsig,
  fatalsig, sigreturn) and of signals posted to any process, with any data from user space, no
  step has panicked, faulted or failed to return; the catch and ignore masks agree with the
  handlers, the queues are intact, and SIGKILL and SIGSTOP are not caught, ignored or blocked.
\<close>

theorem signal_calls_keep_dispositions:
  assumes "sig_ok k" "disp_ok us k" "\<forall>c\<in>set cs. sig_valid c"
  shows "\<exists>us' k'. sig_run cs (us, k) = Some (Inr (us', k')) \<and> sig_ok k' \<and> disp_ok us' k' \<and>
    (\<forall>s\<in>{SIGKILL, SIGSTOP}. \<not> catches (procs k' (u_procp k')) s \<and> \<not> ignores (procs k' (u_procp k')) s \<and>
       \<not> blocks (procs k' (u_procp k')) s)"
  using assms
proof (induction cs arbitrary: us k)
  case Nil
  then have d: "disp_ok us k" by simp
  have "\<not> bit (p_sigmask (procs k (u_procp k))) 8" "\<not> bit (p_sigmask (procs k (u_procp k))) 16"
    using d by (simp_all add: disp_ok_def Let_def cant_iff)
  moreover have "SA_IGNORE \<notin> sigprop 9" "SA_IGNORE \<notin> sigprop 17" by (simp_all add: sigprop_def sigprop_table_def)
  moreover have at: "\<forall>s. 1 \<le> s \<and> s < NSIG \<longrightarrow>
     (catches (procs k (u_procp k)) s \<longleftrightarrow> u_signal us s \<noteq> SIG_DFL \<and> u_signal us s \<noteq> SIG_IGN) \<and>
     (ignores (procs k (u_procp k)) s \<longleftrightarrow> s \<noteq> SIGCONT \<and>
        (u_signal us s = SIG_IGN \<or> u_signal us s = SIG_DFL \<and> SA_IGNORE \<in> sigprop s))"
    and "u_signal us 9 = 0" "u_signal us 17 = 0" using d by (simp_all add: disp_ok_def Let_def)
  ultimately have "\<forall>s\<in>{9, 17}. \<not> catches (procs k (u_procp k)) s \<and> \<not> ignores (procs k (u_procp k)) s \<and>
      \<not> blocks (procs k (u_procp k)) s"
    using at [rule_format, of 9] at [rule_format, of 17] by (simp add: NSIG_def)
  then show ?case using Nil by simp
next
  case (Cons c cs)
  obtain us1 k1 where "sig_step c (us, k) = Some (Inr (us1, k1))" "sig_ok k1" "disp_ok us1 k1"
    using sig_step_keeps [OF Cons.prems(1,2), of c] Cons.prems(3) by auto
  then show ?case using Cons.IH [of k1 us1] Cons.prems(3) by simp
qed

text \<open>
  The demonstration process is loaded and asleep interruptibly, with process 1 as its parent.
\<close>

definition demo_sig :: kern where
  "demo_sig = (let k = demo_kern 7 7 7 in
     k\<lparr>procs := (\<lambda>_. (demo_proc 0 0)\<lparr>p_pptr := None\<rparr>)(1 := demo_proc 1 1,
         2 := (demo_proc 7 7)\<lparr>p_stat := SSLEEP, p_wchan := 4096, p_flag := {SLOAD, P_SINTR}, p_ppid := 1, p_pptr := Some 1\<rparr>),
       slpque := (\<lambda>_. [])(0 := [2]), u_procp := 1\<rparr>)"

lemma demo_sig_fields [simp]:
  "slpque demo_sig = (\<lambda>_. [])(0 := [2])" "qs demo_sig = []" "u_procp demo_sig = 1" "allproc demo_sig = [2, 1, 0]"
  "procs demo_sig = (\<lambda>_. (demo_proc 0 0)\<lparr>p_pptr := None\<rparr>)(1 := demo_proc 1 1,
         2 := (demo_proc 7 7)\<lparr>p_stat := SSLEEP, p_wchan := 4096, p_flag := {SLOAD, P_SINTR}, p_ppid := 1, p_pptr := Some 1\<rparr>)"
  "a_runout demo_sig = 1088"
  by (simp_all add: demo_sig_def Let_def demo_kern_def)

lemma demo_sig_ok: "sig_ok demo_sig"
  by (auto simp: sig_ok_def sched_ok_def sleepers_def demo_proc_def)

definition demo_disp :: usig where
  "demo_disp = demo_usig\<lparr>u_signal := (\<lambda>_. 0)\<rparr>"

lemma demo_siginit: "disp_ok demo_disp (siginit 1 demo_sig)" "sig_ok (siginit 1 demo_sig)"
  using siginit_ok [of demo_sig 1 demo_disp] demo_sig_ok
  by (simp_all add: demo_disp_def demo_usig_def demo_proc_def)

theorem signal_calls_keep_dispositions_witness:
  "\<exists>us' k'. sig_run [S_sigprocmask 1 (Some (Inr (- 1))) None, S_psignal 2 15] (demo_disp, siginit 1 demo_sig) = Some (Inr (us', k')) \<and>
     disp_ok us' k'"
  using signal_calls_keep_dispositions [OF demo_siginit(2,1), of "[S_sigprocmask 1 (Some (Inr (- 1))) None, S_psignal 2 15]"]
  by (auto simp: NSIG_def)

text \<open>
  C23. Posting. \<^verbatim>\<open>psignal\<close> always returns, keeps the queues and touches no identity, mask or
  disposition of any process. For a process that is not traced: an ignored signal changes nothing at all;
  a blocked one becomes pending and does not change the state (but \<^verbatim>\<open>SIGCONT\<close> of a stopped process);
  a signal that is not a stop or continue signal makes an interruptible sleeper runnable, and
  \<^verbatim>\<open>SIGKILL\<close> a stopped process too; \<^verbatim>\<open>SIGCONT\<close> ends a stop and cancels pending stop
  signals; a stop signal with default action stops an interruptible sleeper and cancels a pending
  \<^verbatim>\<open>SIGCONT\<close>.
\<close>

theorem psignal_outcome:
  assumes ok: "sig_ok k" and sig: "1 \<le> sig" "sig < NSIG" and nt: "P_TRACED \<notin> p_flag (procs k p)"
  shows "\<exists>k'. psignal p sig k = Some (Inr k') \<and> sig_ok k' \<and> sig_frame k k' \<and>
    (ignores (procs k p) sig \<longrightarrow> k' = k) \<and>
    (\<not> ignores (procs k p) sig \<and> blocks (procs k p) sig \<and> \<not> (sig = SIGCONT \<and> p_stat (procs k p) = SSTOP) \<longrightarrow>
       p_stat (procs k' p) = p_stat (procs k p) \<and> pending (procs k' p) sig) \<and>
    (\<not> ignores (procs k p) sig \<and> \<not> blocks (procs k p) sig \<and> sig \<notin> {SIGSTOP, SIGTSTP, SIGTTIN, SIGTTOU, SIGCONT} \<and>
       (p_stat (procs k p) = SSLEEP \<and> P_SINTR \<in> p_flag (procs k p) \<or> p_stat (procs k p) = SSTOP \<and> sig = SIGKILL) \<longrightarrow>
       p_stat (procs k' p) = SRUN \<and> pending (procs k' p) sig \<and> (SLOAD \<in> p_flag (procs k p) \<longrightarrow> p \<in> set (qs k'))) \<and>
    (\<not> ignores (procs k p) sig \<and> sig = SIGCONT \<and> p_stat (procs k p) = SSTOP \<longrightarrow>
       p_stat (procs k' p) \<noteq> SSTOP \<and> p_sig (procs k' p) AND stopsigmask = 0) \<and>
    (\<not> ignores (procs k p) sig \<and> \<not> blocks (procs k p) sig \<and> \<not> catches (procs k p) sig \<and>
       sig \<in> {SIGSTOP, SIGTSTP, SIGTTIN, SIGTTOU} \<and> (sig = SIGSTOP \<or> p_pptr (procs k p) \<noteq> Some 1) \<and>
       p_stat (procs k p) = SSLEEP \<and> P_SINTR \<in> p_flag (procs k p) \<and> SVFORK \<notin> p_flag (procs k p) \<longrightarrow>
       p_stat (procs k' p) = SSTOP \<and> \<not> pending (procs k' p) sig \<and> \<not> pending (procs k' p) SIGCONT)"
proof -
  obtain k' where k': "psignal p sig k = Some (Inr k')" "sig_ok k'" "sig_frame k k'"
    using psignal_ok [OF ok sig(2)] by blast
  have m: "sig \<le> 32" using sig by (simp add: NSIG_def)
  have st: "SA_STOP \<in> sigprop sig \<longleftrightarrow> sig \<in> {SIGSTOP, SIGTSTP, SIGTTIN, SIGTTOU}" using sigprop_disjoint(2) [OF sig(2)] .
  have ign: "k' = k" if "ignores (procs k p) sig"
  proof -
    have "psignal_post p sig k = (None, k)"
      using that nt and_sigmask(1) [OF m, of "p_sigignore (procs k p)"] by (simp add: psignal_post_def Let_def)
    then show ?thesis using k'(1) by (simp add: psignal.simps)
  qed
  have held: "p_stat (procs k' p) = p_stat (procs k p) \<and> pending (procs k' p) sig"
    if h: "\<not> ignores (procs k p) sig" "blocks (procs k p) sig" "\<not> (sig = SIGCONT \<and> p_stat (procs k p) = SSTOP)"
  proof -
    have a: "sig_action (procs k p) sig = A_HOLD"
      using h(2) nt and_sigmask(1) [OF m, of "p_sigmask (procs k p)"] by (simp add: sig_action_def)
    obtain k1 where po: "psignal_post p sig k = (if sig_action (procs k p) sig = A_HOLD \<and> \<not> (sig = SIGCONT \<and> p_stat (procs k p) = SSTOP)
      then None else Some (sig_action (procs k p) sig), k1)" "pending (procs k1 p) sig"
      by (rule psignal_post_result [OF sig nt h(1)]) (use a in auto)
    then have "psignal_post p sig k = (None, k1)" using a h(3) by simp
    moreover from this have "k' = k1" using k'(1) by (simp add: psignal.simps)
    ultimately show ?thesis using psignal_post_effect(2) po(2) by blast
  qed
  show ?thesis
  proof (intro exI [of _ k'] conjI impI k'(1-3), goal_cases)
    case 1 then show ?case by (rule ign)
  next
    case 2 then show ?case using held by blast
  next
    case 3 then show ?case using held by blast
  qed (use psignal_wakes [OF ok sig _ _ nt _ _ _ k'(1)] psignal_continues [OF ok nt _ _ ] psignal_stops [OF ok sig _ nt _ _ _ _ _ _ _ k'(1)] st k'(1) in \<open>auto\<close>)
qed

theorem psignal_outcome_witness:
  "\<exists>k'. psignal 2 SIGKILL demo_sig = Some (Inr k') \<and> p_stat (procs k' 2) = SRUN \<and> 2 \<in> set (qs k')"
  using psignal_outcome [OF demo_sig_ok, of SIGKILL 2] by (auto simp: NSIG_def demo_proc_def)

text \<open>
  C24. Taking a signal. For an untraced process other than init that looks for a signal, \<^verbatim>\<open>issignal\<close>
  returns. It answers with the lowest pending unblocked signal that is caught or whose default action ends
  the process, all lower ones being signals without an effect; or stops the process when the first
  effective signal is a stop signal with default action; or answers 0, and then no unblocked signal
  is pending any more.
\<close>

theorem issignal_takes_lowest:
  assumes "looks us p k"
  shows "\<exists>out. issignal us p k = Some (Inr out) \<and>
    (case out of
       ISig s k' \<Rightarrow> sig_ok k' \<and>
         (if s = 0 then cur_pending p k' = 0 \<and> (\<forall>t. deliverable k p t \<longrightarrow> droppable us (procs k p) t)
          else deliverable k p s \<and> \<not> droppable us (procs k p) s \<and>
            (u_signal us s = SIG_DFL \<longrightarrow> SA_STOP \<notin> sigprop s) \<and>
            (\<forall>t < s. deliverable k p t \<longrightarrow> droppable us (procs k p) t))
     | IStop s k' \<Rightarrow> sig_ok k' \<and> p_stat (procs k' p) = SSTOP \<and> deliverable k p s \<and> u_signal us s = SIG_DFL \<and>
         SA_STOP \<in> sigprop s \<and> (\<forall>t < s. deliverable k p t \<longrightarrow> droppable us (procs k p) t)
     | ITrace s k' \<Rightarrow> False)"
proof -
  obtain out where "issignal us p k = Some (Inr out)" "issig_good us p k out"
    using issignal_good [OF assms] by blast
  then show ?thesis by (cases out) auto
qed

text \<open>
  C25. Permission. A signal to a process group, or to everyone, goes to exactly those processes of
  the selection that the sender may signal, in the order of the process list; system processes
  and children of process 0 are never selected. The error is EPERM if a selected process of a group may not be signalled
  (also when others have been), otherwise ESRCH if none was found.
\<close>

theorem killpg1_signals_permitted:
  assumes ok: "sig_ok k" and kin: "kinship k" and sig: "sig < NSIG"
    and grp: "pgrp \<noteq> 0 \<or> alle"
  defines "ts \<equiv> filter (kill_target pgrp alle k) (allproc k)"
  shows "\<exists>k' e. killpg1 ruid us sig pgrp alle k = Some (Inr (e, k')) \<and>
    psignals (filter (permitted ruid us sig k) ts) sig k = Some (Inr k') \<and> sig_ok k' \<and>
    (\<forall>q. pwho (procs k' q) = pwho (procs k q)) \<and>
    e = (if \<not> alle \<and> (\<exists>p\<in>set ts. \<not> permitted ruid us sig k p) then EPERM
         else if \<forall>p\<in>set ts. \<not> permitted ruid us sig k p then ESRCH else 0)"
proof -
  obtain k' where k': "killpg1_loop ruid us sig pgrp alle (allproc k) 0 0 k =
      Some (Inr (0 + length (filter (permitted ruid us sig k) ts),
        if \<not> alle \<and> (\<exists>p\<in>set (allproc k). kill_target pgrp alle k p \<and> \<not> permitted ruid us sig k p) then EPERM else 0, k'))"
    "psignals (filter (permitted ruid us sig k) ts) sig k = Some (Inr k')" "sig_ok k'" "sig_frame k k'"
    using killpg1_loop_signals [OF kin sig subset_refl ok sig_frame_refl, of ruid us pgrp alle 0 0, folded ts_def]
    by (elim exE conjE) (rule that)
  have ex: "(\<exists>p\<in>set (allproc k). kill_target pgrp alle k p \<and> \<not> permitted ruid us sig k p) \<longleftrightarrow> (\<exists>p\<in>set ts. \<not> permitted ruid us sig k p)"
    by (auto simp: ts_def)
  have len: "length (filter (permitted ruid us sig k) ts) = 0 \<longleftrightarrow> (\<forall>p\<in>set ts. \<not> permitted ruid us sig k p)"
    by (simp add: filter_empty_conv)
  have "killpg1 ruid us sig pgrp alle k = map_option (\<lambda>r. kbind r (\<lambda>(f, error, k1).
             Inr (if error \<noteq> 0 then error else if f = 0 then ESRCH else 0, k1)))
           (killpg1_loop ruid us sig pgrp alle (allproc k) 0 0 k)"
    using grp by (auto simp: killpg1_def Let_def)
  then have "killpg1 ruid us sig pgrp alle k = Some (Inr (if \<not> alle \<and> (\<exists>p\<in>set ts. \<not> permitted ruid us sig k p) then EPERM
         else if \<forall>p\<in>set ts. \<not> permitted ruid us sig k p then ESRCH else 0, k'))"
    unfolding k'(1) ex len [symmetric] by simp
  then show ?thesis using k'(2-4) by (intro exI [of _ k'] exI conjI) (auto simp: sig_frame_def)
qed

text \<open>The demonstration process runs, with signal 2 pending and no handlers.\<close>

definition demo_look :: kern where
  "demo_look = siginit 2 (updproc 2 (\<lambda>x. x\<lparr>p_sig := 2\<rparr>) (demo_kern 7 7 7))"

lemma demo_looks: "looks demo_disp 2 demo_look"
proof -
  let ?k = "updproc 2 (\<lambda>x. x\<lparr>p_sig := 2\<rparr>) (demo_kern 7 7 7)"
  have ok: "sig_ok ?k" by (auto simp: sig_ok_def sched_ok_def sleepers_def demo_proc_def demo_kern_def Let_def)
  obtain w where w: "siginit 2 ?k = updproc 2 (\<lambda>x. x\<lparr>p_sigignore := w\<rparr>) ?k" using siginit_eq by blast
  have "disp_ok demo_disp (siginit 2 ?k)" "sig_ok (siginit 2 ?k)"
    using siginit_ok [of ?k 2 demo_disp] ok by (simp_all add: demo_disp_def demo_usig_def demo_proc_def)
  moreover have "u_procp (siginit 2 ?k) = 2" "p_flag (procs (siginit 2 ?k) 2) = {SLOAD}" "p_pid (procs (siginit 2 ?k) 2) = 7"
    "p_wchan (procs (siginit 2 ?k) 2) = 0" "qs (siginit 2 ?k) = []" "p_pptr (procs (siginit 2 ?k) 2) = Some 0"
    "p_sig (procs (siginit 2 ?k) 2) = 2"
    unfolding w by (simp_all add: demo_proc_def demo_kern_def Let_def)
  ultimately show ?thesis unfolding looks_def demo_look_def by (simp add: bit_simps)
qed

theorem issignal_takes_lowest_witness:
  "\<exists>k'. issignal demo_disp 2 demo_look = Some (Inr (ISig 2 k'))"
proof -
  obtain w where w: "demo_look = updproc 2 (\<lambda>x. x\<lparr>p_sigignore := w\<rparr>) (updproc 2 (\<lambda>x. x\<lparr>p_sig := 2\<rparr>) (demo_kern 7 7 7))"
    using siginit_eq unfolding demo_look_def by blast
  have "cur_pending 2 demo_look = 2" unfolding cur_pending_def w by (simp add: demo_proc_def Let_def)
  then have del: "deliverable demo_look 2 t \<longleftrightarrow> t = 2" for t by (auto simp: deliverable_def bit_simps)
  have nd: "\<not> droppable demo_disp x 2" and ns: "SA_STOP \<notin> sigprop 2" for x
    by (simp_all add: droppable_def demo_disp_def sigprop_def sigprop_table_def)
  from issignal_takes_lowest [OF demo_looks] show ?thesis
  proof (elim exE conjE, goal_cases)
    case (1 out)
    then show ?case using del nd ns by (cases out) (auto split: if_splits)
  qed
qed

theorem killpg1_signals_permitted_witness:
  "\<exists>k' e. killpg1 (\<lambda>_. 0) demo_disp 15 7 False demo_sig = Some (Inr (e, k')) \<and> e = 0 \<and> sig_ok k'"
proof -
  have kin: "kinship demo_sig"
    unfolding kinship_def by (auto simp: inferior.simps demo_proc_def)
  have perm: "permitted (\<lambda>_. 0) demo_disp 15 demo_sig p" for p
    by (simp add: cansignal_def Let_def demo_proc_def)
  have "filter (kill_target 7 False demo_sig) (allproc demo_sig) = [2]"
    by (simp add: kill_target_def demo_proc_def)
  then show ?thesis using killpg1_signals_permitted [OF demo_sig_ok kin, of 15 7 False "\<lambda>_. 0" demo_disp] perm
    by (auto simp: NSIG_def)
qed

end
