(* ===== verification/Descrip.thy ===== *)
theory Descrip
  imports Proc
begin

text \<open>
  File descriptors (sys/kernel/kern_descrip.c, sys/include/file.h) and \<^verbatim>\<open>copen\<close> of
  sys/kernel/ufs_syscalls.c: the descriptor table of the running process and the system's
  table of open files with its reference counts. A pointer into the file table is its
  index. What the descriptor layer calls below itself is a parameter: the operations of the
  file types (the table \<^verbatim>\<open>Fops\<close>), the inode layer, and \<^verbatim>\<open>pfind\<close>, acting on a device state.
\<close>

section \<open>Model\<close>

definition NOFILE :: nat where
  "NOFILE = 30"

definition NFILE :: nat where
  "NFILE = 24"

record kfile =
  f_flag :: u32
  f_type :: nat
  f_count :: nat
  f_msgcount :: int
  f_data :: u32
  f_offset :: int

abbreviation (input) DTYPE_INODE :: nat where "DTYPE_INODE \<equiv> 1"
abbreviation (input) FREAD :: u32 where "FREAD \<equiv> 1"
abbreviation (input) FWRITE :: u32 where "FWRITE \<equiv> 2"
abbreviation (input) FNONBLOCK :: u32 where "FNONBLOCK \<equiv> 4"
abbreviation (input) FSHLOCK :: u32 where "FSHLOCK \<equiv> 0x10"
abbreviation (input) FEXLOCK :: u32 where "FEXLOCK \<equiv> 0x20"
abbreviation (input) FASYNC :: u32 where "FASYNC \<equiv> 0x40"
abbreviation (input) FCNTLFLAGS :: u32 where "FCNTLFLAGS \<equiv> 0xCC"
abbreviation (input) FMASK :: u32 where "FMASK \<equiv> 0xCF"
abbreviation (input) UF_EXCLOSE :: u8 where "UF_EXCLOSE \<equiv> 1"
abbreviation (input) LOCK_SH :: u32 where "LOCK_SH \<equiv> 1"
abbreviation (input) LOCK_EX :: u32 where "LOCK_EX \<equiv> 2"
abbreviation (input) LOCK_NB :: u32 where "LOCK_NB \<equiv> 4"
abbreviation (input) LOCK_UN :: u32 where "LOCK_UN \<equiv> 8"

definition FFLAGS :: "u32 \<Rightarrow> u32" where
  "FFLAGS oflags = oflags + 1"

definition OFLAGS :: "u32 \<Rightarrow> u32" where
  "OFLAGS fflags = fflags - 1"

text \<open>
  The descriptor part of the user area, the file table and the devices. \<open>fd_error\<close> and
  \<open>fd_rval\<close> are \<^verbatim>\<open>u.u_error\<close> and \<^verbatim>\<open>u.u_rval\<close>.
\<close>

record 'd fdtab =
  u_ofile :: "nat option list"
  u_pofile :: "u8 list"
  u_lastfile :: int
  fd_error :: int
  fd_rval :: int
  u_dupfd :: int
  files :: "kfile list"
  lastf :: "nat option"
  devs :: 'd

datatype ioctl_cmd = FIONBIO | FIOASYNC | TIOCGPGRP | TIOCSPGRP

text \<open>
  \<open>fo_ioctl\<close> gives the error and the value left in the argument, \<open>ino_unlock\<close> and \<open>ino_lock\<close>
  the new flags of the file, \<open>vn_open\<close> the error, the inode and the new \<^verbatim>\<open>u_dupfd\<close> (which the
  driver of /dev/fd sets).
\<close>

record 'd devops =
  fo_ioctl :: "kfile \<Rightarrow> ioctl_cmd \<Rightarrow> int \<Rightarrow> 'd \<Rightarrow> int \<times> int \<times> 'd"
  fo_close :: "kfile \<Rightarrow> 'd \<Rightarrow> int \<times> 'd"
  ino_unlock :: "kfile \<Rightarrow> u32 \<Rightarrow> 'd \<Rightarrow> u32 \<times> 'd"
  ino_lock :: "kfile \<Rightarrow> u32 \<Rightarrow> 'd \<Rightarrow> int \<times> u32 \<times> 'd"
  vn_open :: "u32 \<Rightarrow> u32 \<Rightarrow> string \<Rightarrow> int \<Rightarrow> 'd \<Rightarrow> int \<times> u32 \<times> int \<times> 'd"
  pfind_pgrp :: "int \<Rightarrow> int option"

abbreviation updfile :: "nat \<Rightarrow> (kfile \<Rightarrow> kfile) \<Rightarrow> 'd fdtab \<Rightarrow> 'd fdtab" where
  "updfile f g s \<equiv> s\<lparr>files := (files s)[f := g (files s ! f)]\<rparr>"

definition ufalloc :: "nat \<Rightarrow> 'd fdtab \<Rightarrow> nat option \<times> 'd fdtab" where
  "ufalloc i s =
     (case find (\<lambda>j. u_ofile s ! j = None) [i..<NOFILE] of
        Some j \<Rightarrow> (Some j, s\<lparr>fd_rval := int j, u_pofile := (u_pofile s)[j := 0],
                           u_lastfile := (if int j > u_lastfile s then int j else u_lastfile s)\<rparr>)
      | None \<Rightarrow> (None, s\<lparr>fd_error := EMFILE\<rparr>))"

definition getdtablesize :: "'d fdtab \<Rightarrow> 'd fdtab" where
  "getdtablesize s = s\<lparr>fd_rval := int NOFILE\<rparr>"

definition dupit :: "nat \<Rightarrow> nat \<Rightarrow> u8 \<Rightarrow> 'd fdtab \<Rightarrow> 'd fdtab" where
  "dupit fd fp flags s =
     updfile fp (\<lambda>x. x\<lparr>f_count := f_count x + 1\<rparr>)
       (s\<lparr>u_ofile := (u_ofile s)[fd := Some fp], u_pofile := (u_pofile s)[fd := flags],
          u_lastfile := (if int fd > u_lastfile s then int fd else u_lastfile s)\<rparr>)"

text \<open>\<^verbatim>\<open>getf\<close> and the macro \<^verbatim>\<open>GETF\<close>; a negative descriptor is a large unsigned one.\<close>

definition getf :: "int \<Rightarrow> 'd fdtab \<Rightarrow> nat option" where
  "getf f s = (if f < 0 \<or> f \<ge> int NOFILE then None else u_ofile s ! nat f)"

definition closef :: "'d devops \<Rightarrow> nat option \<Rightarrow> 'd fdtab \<Rightarrow> int \<times> 'd fdtab" where
  "closef ops fp s =
     (case fp of None \<Rightarrow> (0, s)
      | Some f \<Rightarrow>
          if f_count (files s ! f) > 1
          then (0, updfile f (\<lambda>x. x\<lparr>f_count := f_count x - 1\<rparr>) s)
          else
            let x = files s ! f;
                s1 = (if f_flag x AND (FSHLOCK OR FEXLOCK) \<noteq> 0 \<and> f_type x = DTYPE_INODE
                      then case ino_unlock ops x (FSHLOCK OR FEXLOCK) (devs s) of
                             (fl, d) \<Rightarrow> updfile f (\<lambda>x. x\<lparr>f_flag := fl\<rparr>) (s\<lparr>devs := d\<rparr>)
                      else s);
                (e, d) = fo_close ops (files s1 ! f) (devs s1) in
            (e, updfile f (\<lambda>x. x\<lparr>f_count := 0\<rparr>) (s1\<lparr>devs := d\<rparr>)))"

definition dup2 :: "'d devops \<Rightarrow> int \<Rightarrow> int \<Rightarrow> 'd fdtab \<Rightarrow> 'd fdtab" where
  "dup2 ops i j s =
     (case getf i s of None \<Rightarrow> s\<lparr>fd_error := EBADF\<rparr>
      | Some fp \<Rightarrow>
          if j < 0 \<or> j \<ge> int NOFILE then s\<lparr>fd_error := EBADF\<rparr>
          else
            let s1 = s\<lparr>fd_rval := j\<rparr> in
            if i = j then s1
            else
              let s2 = (case u_ofile s1 ! nat j of None \<Rightarrow> s1
                        | Some g \<Rightarrow> snd (closef ops (Some g) s1)) in
              dupit (nat j) fp (u_pofile s2 ! nat i AND NOT UF_EXCLOSE) s2)"

text \<open>
  \<^verbatim>\<open>dup\<close>: with a bit above 077 in its argument it is \<^verbatim>\<open>dup2\<close>, whose second argument is the
  next word of the argument list.
\<close>

definition dup :: "'d devops \<Rightarrow> int \<Rightarrow> int \<Rightarrow> 'd fdtab \<Rightarrow> 'd fdtab" where
  "dup ops i j s =
     (if i < 0 \<or> i \<ge> 64 then dup2 ops (i mod 64) j s
      else case getf i s of None \<Rightarrow> s\<lparr>fd_error := EBADF\<rparr>
      | Some fp \<Rightarrow>
          (case ufalloc 0 s of
             (None, s1) \<Rightarrow> s1
           | (Some k, s1) \<Rightarrow> dupit k fp (u_pofile s1 ! nat i AND NOT UF_EXCLOSE) s1))"

definition fset :: "'d devops \<Rightarrow> nat \<Rightarrow> u32 \<Rightarrow> int \<Rightarrow> 'd fdtab \<Rightarrow> int \<times> 'd fdtab" where
  "fset ops fp b v s =
     (let s1 = updfile fp (\<lambda>x. x\<lparr>f_flag := (if v \<noteq> 0 then f_flag x OR b else f_flag x AND NOT b)\<rparr>) s in
      case fo_ioctl ops (files s1 ! fp) (if b = FNONBLOCK then FIONBIO else FIOASYNC) v (devs s1) of
        (e, v', d) \<Rightarrow> (e, s1\<lparr>devs := d\<rparr>))"

definition fgetown :: "'d devops \<Rightarrow> nat \<Rightarrow> 'd fdtab \<Rightarrow> int \<times> int \<times> 'd fdtab" where
  "fgetown ops fp s =
     (case fo_ioctl ops (files s ! fp) TIOCGPGRP (fd_rval s) (devs s) of
        (e, v, d) \<Rightarrow> (e, - v, s\<lparr>devs := d\<rparr>))"

definition fsetown :: "'d devops \<Rightarrow> nat \<Rightarrow> int \<Rightarrow> 'd fdtab \<Rightarrow> int \<times> 'd fdtab" where
  "fsetown ops fp v s =
     (case (if v > 0 then pfind_pgrp ops v else Some (- v)) of
        None \<Rightarrow> (ESRCH, s)
      | Some g \<Rightarrow>
          (case fo_ioctl ops (files s ! fp) TIOCSPGRP g (devs s) of (e, v', d) \<Rightarrow> (e, s\<lparr>devs := d\<rparr>)))"

definition fcntl :: "'d devops \<Rightarrow> int \<Rightarrow> int \<Rightarrow> int \<Rightarrow> 'd fdtab \<Rightarrow> 'd fdtab" where
  "fcntl ops fdes cmd arg s =
     (case getf fdes s of None \<Rightarrow> s\<lparr>fd_error := EBADF\<rparr>
      | Some fp \<Rightarrow>
          let fd = nat fdes; pop = u_pofile s ! fd in
          if cmd = 0 then
            (if arg < 0 \<or> arg \<ge> int NOFILE then s\<lparr>fd_error := EINVAL\<rparr>
             else case ufalloc (nat arg) s of
                    (None, s1) \<Rightarrow> s1
                  | (Some i, s1) \<Rightarrow> dupit i fp (u_pofile s1 ! fd AND NOT UF_EXCLOSE) s1)
          else if cmd = 1 then s\<lparr>fd_rval := uint (pop AND 1)\<rparr>
          else if cmd = 2 then
            s\<lparr>u_pofile := (u_pofile s)[fd := (pop AND NOT 1) OR (word_of_int arg AND 1)]\<rparr>
          else if cmd = 3 then s\<lparr>fd_rval := sint (OFLAGS (f_flag (files s ! fp)))\<rparr>
          else if cmd = 4 then
            (let s1 = updfile fp (\<lambda>x. x\<lparr>f_flag := f_flag x AND NOT FCNTLFLAGS OR
                        (FFLAGS (word_of_int arg) AND FCNTLFLAGS)\<rparr>) s;
                 (e1, s2) = fset ops fp FNONBLOCK (uint (f_flag (files s1 ! fp) AND FNONBLOCK)) s1;
                 s3 = s2\<lparr>fd_error := e1\<rparr> in
             if e1 \<noteq> 0 then s3
             else
               let (e2, s4) = fset ops fp FASYNC (uint (f_flag (files s3 ! fp) AND FASYNC)) s3;
                   s5 = s4\<lparr>fd_error := e2\<rparr> in
               if e2 \<noteq> 0 then snd (fset ops fp FNONBLOCK 0 s5) else s5)
          else if cmd = 5 then (case fgetown ops fp s of (e, v, s1) \<Rightarrow> s1\<lparr>fd_rval := v, fd_error := e\<rparr>)
          else if cmd = 6 then (case fsetown ops fp arg s of (e, s1) \<Rightarrow> s1\<lparr>fd_error := e\<rparr>)
          else s\<lparr>fd_error := EINVAL\<rparr>)"

text \<open>\<^verbatim>\<open>while (u.u_lastfile >= 0 && u.u_ofile[u.u_lastfile] == NULL) u.u_lastfile--;\<close>\<close>

fun trim_lastfile :: "nat option list \<Rightarrow> nat \<Rightarrow> int" where
  "trim_lastfile os 0 = -1"
| "trim_lastfile os (Suc n) = (if os ! n = None then trim_lastfile os n else int n)"

definition close_fd :: "'d devops \<Rightarrow> int \<Rightarrow> 'd fdtab \<Rightarrow> 'd fdtab" where
  "close_fd ops i s =
     (case getf i s of None \<Rightarrow> s\<lparr>fd_error := EBADF\<rparr>
      | Some fp \<Rightarrow>
          let os = (u_ofile s)[nat i := None];
              s1 = s\<lparr>u_ofile := os, u_lastfile := trim_lastfile os (nat (u_lastfile s + 1))\<rparr> in
          case closef ops (Some fp) s1 of (e, s2) \<Rightarrow> s2\<lparr>fd_error := e\<rparr>)"

definition falloc :: "'d fdtab \<Rightarrow> nat option \<times> 'd fdtab" where
  "falloc s =
     (case ufalloc 0 s of
        (None, s1) \<Rightarrow> (None, s1)
      | (Some i, s1) \<Rightarrow>
          let l = (case lastf s1 of None \<Rightarrow> 0 | Some l \<Rightarrow> l); s2 = s1\<lparr>lastf := Some l\<rparr> in
          case find (\<lambda>f. f_count (files s2 ! f) = 0) ([l..<NFILE] @ [0..<l]) of
            None \<Rightarrow> (None, s2\<lparr>fd_error := ENFILE\<rparr>)
          | Some f \<Rightarrow>
              (Some f, updfile f (\<lambda>x. x\<lparr>f_count := 1, f_data := 0, f_offset := 0\<rparr>)
                 (s2\<lparr>u_ofile := (u_ofile s2)[i := Some f], lastf := Some (f + 1)\<rparr>)))"

definition flock :: "'d devops \<Rightarrow> int \<Rightarrow> u32 \<Rightarrow> 'd fdtab \<Rightarrow> 'd fdtab" where
  "flock ops fd how s =
     (case getf fd s of None \<Rightarrow> s\<lparr>fd_error := EBADF\<rparr>
      | Some f \<Rightarrow>
          let x = files s ! f in
          if f_type x \<noteq> DTYPE_INODE then s\<lparr>fd_error := EOPNOTSUPP\<rparr>
          else if how AND LOCK_UN \<noteq> 0 then
            (case ino_unlock ops x (FSHLOCK OR FEXLOCK) (devs s) of
               (fl, d) \<Rightarrow> updfile f (\<lambda>x. x\<lparr>f_flag := fl\<rparr>) (s\<lparr>devs := d\<rparr>))
          else if how AND (LOCK_SH OR LOCK_EX) = 0 then s
          else
            let how1 = (if how AND LOCK_EX \<noteq> 0 then how AND NOT LOCK_SH else how) in
            if f_flag x AND FEXLOCK \<noteq> 0 \<and> how1 AND LOCK_EX \<noteq> 0 then s
            else if f_flag x AND FSHLOCK \<noteq> 0 \<and> how1 AND LOCK_SH \<noteq> 0 then s
            else (case ino_lock ops x how1 (devs s) of
                    (e, fl, d) \<Rightarrow> (updfile f (\<lambda>x. x\<lparr>f_flag := fl\<rparr>) (s\<lparr>devs := d\<rparr>))\<lparr>fd_error := e\<rparr>))"

definition fdopen :: "int \<Rightarrow> 'd fdtab \<Rightarrow> int \<times> 'd fdtab" where
  "fdopen minor_dev s = (ENODEV, s\<lparr>u_dupfd := minor_dev\<rparr>)"

definition dupfdopen :: "nat \<Rightarrow> int \<Rightarrow> u32 \<Rightarrow> int \<Rightarrow> 'd fdtab \<Rightarrow> (int \<times> 'd fdtab) kres" where
  "dupfdopen indx dfd mode err s =
     (if dfd \<ge> int NOFILE then Inr (EBADF, s)
      else if dfd < 0 then Inl Fault
      else case u_ofile s ! nat dfd of
             None \<Rightarrow> Inr (EBADF, s)
           | Some w \<Rightarrow>
               if u_ofile s ! indx = Some w then Inr (EBADF, s)
               else if err = ENODEV then
                 (if (mode AND (FREAD OR FWRITE)) OR f_flag (files s ! w) \<noteq> f_flag (files s ! w)
                  then Inr (EACCES, s)
                  else Inr (0, updfile w (\<lambda>x. x\<lparr>f_count := f_count x + 1\<rparr>)
                         (s\<lparr>u_ofile := (u_ofile s)[indx := Some w],
                            u_pofile := (u_pofile s)[indx := u_pofile s ! nat dfd],
                            u_lastfile := (if int indx > u_lastfile s then int indx else u_lastfile s)\<rparr>)))
               else Inr (err, s))"

text \<open>
  \<^verbatim>\<open>copen\<close> returns the error number. Its branch for a failed \<^verbatim>\<open>vn_open\<close> contains the
  assignment \<^verbatim>\<open>error = dupfdopen(...) == 0\<close>, which assigns the result of the comparison.
\<close>

definition copen_failed :: "nat \<Rightarrow> nat \<Rightarrow> u32 \<Rightarrow> int \<Rightarrow> 'd fdtab \<Rightarrow> (int \<times> 'd fdtab) kres" where
  "copen_failed fp indx flags err s =
     (let s4 = updfile fp (\<lambda>x. x\<lparr>f_count := 0\<rparr>) s in
      if (err = ENODEV \<or> err = ENXIO) \<and> u_dupfd s4 \<ge> 0 then
        kbind (dupfdopen indx (u_dupfd s4) flags err s4) (\<lambda>(e, s5).
          let err' = (if e = 0 then 1 else 0) in
          if err' \<noteq> 0 then Inr (0, s5\<lparr>fd_rval := int indx\<rparr>)
          else Inr (err', s5\<lparr>u_ofile := (u_ofile s5)[indx := None]\<rparr>))
      else Inr (err, s4\<lparr>u_ofile := (u_ofile s4)[indx := None]\<rparr>))"

definition copen_lock :: "'d devops \<Rightarrow> nat \<Rightarrow> nat \<Rightarrow> u32 \<Rightarrow> 'd fdtab \<Rightarrow> int \<times> 'd fdtab" where
  "copen_lock ops fp indx flags s =
     (if flags AND (FEXLOCK OR FSHLOCK) \<noteq> 0 then
        let ty = (if flags AND FEXLOCK \<noteq> 0 then LOCK_EX else LOCK_SH);
            ty' = (if flags AND FNONBLOCK \<noteq> 0 then ty OR LOCK_NB else ty);
            (e, fl, d') = ino_lock ops (files s ! fp) ty' (devs s);
            s5 = updfile fp (\<lambda>x. x\<lparr>f_flag := fl\<rparr>) (s\<lparr>devs := d'\<rparr>) in
        if e \<noteq> 0 then
          let s6 = snd (closef ops (Some fp) s5) in
          (e, s6\<lparr>u_ofile := (u_ofile s6)[indx := None]\<rparr>)
        else (0, s5)
      else (0, s))"

definition copen :: "'d devops \<Rightarrow> u32 \<Rightarrow> u32 \<Rightarrow> string \<Rightarrow> 'd fdtab \<Rightarrow> (int \<times> 'd fdtab) kres" where
  "copen ops mode cmode fname s =
     (case falloc s of
        (None, s1) \<Rightarrow> Inr (fd_error s1, s1)
      | (Some fp, s1) \<Rightarrow>
          let flags = FFLAGS mode;
              indx = nat (fd_rval s1);
              s2 = (updfile fp (\<lambda>x. x\<lparr>f_flag := flags AND FMASK, f_type := DTYPE_INODE\<rparr>) s1)
                     \<lparr>u_dupfd := - fd_rval s1 - 1\<rparr>;
              (err, ip, dfd, d) = vn_open ops flags (cmode AND 0x7DFF) fname (u_dupfd s2) (devs s2);
              s3 = s2\<lparr>u_dupfd := dfd, devs := d\<rparr> in
          if err \<noteq> 0 then copen_failed fp indx flags err s3
          else Inr (copen_lock ops fp indx flags
                 (updfile fp (\<lambda>x. x\<lparr>f_data := ip\<rparr>) (s3\<lparr>u_dupfd := 0\<rparr>))))"

section \<open>Reference counts\<close>

text \<open>
  The table is well formed when every descriptor refers to a file, every file counts its
  references (those of this process and \<open>ext f\<close> from elsewhere), and \<open>u_lastfile\<close> bounds the
  open descriptors.
\<close>

definition fd_ok :: "(nat \<Rightarrow> nat) \<Rightarrow> 'd fdtab \<Rightarrow> bool" where
  "fd_ok ext s \<longleftrightarrow>
     length (u_ofile s) = NOFILE \<and> length (u_pofile s) = NOFILE \<and> length (files s) = NFILE \<and>
     (\<forall>f. Some f \<in> set (u_ofile s) \<longrightarrow> f < NFILE) \<and>
     (\<forall>f<NFILE. f_count (files s ! f) = count_list (u_ofile s) (Some f) + ext f) \<and>
     -1 \<le> u_lastfile s \<and> u_lastfile s < int NOFILE \<and>
     (\<forall>fd<NOFILE. u_ofile s ! fd \<noteq> None \<longrightarrow> int fd \<le> u_lastfile s) \<and>
     (case lastf s of None \<Rightarrow> True | Some l \<Rightarrow> l \<le> NFILE)"

text \<open>What the counting depends on, for a state in the middle of a call.\<close>

definition fd_shape :: "'d fdtab \<Rightarrow> bool" where
  "fd_shape s \<longleftrightarrow>
     length (u_ofile s) = NOFILE \<and> length (u_pofile s) = NOFILE \<and> length (files s) = NFILE \<and>
     (\<forall>f. Some f \<in> set (u_ofile s) \<longrightarrow> f < NFILE) \<and>
     -1 \<le> u_lastfile s \<and> u_lastfile s < int NOFILE \<and>
     (\<forall>fd<NOFILE. u_ofile s ! fd \<noteq> None \<longrightarrow> int fd \<le> u_lastfile s) \<and>
     (case lastf s of None \<Rightarrow> True | Some l \<Rightarrow> l \<le> NFILE)"

definition refs :: "'d fdtab \<Rightarrow> nat \<Rightarrow> nat" where
  "refs s f = count_list (u_ofile s) (Some f)"

definition fcount :: "'d fdtab \<Rightarrow> nat \<Rightarrow> nat" where
  "fcount s f = f_count (files s ! f)"

lemma fd_ok_iff: "fd_ok ext s \<longleftrightarrow> fd_shape s \<and> (\<forall>f<NFILE. fcount s f = refs s f + ext f)"
  by (auto simp: fd_ok_def fd_shape_def refs_def fcount_def)

lemma count_list_update:
  "i < length xs \<Longrightarrow>
   count_list (xs[i := y]) a + (if xs ! i = a then 1 else 0) = count_list xs a + (if y = a then 1 else 0)"
proof (induction xs arbitrary: i)
  case (Cons x xs)
  then show ?case
  proof (cases i)
    case (Suc k)
    then show ?thesis using Cons.IH [of k] Cons.prems by (simp split: if_splits)
  qed (auto split: if_splits)
qed simp

lemma fcount_updfile:
  "f < length (files s) \<Longrightarrow> fcount (updfile f g s) h = (if h = f then f_count (g (files s ! f)) else fcount s h)"
  by (simp add: fcount_def nth_list_update)

lemma closef_effect:
  assumes "fd_shape s" "f < NFILE"
  shows "\<exists>e s'. closef ops (Some f) s = (e, s') \<and> fd_shape s' \<and> u_ofile s' = u_ofile s \<and>
    u_pofile s' = u_pofile s \<and> u_lastfile s' = u_lastfile s \<and> fd_rval s' = fd_rval s \<and> fd_error s' = fd_error s \<and>
    (\<forall>h<NFILE. fcount s' h = (if h = f then fcount s f - 1 else fcount s h)) \<and>
    (fcount s f > 1 \<longrightarrow> devs s' = devs s \<and> e = 0)"
proof -
  have len: "length (files s) = NFILE" using assms(1) by (simp add: fd_shape_def)
  show ?thesis
    using assms len
    by (cases "fcount s f > 1")
      (auto simp: closef_def fd_shape_def fcount_def nth_list_update Let_def split: prod.splits)
qed

lemma getf_Some:
  assumes "fd_shape s" "getf i s = Some f"
  shows "f < NFILE" "0 \<le> i" "nat i < NOFILE" "u_ofile s ! nat i = Some f"
proof -
  from assms show i: "0 \<le> i" "nat i < NOFILE" and o: "u_ofile s ! nat i = Some f"
    by (auto simp: getf_def NOFILE_def split: if_splits)
  then have "Some f \<in> set (u_ofile s)" using assms(1) by (auto simp: fd_shape_def in_set_conv_nth)
  then show "f < NFILE" using assms(1) by (simp add: fd_shape_def)
qed

lemma find_upt:
  "find P [i..<n] = Some j \<longleftrightarrow> i \<le> j \<and> j < n \<and> P j \<and> (\<forall>l. i \<le> l \<and> l < j \<longrightarrow> \<not> P l)"
  "find P [i..<n] = None \<longleftrightarrow> (\<forall>l. i \<le> l \<and> l < n \<longrightarrow> \<not> P l)"
proof -
  show "find P [i..<n] = None \<longleftrightarrow> (\<forall>l. i \<le> l \<and> l < n \<longrightarrow> \<not> P l)"
    by (auto simp: find_None_iff)
  show "find P [i..<n] = Some j \<longleftrightarrow> i \<le> j \<and> j < n \<and> P j \<and> (\<forall>l. i \<le> l \<and> l < j \<longrightarrow> \<not> P l)"
  proof
    assume "find P [i..<n] = Some j"
    then obtain k where k: "k < n - i" "P (i + k)" "j = i + k" "\<forall>m<k. \<not> P (i + m)"
      by (auto simp: find_Some_iff)
    have "\<not> P l" if "i \<le> l" "l < j" for l
      using k(4)[rule_format, of "l - i"] that k(3) by simp
    with k show "i \<le> j \<and> j < n \<and> P j \<and> (\<forall>l. i \<le> l \<and> l < j \<longrightarrow> \<not> P l)" by simp
  next
    assume "i \<le> j \<and> j < n \<and> P j \<and> (\<forall>l. i \<le> l \<and> l < j \<longrightarrow> \<not> P l)"
    then show "find P [i..<n] = Some j"
      by (auto simp: find_Some_iff intro!: exI [of _ "j - i"])
  qed
qed

lemma ufalloc_Some:
  assumes "fd_shape s" "ufalloc i s = (Some j, s')"
  shows "fd_shape s'" "u_ofile s' = u_ofile s" "files s' = files s" "devs s' = devs s" "fd_error s' = fd_error s"
    "lastf s' = lastf s"
    "u_pofile s' = (u_pofile s)[j := 0]"
    "i \<le> j" "j < NOFILE" "u_ofile s ! j = None" "\<forall>l. i \<le> l \<and> l < j \<longrightarrow> u_ofile s ! l \<noteq> None"
    "fd_rval s' = int j" "int j \<le> u_lastfile s'"
  using assms by (auto simp: ufalloc_def find_upt fd_shape_def split: option.splits if_splits)

lemma ufalloc_None:
  assumes "ufalloc i s = (None, s')"
  shows "s' = s\<lparr>fd_error := EMFILE\<rparr>" "\<forall>j. i \<le> j \<and> j < NOFILE \<longrightarrow> u_ofile s ! j \<noteq> None"
  using assms by (auto simp: ufalloc_def find_upt split: option.splits)

lemma refs_update:
  "i < length (u_ofile s) \<Longrightarrow>
   refs (s\<lparr>u_ofile := (u_ofile s)[i := y]\<rparr>) f + (if u_ofile s ! i = Some f then 1 else 0) =
   refs s f + (if y = Some f then 1 else 0)"
  by (simp add: refs_def count_list_update)

lemma dupit_effect:
  assumes "fd_shape s" "fd < NOFILE" "fp < NFILE"
  shows "fd_shape (dupit fd fp fl s)" "u_ofile (dupit fd fp fl s) = (u_ofile s)[fd := Some fp]"
    "u_pofile (dupit fd fp fl s) = (u_pofile s)[fd := fl]"
    "fd_error (dupit fd fp fl s) = fd_error s" "fd_rval (dupit fd fp fl s) = fd_rval s"
    "devs (dupit fd fp fl s) = devs s"
    "fcount (dupit fd fp fl s) h = (if h = fp then fcount s fp + 1 else fcount s h)"
proof -
  show "fd_shape (dupit fd fp fl s)"
    using assms unfolding fd_shape_def dupit_def
    by (auto simp: nth_list_update dest!: set_update_subset_insert [THEN subsetD] split: if_splits)
  show "fcount (dupit fd fp fl s) h = (if h = fp then fcount s fp + 1 else fcount s h)"
    using assms by (auto simp: dupit_def fcount_def fd_shape_def nth_list_update)
qed (auto simp: dupit_def)

section \<open>Every call keeps the counts\<close>

lemma dupit_keeps:
  assumes "fd_ok ext s" "fd < NOFILE" "fp < NFILE" "u_ofile s ! fd = None"
  shows "fd_ok ext (dupit fd fp fl s)"
proof -
  note sh = assms(1)[unfolded fd_ok_iff, THEN conjunct1]
  note d = dupit_effect [OF sh assms(2,3), of fl]
  have len: "length (u_ofile s) = NOFILE" using sh by (simp add: fd_shape_def)
  have "fcount (dupit fd fp fl s) h = refs (dupit fd fp fl s) h + ext h" if "h < NFILE" for h
    using assms(1,2,4) that len count_list_update [of fd "u_ofile s" "Some fp" "Some h"]
    by (auto simp: fd_ok_iff d refs_def)
  with d(1) show ?thesis by (simp add: fd_ok_iff)
qed

lemma fd_ok_irrelevant [simp]:
  "fd_ok ext (s\<lparr>fd_error := e\<rparr>) = fd_ok ext s" "fd_ok ext (s\<lparr>fd_rval := v\<rparr>) = fd_ok ext s"
  "fd_ok ext (s\<lparr>devs := d\<rparr>) = fd_ok ext s" "fd_ok ext (s\<lparr>u_dupfd := n\<rparr>) = fd_ok ext s"
  by (simp_all add: fd_ok_def)

lemma fd_ok_same_count [simp]:
  assumes "files s = fs" "f_count x = f_count (fs ! f)"
  shows "fd_ok ext (s\<lparr>files := fs[f := x]\<rparr>) = fd_ok ext s"
proof -
  have "f_count (fs[f := x] ! h) = f_count (fs ! h)" for h
    using assms by (cases "f < length fs") (auto simp: nth_list_update list_update_beyond)
  then show ?thesis using assms(1) by (simp add: fd_ok_def)
qed

lemma ufalloc_keeps:
  assumes "fd_ok ext s" "ufalloc i s = (r, s')"
  shows "fd_ok ext s'"
proof (cases r)
  case None
  then show ?thesis using assms ufalloc_None by (metis fd_ok_irrelevant(1))
next
  case (Some j)
  note sh = assms(1)[unfolded fd_ok_iff, THEN conjunct1]
  note u = ufalloc_Some [OF sh assms(2)[unfolded Some]]
  from assms(1) show ?thesis using u(1,2,3) by (simp add: fd_ok_iff refs_def fcount_def)
qed

text \<open>\<^verbatim>\<open>dupit\<close> after \<^verbatim>\<open>ufalloc\<close>, the common end of \<^verbatim>\<open>dup\<close> and \<^verbatim>\<open>F_DUPFD\<close>.\<close>

lemma ufalloc_dupit_keeps:
  assumes "fd_ok ext s" "fp < NFILE" "ufalloc i s = (Some j, s')"
  shows "fd_ok ext (dupit j fp fl s')"
proof -
  note sh = assms(1)[unfolded fd_ok_iff, THEN conjunct1]
  note u = ufalloc_Some [OF sh assms(3)]
  show ?thesis using dupit_keeps [OF ufalloc_keeps [OF assms(1,3)]] u(2,9,10) assms(2) by simp
qed

lemma refs_pos: "fd_shape s \<Longrightarrow> i < NOFILE \<Longrightarrow> u_ofile s ! i = Some f \<Longrightarrow> refs s f \<ge> 1"
  by (metis One_nat_def Suc_leI count_list_0_iff fd_shape_def nth_mem gr0I refs_def)

text \<open>Dropping a descriptor and closing its file keeps the counts.\<close>

lemma drop_close_keeps:
  assumes ok: "fd_ok ext s" and i: "i < NOFILE" "u_ofile s ! i = Some f"
    and s1: "fd_shape s1" "files s1 = files s" "u_ofile s1 = (u_ofile s)[i := None]"
  shows "fd_ok ext (snd (closef ops (Some f) s1))"
proof -
  note sh = ok[unfolded fd_ok_iff, THEN conjunct1]
  have len: "length (u_ofile s) = NOFILE" using sh by (simp add: fd_shape_def)
  have f: "f < NFILE" using sh i len by (metis fd_shape_def nth_mem)
  obtain e s2 where c: "closef ops (Some f) s1 = (e, s2)" "fd_shape s2" "u_ofile s2 = u_ofile s1"
    "\<forall>h<NFILE. fcount s2 h = (if h = f then fcount s1 f - 1 else fcount s1 h)"
    using closef_effect [OF s1(1) f, of ops] by (elim exE conjE) (rule that)
  have "fcount s2 h = refs s2 h + ext h" if "h < NFILE" for h
  proof -
    have "fcount s h = refs s h + ext h" using ok that by (simp add: fd_ok_iff)
    moreover have "fcount s1 h = fcount s h" for h by (simp add: fcount_def s1(2))
    ultimately show ?thesis
      using count_list_update [of i "u_ofile s" None "Some h"] len i c(4) that f
      by (auto simp: refs_def c(3) s1(3) split: if_splits)
  qed
  then show ?thesis using c(1,2) by (simp add: fd_ok_iff)
qed

lemma dup2_keeps:
  assumes ok: "fd_ok ext s"
  shows "fd_ok ext (dup2 ops i j s)"
proof (cases "getf i s")
  case None
  then show ?thesis using ok by (simp add: dup2_def)
next
  case (Some fp)
  note sh = ok[unfolded fd_ok_iff, THEN conjunct1]
  have len: "length (u_ofile s) = NOFILE" using sh by (simp add: fd_shape_def)
  note g = getf_Some [OF sh Some]
  define s1 where "s1 = s\<lparr>fd_rval := j\<rparr>"
  have ok1: "fd_ok ext s1" using ok by (simp add: s1_def)
  note sh1 = ok1[unfolded fd_ok_iff, THEN conjunct1]
  consider "j < 0 \<or> j \<ge> int NOFILE" | "0 \<le> j" "j < int NOFILE" "i = j"
    | "0 \<le> j" "j < int NOFILE" "i \<noteq> j" "u_ofile s ! nat j = None"
    | h where "0 \<le> j" "j < int NOFILE" "i \<noteq> j" "u_ofile s ! nat j = Some h" by fastforce
  then show ?thesis
  proof cases
    case 3
    then have "fd_ok ext (dupit (nat j) fp fl s1)" for fl
      by (intro dupit_keeps ok1 g(1)) (auto simp: s1_def)
    then show ?thesis using Some 3 by (simp add: dup2_def s1_def)
  next
    case (4 h)
    have h: "h < NFILE" using sh 4 len by (metis fd_shape_def nth_mem nat_less_iff)
    obtain e s2 where c: "closef ops (Some h) s1 = (e, s2)" "fd_shape s2" "u_ofile s2 = u_ofile s1"
      "\<forall>x<NFILE. fcount s2 x = (if x = h then fcount s1 h - 1 else fcount s1 x)"
      using closef_effect [OF sh1 h, of ops] by (elim exE conjE) (rule that)
    have j: "nat j < NOFILE" using 4 by linarith
    have "fd_ok ext (dupit (nat j) fp fl s2)" for fl
    proof -
      note d = dupit_effect [OF c(2) j g(1), of fl]
      have "fcount (dupit (nat j) fp fl s2) x = refs (dupit (nat j) fp fl s2) x + ext x" if "x < NFILE" for x
      proof -
        have "fcount s1 x = refs s1 x + ext x" using ok1 that by (simp add: fd_ok_iff)
        moreover have "refs s1 h \<ge> 1" using refs_pos [OF sh1 j] 4(4) by (simp add: s1_def)
        moreover have "count_list ((u_ofile s1)[nat j := Some fp]) (Some x) + (if h = x then 1 else 0)
            = refs s1 x + (if fp = x then 1 else 0)"
          using count_list_update [of "nat j" "u_ofile s1" "Some fp" "Some x"] len j 4(4)
          by (simp add: s1_def refs_def)
        ultimately show ?thesis using c(3,4) that g(1) h
          by (auto simp: d refs_def split: if_splits)
      qed
      with d(1) show ?thesis by (simp add: fd_ok_iff)
    qed
    then show ?thesis using Some 4 c(1) by (simp add: dup2_def s1_def)
  qed (use ok ok1 Some in \<open>auto simp: dup2_def s1_def\<close>)
qed

lemma dup_keeps:
  assumes ok: "fd_ok ext s"
  shows "fd_ok ext (dup ops i j s)"
proof -
  note sh = ok[unfolded fd_ok_iff, THEN conjunct1]
  show ?thesis
    using dup2_keeps [OF ok] ok ufalloc_keeps [OF ok] ufalloc_dupit_keeps [OF ok] getf_Some(1) [OF sh]
    by (auto simp: dup_def split: option.splits prod.splits)
qed

lemma fset_keeps: "fd_ok ext s \<Longrightarrow> fd_ok ext (snd (fset ops fp b v s))"
  by (auto simp: fset_def Let_def split: prod.splits)

lemma fcntl_keeps:
  assumes ok: "fd_ok ext s"
  shows "fd_ok ext (fcntl ops fdes cmd arg s)"
proof -
  note sh = ok[unfolded fd_ok_iff, THEN conjunct1]
  have pof: "fd_ok ext (s\<lparr>u_pofile := (u_pofile s)[k := v]\<rparr>)" for k v
    using ok by (simp add: fd_ok_def)
  show ?thesis
  proof (cases "getf fdes s")
    case (Some fp)
    have fp: "fp < NFILE" using getf_Some(1) [OF sh Some] .
    have fl: "fd_ok ext (updfile fp (\<lambda>x. x\<lparr>f_flag := g x\<rparr>) s)" for g using ok by simp
    consider "cmd = 0" | "cmd = 4" | "cmd \<noteq> 0" "cmd \<noteq> 4" by blast
    then show ?thesis
    proof cases
      case 1
      then show ?thesis using Some ok fp ufalloc_keeps [OF ok] ufalloc_dupit_keeps [OF ok fp]
        by (auto simp: fcntl_def Let_def split: option.splits prod.splits)
    next
      case 2
      define s1 where "s1 = updfile fp (\<lambda>x. x\<lparr>f_flag := f_flag x AND NOT FCNTLFLAGS OR
                        (FFLAGS (word_of_int arg) AND FCNTLFLAGS)\<rparr>) s"
      obtain e1 s2 where f1: "fset ops fp FNONBLOCK (uint (f_flag (files s1 ! fp) AND FNONBLOCK)) s1 = (e1, s2)"
        by fastforce
      define s3 where "s3 = s2\<lparr>fd_error := e1\<rparr>"
      obtain e2 s4 where f2: "fset ops fp FASYNC (uint (f_flag (files s3 ! fp) AND FASYNC)) s3 = (e2, s4)"
        by fastforce
      define s5 where "s5 = s4\<lparr>fd_error := e2\<rparr>"
      have eq: "fcntl ops fdes cmd arg s =
          (if e1 \<noteq> 0 then s3 else if e2 \<noteq> 0 then snd (fset ops fp FNONBLOCK 0 s5) else s5)"
        using f1 f2 unfolding s1_def s3_def s5_def by (cases "e1 = 0") (simp_all add: fcntl_def Some 2 Let_def)
      have ok1: "fd_ok ext s1" unfolding s1_def by (rule fl)
      have ok3: "fd_ok ext s3" using fset_keeps [OF ok1] f1 by (metis fd_ok_irrelevant(1) s3_def snd_conv)
      have ok5: "fd_ok ext s5" using fset_keeps [OF ok3] f2 by (metis fd_ok_irrelevant(1) s5_def snd_conv)
      show ?thesis unfolding eq using ok3 ok5 fset_keeps [OF ok5] by simp
    next
      case 3
      then show ?thesis using Some ok pof
        by (auto simp: fcntl_def fgetown_def fsetown_def Let_def split: option.splits prod.splits)
    qed
  qed (use ok in \<open>simp add: fcntl_def\<close>)
qed

lemma trim_lastfile_bound:
  "trim_lastfile os n \<ge> -1" "trim_lastfile os n < int n"
  "fd < n \<Longrightarrow> os ! fd \<noteq> None \<Longrightarrow> int fd \<le> trim_lastfile os n"
proof (induction n)
  case (Suc n)
  {
    case 3
    then show ?case using Suc(3) by (cases "fd = n") auto
  }
qed (auto simp: less_Suc_eq)

lemma close_keeps:
  assumes ok: "fd_ok ext s"
  shows "fd_ok ext (close_fd ops i s)"
proof (cases "getf i s")
  case (Some fp)
  note sh = ok[unfolded fd_ok_iff, THEN conjunct1]
  note g = getf_Some [OF sh Some]
  define os where "os = (u_ofile s)[nat i := None]"
  define s1 where "s1 = s\<lparr>u_ofile := os, u_lastfile := trim_lastfile os (nat (u_lastfile s + 1))\<rparr>"
  have len: "length (u_ofile s) = NOFILE" using sh by (simp add: fd_shape_def)
  have open_le: "int fd \<le> trim_lastfile os (nat (u_lastfile s + 1))" if "fd < NOFILE" "os ! fd \<noteq> None" for fd
  proof -
    have "u_ofile s ! fd \<noteq> None" using that len by (cases "fd = nat i") (auto simp: os_def)
    then have "int fd \<le> u_lastfile s" using sh that by (simp add: fd_shape_def)
    then show ?thesis using that(2) by (intro trim_lastfile_bound(3)) auto
  qed
  have "trim_lastfile os (nat (u_lastfile s + 1)) < int NOFILE"
    using trim_lastfile_bound(2) [of os "nat (u_lastfile s + 1)"] sh by (simp add: fd_shape_def)
  moreover have "Some f \<in> set os \<Longrightarrow> f < NFILE" for f
    using sh set_update_subset_insert [of "u_ofile s" "nat i" None] by (auto simp: os_def fd_shape_def)
  ultimately have "fd_shape s1"
    using sh open_le trim_lastfile_bound(1) [of os "nat (u_lastfile s + 1)"]
    by (auto simp: s1_def fd_shape_def os_def)
  then have "fd_ok ext (snd (closef ops (Some fp) s1))"
    by (rule drop_close_keeps [OF ok g(3,4)]) (simp_all add: s1_def os_def)
  then show ?thesis using Some by (simp add: close_fd_def Let_def s1_def os_def case_prod_beta)
qed (use ok in \<open>simp add: close_fd_def\<close>)

lemma flock_keeps: "fd_ok ext s \<Longrightarrow> fd_ok ext (flock ops fd how s)"
  by (auto simp: flock_def Let_def split: option.splits prod.splits)

lemma falloc_Some:
  assumes ok: "fd_ok ext s" and a: "falloc s = (Some f, s')"
  obtains i where "fd_shape s'" "f < NFILE" "i < NOFILE" "fd_rval s' = int i"
    "u_ofile s ! i = None" "u_ofile s' = (u_ofile s)[i := Some f]" "fcount s f = 0"
    "\<forall>h<NFILE. fcount s' h = (if h = f then 1 else fcount s h)" "\<forall>l<i. u_ofile s ! l \<noteq> None"
    "devs s' = devs s" "\<forall>h. h \<noteq> f \<longrightarrow> files s' ! h = files s ! h"
proof -
  note sh = ok[unfolded fd_ok_iff, THEN conjunct1]
  obtain i s1 where u: "ufalloc 0 s = (Some i, s1)" using a by (auto simp: falloc_def split: prod.splits option.splits)
  note e = ufalloc_Some [OF sh u]
  define l where "l = (case lastf s1 of None \<Rightarrow> 0 | Some l \<Rightarrow> l)"
  have l: "l \<le> NFILE" using e(1) by (auto simp: l_def fd_shape_def split: option.splits)
  have fnd: "find (\<lambda>f. f_count (files s1 ! f) = 0) ([l..<NFILE] @ [0..<l]) = Some f"
    and s': "s' = updfile f (\<lambda>x. x\<lparr>f_count := 1, f_data := 0, f_offset := 0\<rparr>)
                 (s1\<lparr>lastf := Some (f + 1), u_ofile := (u_ofile s1)[i := Some f]\<rparr>)"
    using a u by (auto simp: falloc_def Let_def l_def split: option.splits)
  from fnd have "f \<in> set ([l..<NFILE] @ [0..<l])" and f0: "f_count (files s1 ! f) = 0"
    by (auto simp: find_Some_iff nth_mem simp del: set_append)
  then have f: "f < NFILE" using l by auto
  have len: "length (files s) = NFILE" "length (u_ofile s) = NOFILE" using sh by (simp_all add: fd_shape_def)
  show ?thesis
  proof (rule that [of i])
    show "fd_shape s'" using e(1,2,3,9,13) f
      unfolding fd_shape_def s'
      by (auto simp: nth_list_update dest!: set_update_subset_insert [THEN subsetD] split: if_splits)
  qed (use e f f0 len in \<open>auto simp: s' fcount_def nth_list_update\<close>)
qed

lemma falloc_None:
  assumes ok: "fd_ok ext s" and a: "falloc s = (None, s')"
  shows "fd_ok ext s'"
proof -
  obtain r s1 where u: "ufalloc 0 s = (r, s1)" by fastforce
  have s1: "fd_ok ext s1" by (rule ufalloc_keeps [OF ok u])
  then have "fd_ok ext (s1\<lparr>lastf := Some (case lastf s1 of None \<Rightarrow> 0 | Some l \<Rightarrow> l)\<rparr>)"
    by (auto simp: fd_ok_def split: option.splits)
  then show ?thesis using a u s1 by (auto simp: falloc_def Let_def split: option.splits)
qed

lemma falloc_keeps:
  assumes ok: "fd_ok ext s" and a: "falloc s = (Some f, s')"
  obtains i where "fd_ok ext s'" "f < NFILE" "i < NOFILE" "fd_rval s' = int i" "u_ofile s ! i = None"
    "u_ofile s' = (u_ofile s)[i := Some f]" "fcount s' f = 1" "\<forall>l<i. u_ofile s ! l \<noteq> None" "devs s' = devs s"
proof -
  obtain i where i: "fd_shape s'" "f < NFILE" "i < NOFILE" "fd_rval s' = int i" "u_ofile s ! i = None"
    "u_ofile s' = (u_ofile s)[i := Some f]" "fcount s f = 0"
    "\<forall>h<NFILE. fcount s' h = (if h = f then 1 else fcount s h)" "\<forall>l<i. u_ofile s ! l \<noteq> None" "devs s' = devs s"
    by (rule falloc_Some [OF ok a])
  have "length (u_ofile s) = NOFILE" using ok by (simp add: fd_ok_def)
  then have "fcount s' h = refs s' h + ext h" if "h < NFILE" for h
    using ok i(2,3,5,6,7,8) that count_list_update [of i "u_ofile s" "Some f" "Some h"]
    by (auto simp: fd_ok_iff refs_def)
  then have "fd_ok ext s'" using i(1) by (simp add: fd_ok_iff)
  then show ?thesis using i by (intro that [of i]) auto
qed

text \<open>Giving a descriptor back together with the only reference to its file.\<close>

lemma drop_shape: "fd_shape s \<Longrightarrow> fd_shape (s\<lparr>u_ofile := (u_ofile s)[i := None]\<rparr>)"
  by (cases "i < length (u_ofile s)")
    (auto simp: fd_shape_def nth_list_update dest!: set_update_subset_insert [THEN subsetD] split: if_splits)

lemma unopen_keeps:
  assumes ok: "fd_ok ext s" and i: "i < NOFILE" "u_ofile s ! i = Some f" "fcount s f = 1"
  shows "fd_ok ext ((updfile f (\<lambda>x. x\<lparr>f_count := 0\<rparr>) s)\<lparr>u_ofile := (u_ofile s)[i := None]\<rparr>)"
    (is "fd_ok ext ?t")
proof -
  note sh = ok[unfolded fd_ok_iff, THEN conjunct1]
  have len: "length (u_ofile s) = NOFILE" "length (files s) = NFILE" using sh by (simp_all add: fd_shape_def)
  have "f < NFILE" using sh i len by (metis fd_shape_def nth_mem)
  then have "fcount ?t h = refs ?t h + ext h" if "h < NFILE" for h
    using ok that len i count_list_update [of i "u_ofile s" None "Some h"]
    by (auto simp: fd_ok_iff refs_def fcount_def nth_list_update split: if_splits)
  moreover have "fd_shape ?t" using drop_shape [OF sh, of i] by (simp add: fd_shape_def)
  ultimately show ?thesis by (simp add: fd_ok_iff)
qed

lemma close_then_drop_keeps:
  assumes ok: "fd_ok ext s" and i: "i < NOFILE" "u_ofile s ! i = Some f"
    and c: "closef ops (Some f) s = (e, s2)"
  shows "fd_ok ext (s2\<lparr>u_ofile := (u_ofile s2)[i := None]\<rparr>)" (is "fd_ok ext ?t")
proof -
  note sh = ok[unfolded fd_ok_iff, THEN conjunct1]
  have len: "length (u_ofile s) = NOFILE" using sh by (simp add: fd_shape_def)
  have f: "f < NFILE" using sh i len by (metis fd_shape_def nth_mem)
  have s2: "fd_shape s2" "u_ofile s2 = u_ofile s"
    "\<forall>h<NFILE. fcount s2 h = (if h = f then fcount s f - 1 else fcount s h)"
    using closef_effect [OF sh f, of ops] c by auto
  have "fcount ?t h = refs ?t h + ext h" if "h < NFILE" for h
  proof -
    have "fcount s h = refs s h + ext h" using ok that by (simp add: fd_ok_iff)
    moreover have "fcount ?t h = fcount s2 h" by (simp add: fcount_def)
    ultimately show ?thesis
      using count_list_update [of i "u_ofile s" None "Some h"] len i s2(3) that
      by (auto simp: refs_def s2(2) split: if_splits)
  qed
  then show ?thesis using drop_shape [OF s2(1), of i] by (simp add: fd_ok_iff)
qed

lemma dupfdopen_keeps:
  assumes ok: "fd_ok ext s" and i: "indx < NOFILE" "u_ofile s ! indx = Some fp" "fcount s fp = 1"
    and s4: "s4 = updfile fp (\<lambda>x. x\<lparr>f_count := 0\<rparr>) s" and dfd: "0 \<le> dfd"
  obtains e s5 where "dupfdopen indx dfd mode err s4 = Inr (e, s5)"
    "e = 0 \<Longrightarrow> err \<noteq> 0 \<Longrightarrow> fd_ok ext s5" "e \<noteq> 0 \<Longrightarrow> s5 = s4"
proof -
  define s6 where "s6 = s4\<lparr>u_ofile := (u_ofile s4)[indx := None]\<rparr>"
  have ok6: "fd_ok ext s6" using unopen_keeps [OF ok i] by (simp add: s6_def s4)
  note sh = ok[unfolded fd_ok_iff, THEN conjunct1]
  have len: "length (u_ofile s) = NOFILE" using sh by (simp add: fd_shape_def)
  consider "dfd \<ge> int NOFILE \<or> u_ofile s ! nat dfd = None \<or> u_ofile s ! nat dfd = Some fp"
    | w where "dfd < int NOFILE" "u_ofile s ! nat dfd = Some w" "w \<noteq> fp" by (metis not_less option.exhaust)
  then show ?thesis
  proof cases
    case 1
    then have "dupfdopen indx dfd mode err s4 = Inr (EBADF, s4)"
      using i(2) dfd by (auto simp: dupfdopen_def s4)
    then show ?thesis by (rule that) auto
  next
    case (2 w)
    have w: "w < NFILE" using sh 2 dfd len by (metis fd_shape_def nth_mem nat_less_iff)
    have dk: "fd_ok ext (dupit indx w fl s6)" for fl
      by (rule dupit_keeps [OF ok6 i(1) w]) (use i len in \<open>simp add: s6_def s4\<close>)
    define s7 where "s7 = updfile w (\<lambda>x. x\<lparr>f_count := f_count x + 1\<rparr>)
        (s4\<lparr>u_ofile := (u_ofile s4)[indx := Some w], u_pofile := (u_pofile s4)[indx := u_pofile s4 ! nat dfd],
           u_lastfile := (if int indx > u_lastfile s4 then int indx else u_lastfile s4)\<rparr>)"
    have good: "fd_ok ext s7"
      using dk [of "u_pofile s4 ! nat dfd"] by (simp add: s7_def dupit_def s6_def cong: if_cong)
    have u4: "u_ofile s4 = u_ofile s" by (simp add: s4)
    have eq: "dupfdopen indx dfd mode err s4 =
      (if err = ENODEV then
         if (mode AND (FREAD OR FWRITE)) OR f_flag (files s4 ! w) \<noteq> f_flag (files s4 ! w)
         then Inr (EACCES, s4) else Inr (0, s7)
       else Inr (err, s4))"
      using 2 dfd i(2) unfolding dupfdopen_def s7_def by (simp add: u4)
    consider "err \<noteq> ENODEV" "dupfdopen indx dfd mode err s4 = Inr (err, s4)"
      | "dupfdopen indx dfd mode err s4 = Inr (EACCES, s4)" | "dupfdopen indx dfd mode err s4 = Inr (0, s7)"
      using eq by presburger
    then show ?thesis
      by cases (use good in \<open>auto intro: that\<close>)
  qed
qed

lemma copen_failed_keeps:
  assumes ok: "fd_ok ext s" and i: "indx < NOFILE" "u_ofile s ! indx = Some fp" "fcount s fp = 1"
  shows "\<exists>e s'. copen_failed fp indx flags err s = Inr (e, s') \<and> fd_ok ext s'"
proof -
  define s4 where "s4 = updfile fp (\<lambda>x. x\<lparr>f_count := 0\<rparr>) s"
  have un: "fd_ok ext (s4\<lparr>u_ofile := (u_ofile s4)[indx := None]\<rparr>)"
    using unopen_keeps [OF ok i] by (simp add: s4_def)
  show ?thesis
  proof (cases "(err = ENODEV \<or> err = ENXIO) \<and> u_dupfd s4 \<ge> 0")
    case True
    obtain e s5 where d: "dupfdopen indx (u_dupfd s4) flags err s4 = Inr (e, s5)"
      "e = 0 \<Longrightarrow> err \<noteq> 0 \<Longrightarrow> fd_ok ext s5" "e \<noteq> 0 \<Longrightarrow> s5 = s4"
      by (rule dupfdopen_keeps [OF ok i s4_def, of "u_dupfd s4" flags err])
        (use True in auto)
    have eq: "copen_failed fp indx flags err s =
      (if e = 0 then Inr (0, s5\<lparr>fd_rval := int indx\<rparr>) else Inr (0, s5\<lparr>u_ofile := (u_ofile s5)[indx := None]\<rparr>))"
      using True d(1) unfolding copen_failed_def s4_def by (simp add: Let_def)
    show ?thesis unfolding eq using d(2,3) True un by (cases "e = 0") auto
  next
    case False
    then have eq: "copen_failed fp indx flags err s = Inr (err, s4\<lparr>u_ofile := (u_ofile s4)[indx := None]\<rparr>)"
      by (simp only: copen_failed_def Let_def s4_def [symmetric] if_False)
    show ?thesis unfolding eq using un by blast
  qed
qed

lemma copen_lock_keeps:
  assumes ok: "fd_ok ext s" and i: "indx < NOFILE" "u_ofile s ! indx = Some fp"
  shows "fd_ok ext (snd (copen_lock ops fp indx flags s))"
proof -
  have "fd_ok ext (updfile fp (\<lambda>x. x\<lparr>f_flag := fl\<rparr>) (s\<lparr>devs := d'\<rparr>))" for fl d' using ok by simp
  from close_then_drop_keeps [OF this i(1)] i(2)
  have "fd_ok ext (s6\<lparr>u_ofile := (u_ofile s6)[indx := None]\<rparr>)"
    if "s6 = snd (closef ops (Some fp) (updfile fp (\<lambda>x. x\<lparr>f_flag := fl\<rparr>) (s\<lparr>devs := d'\<rparr>)))" for fl d' s6
    using that by (metis (no_types, lifting) fdtab.select_convs(1) fdtab.surjective fdtab.update_convs(7) fdtab.update_convs(9) prod.collapse)
  then show ?thesis using ok by (simp add: copen_lock_def Let_def split: prod.splits)
qed

lemma copen_keeps:
  assumes ok: "fd_ok ext s"
  shows "\<exists>e s'. copen ops mode cmode fname s = Inr (e, s') \<and> fd_ok ext s'"
proof (cases "falloc s")
  case (Pair r s1)
  show ?thesis
  proof (cases r)
    case None
    then show ?thesis using falloc_None [OF ok] Pair by (simp add: copen_def)
  next
    case (Some fp)
    obtain indx where f: "fd_ok ext s1" "fp < NFILE" "indx < NOFILE" "fd_rval s1 = int indx"
      "u_ofile s1 = (u_ofile s)[indx := Some fp]" "fcount s1 fp = 1"
      by (rule falloc_keeps [OF ok Pair [unfolded Some]]) (rule that)
    define flags where "flags = FFLAGS mode"
    define s2 where "s2 = (updfile fp (\<lambda>x. x\<lparr>f_flag := flags AND FMASK, f_type := DTYPE_INODE\<rparr>) s1)
                     \<lparr>u_dupfd := - fd_rval s1 - 1\<rparr>"
    obtain err ip dfd d where v: "vn_open ops flags (cmode AND 0x7DFF) fname (u_dupfd s2) (devs s2) = (err, ip, dfd, d)"
      by (metis prod_cases4)
    define s3 where "s3 = s2\<lparr>u_dupfd := dfd, devs := d\<rparr>"
    have len: "length (u_ofile s) = NOFILE" "length (files s1) = NFILE" using ok f(1) by (simp_all add: fd_ok_def)
    have ok3: "fd_ok ext s3" using f(1) by (simp add: s3_def s2_def)
    have c3: "fcount s3 fp = 1" using f(2,6) len(2) by (simp add: s3_def s2_def fcount_def)
    have o3: "u_ofile s3 ! indx = Some fp" using f(3,5) len(1) by (simp add: s3_def s2_def)
    have "copen ops mode cmode fname s =
        (if err \<noteq> 0 then copen_failed fp indx flags err s3
         else Inr (copen_lock ops fp indx flags (updfile fp (\<lambda>x. x\<lparr>f_data := ip\<rparr>) (s3\<lparr>u_dupfd := 0\<rparr>))))"
      using v unfolding s3_def s2_def flags_def by (simp add: copen_def Pair Some f(4) Let_def)
    moreover have "fd_ok ext (updfile fp (\<lambda>x. x\<lparr>f_data := ip\<rparr>) (s3\<lparr>u_dupfd := 0\<rparr>))" using ok3 by simp
    then have "fd_ok ext (snd (copen_lock ops fp indx flags (updfile fp (\<lambda>x. x\<lparr>f_data := ip\<rparr>) (s3\<lparr>u_dupfd := 0\<rparr>))))"
      by (rule copen_lock_keeps [OF _ f(3)]) (use o3 in simp)
    ultimately show ?thesis using copen_failed_keeps [OF ok3 f(3) o3 c3, of flags err]
      by (cases "err = 0") (auto intro: exI [of _ "fst (copen_lock ops fp indx flags _)"] simp: prod_eq_iff)
  qed
qed

section \<open>Properties\<close>

datatype fdcall =
    C_dup int int
  | C_dup2 int int
  | C_fcntl int int int
  | C_close int
  | C_flock int u32
  | C_getdtablesize
  | C_copen u32 u32 string

text \<open>A sequence of descriptor calls of the running process.\<close>

fun fd_exec :: "'d devops \<Rightarrow> fdcall \<Rightarrow> 'd fdtab \<Rightarrow> 'd fdtab kres" where
  "fd_exec ops (C_dup i j) s = Inr (dup ops i j s)"
| "fd_exec ops (C_dup2 i j) s = Inr (dup2 ops i j s)"
| "fd_exec ops (C_fcntl i c a) s = Inr (fcntl ops i c a s)"
| "fd_exec ops (C_close i) s = Inr (close_fd ops i s)"
| "fd_exec ops (C_flock i h) s = Inr (flock ops i h s)"
| "fd_exec ops C_getdtablesize s = Inr (getdtablesize s)"
| "fd_exec ops (C_copen m c n) s = kbind (copen ops m c n s) (\<lambda>(e, s'). Inr (s'\<lparr>fd_error := e\<rparr>))"

fun fd_run :: "'d devops \<Rightarrow> fdcall list \<Rightarrow> 'd fdtab \<Rightarrow> 'd fdtab kres" where
  "fd_run ops [] s = Inr s"
| "fd_run ops (c # cs) s = kbind (fd_exec ops c s) (fd_run ops cs)"

lemma fd_exec_keeps:
  assumes "fd_ok ext s"
  shows "\<exists>s'. fd_exec ops c s = Inr s' \<and> fd_ok ext s'"
proof (cases c)
  case (C_copen m cm n)
  obtain e s' where "copen ops m cm n s = Inr (e, s')" "fd_ok ext s'"
    using copen_keeps [OF assms, of ops m cm n] by (elim exE conjE) (rule that)
  then show ?thesis using C_copen by simp
qed (use assms in \<open>auto simp: dup_keeps dup2_keeps fcntl_keeps close_keeps flock_keeps getdtablesize_def\<close>)

text \<open>Devices and a descriptor table for the witnesses: descriptors 0 and 1 share file 0.\<close>

definition demo_ops :: "nat devops" where
  "demo_ops = \<lparr>fo_ioctl = (\<lambda>x c v d. (0, v, d)), fo_close = (\<lambda>x d. (0, d + 1)),
     ino_unlock = (\<lambda>x fl d. (f_flag x AND NOT fl, d)), ino_lock = (\<lambda>x h d. (0, f_flag x OR FEXLOCK, d)),
     vn_open = (\<lambda>fl cm n dfd d. if n = ''/dev/fd/7'' then (ENODEV, 0, 7, d) else (0, 5, dfd, d)),
     pfind_pgrp = (\<lambda>p. None)\<rparr>"

definition demo_fdtab :: "nat fdtab" where
  "demo_fdtab = \<lparr>u_ofile = [Some 0, Some 0] @ replicate 28 None, u_pofile = 1 # replicate 29 0, u_lastfile = 1,
     fd_error = 0, fd_rval = 0, u_dupfd = 0,
     files = \<lparr>f_flag = 3, f_type = 1, f_count = 2, f_msgcount = 0, f_data = 0, f_offset = 0\<rparr> #
             replicate 23 \<lparr>f_flag = 0, f_type = 0, f_count = 0, f_msgcount = 0, f_data = 0, f_offset = 0\<rparr>,
     lastf = None, devs = 0\<rparr>"

lemma demo_fd_ok: "fd_ok (\<lambda>f. 0) demo_fdtab"
proof -
  have lens: "length (u_ofile demo_fdtab) = NOFILE" "length (u_pofile demo_fdtab) = NOFILE"
    "length (files demo_fdtab) = NFILE"
    by (simp_all add: demo_fdtab_def NOFILE_def NFILE_def)
  have "f_count (files demo_fdtab ! f) = count_list (u_ofile demo_fdtab) (Some f)" if "f < NFILE" for f
    using that by (cases f) (auto simp: demo_fdtab_def NFILE_def count_notin)
  moreover have "fd \<le> 1" if "fd < NOFILE" "u_ofile demo_fdtab ! fd \<noteq> None" for fd
  proof (rule ccontr)
    assume "\<not> fd \<le> 1"
    then obtain k where "fd = Suc (Suc k)" by (metis One_nat_def Suc_leI less_Suc0 not_less_eq_eq not0_implies_Suc not_less_zero nat_le_linear)
    then show False using that by (simp add: demo_fdtab_def NOFILE_def)
  qed
  ultimately show ?thesis using lens
    unfolding fd_ok_def by (auto simp: demo_fdtab_def NFILE_def NOFILE_def)
qed

lemma demo_lowest:
  assumes "u_ofile demo_fdtab ! k = None" "\<forall>l<k. u_ofile demo_fdtab ! l \<noteq> None"
  shows "k = 2"
proof -
  have "u_ofile demo_fdtab ! 0 \<noteq> None" "u_ofile demo_fdtab ! 1 \<noteq> None" "u_ofile demo_fdtab ! 2 = None"
    by (simp_all add: demo_fdtab_def)
  then have "k \<noteq> 0" "k \<noteq> 1" "\<not> 2 < k" using assms by metis+
  then show ?thesis by simp
qed

text \<open>
  C19. Reference counting. After any sequence of dup, dup2, fcntl, close, flock, getdtablesize
  and open calls, whatever the file types, the inode layer and the drivers answer, no call has
  faulted, every file of the table counts exactly the descriptors that refer to it (plus the
  references \<open>ext\<close> of other processes), every descriptor refers to an entry of the table and
  \<open>u_lastfile\<close> is at least the highest open descriptor.
\<close>

theorem descriptor_calls_keep_counts:
  assumes "fd_ok ext s"
  shows "\<exists>s'. fd_run ops cs s = Inr s' \<and> fd_ok ext s'"
  using assms
proof (induction cs arbitrary: s)
  case (Cons c cs)
  obtain s1 where "fd_exec ops c s = Inr s1" "fd_ok ext s1"
    using fd_exec_keeps [OF Cons.prems, of ops c] by (elim exE conjE) (rule that)
  then show ?case using Cons.IH by simp
qed simp

theorem descriptor_calls_keep_counts_witness:
  "fd_ok (\<lambda>f. 0) demo_fdtab \<and>
   (\<exists>s'. fd_run demo_ops [C_close 0, C_dup 1 0, C_copen 2 0 ''/etc/motd''] demo_fdtab = Inr s' \<and> fd_ok (\<lambda>f. 0) s')"
  using demo_fd_ok descriptor_calls_keep_counts [OF demo_fd_ok] by blast

text \<open>
  Duplication. For an open descriptor, fcntl F_DUPFD makes the lowest free descriptor from
  its argument on refer to the same file and returns it, with the close-on-exec bit clear and the
  other descriptors as they were; with none free it fails with EMFILE and changes nothing. dup is
  fcntl F_DUPFD with argument 0, on closed descriptors too.
\<close>

theorem dup_is_lowest_free:
  assumes ok: "fd_ok ext s" and "getf i s = Some fp" and "0 \<le> a" "a < int NOFILE"
  shows "(if \<exists>k. nat a \<le> k \<and> k < NOFILE \<and> u_ofile s ! k = None
          then \<exists>k. nat a \<le> k \<and> k < NOFILE \<and> u_ofile s ! k = None \<and>
                 (\<forall>l. nat a \<le> l \<and> l < k \<longrightarrow> u_ofile s ! l \<noteq> None) \<and>
                 u_ofile (fcntl ops i 0 a s) = (u_ofile s)[k := Some fp] \<and>
                 fd_rval (fcntl ops i 0 a s) = int k \<and>
                 u_pofile (fcntl ops i 0 a s) ! k = u_pofile s ! nat i AND NOT 1 \<and>
                 (\<forall>l<NOFILE. l \<noteq> k \<longrightarrow> u_pofile (fcntl ops i 0 a s) ! l = u_pofile s ! l)
          else fcntl ops i 0 a s = s\<lparr>fd_error := EMFILE\<rparr>) \<and>
         (\<forall>i' j. 0 \<le> i' \<and> i' < 64 \<longrightarrow> dup ops i' j s = fcntl ops i' 0 0 s)"
proof -
  note sh = ok[unfolded fd_ok_iff, THEN conjunct1]
  have len: "length (u_pofile s) = NOFILE" using sh by (simp add: fd_shape_def)
  note g = getf_Some [OF sh assms(2)]
  have eq: "fcntl ops i 0 a s = (case ufalloc (nat a) s of (None, s1) \<Rightarrow> s1
      | (Some k, s1) \<Rightarrow> dupit k fp (u_pofile s1 ! nat i AND NOT UF_EXCLOSE) s1)"
    using assms by (simp add: fcntl_def)
  have "dup ops i' j s = fcntl ops i' 0 0 s" if "0 \<le> i'" "i' < 64" for i' j
    using that by (simp add: dup_def fcntl_def NOFILE_def split: option.splits)
  moreover have "if \<exists>k. nat a \<le> k \<and> k < NOFILE \<and> u_ofile s ! k = None
          then \<exists>k. nat a \<le> k \<and> k < NOFILE \<and> u_ofile s ! k = None \<and>
                 (\<forall>l. nat a \<le> l \<and> l < k \<longrightarrow> u_ofile s ! l \<noteq> None) \<and>
                 u_ofile (fcntl ops i 0 a s) = (u_ofile s)[k := Some fp] \<and>
                 fd_rval (fcntl ops i 0 a s) = int k \<and>
                 u_pofile (fcntl ops i 0 a s) ! k = u_pofile s ! nat i AND NOT 1 \<and>
                 (\<forall>l<NOFILE. l \<noteq> k \<longrightarrow> u_pofile (fcntl ops i 0 a s) ! l = u_pofile s ! l)
          else fcntl ops i 0 a s = s\<lparr>fd_error := EMFILE\<rparr>"
  proof (cases "ufalloc (nat a) s")
    case (Pair r s1)
    show ?thesis
    proof (cases r)
      case None
      note n = ufalloc_None [OF Pair [unfolded None]]
      show ?thesis using n by (auto simp: eq Pair None)
    next
      case (Some k)
      note u = ufalloc_Some [OF sh Pair [unfolded Some]]
      note d = dupit_effect [OF u(1) u(9) g(1)]
      have k: "k \<noteq> nat i" using u(10) g(4) by auto
      have E: "\<exists>k. nat a \<le> k \<and> k < NOFILE \<and> u_ofile s ! k = None" using u(8,9,10) by blast
      show ?thesis unfolding if_P [OF E] eq Pair Some
        using u k len by (intro exI [of _ k]) (auto simp: d nth_list_update)
    qed
  qed
  ultimately show ?thesis by blast
qed

theorem dup_is_lowest_free_witness:
  "u_ofile (fcntl demo_ops 0 0 0 demo_fdtab) ! 2 = Some 0 \<and> u_pofile (fcntl demo_ops 0 0 0 demo_fdtab) ! 2 = 0"
proof -
  have "getf 0 demo_fdtab = Some 0" by (simp add: getf_def demo_fdtab_def NOFILE_def)
  note d = dup_is_lowest_free [OF demo_fd_ok this, of 0 demo_ops]
  have "\<exists>k. nat 0 \<le> k \<and> k < NOFILE \<and> u_ofile demo_fdtab ! k = None"
    by (intro exI [of _ 2]) (simp add: NOFILE_def demo_fdtab_def)
  with d obtain k where k: "k < NOFILE" "u_ofile demo_fdtab ! k = None" "\<forall>l. nat 0 \<le> l \<and> l < k \<longrightarrow> u_ofile demo_fdtab ! l \<noteq> None"
    "u_ofile (fcntl demo_ops 0 0 0 demo_fdtab) = (u_ofile demo_fdtab)[k := Some 0]"
    "u_pofile (fcntl demo_ops 0 0 0 demo_fdtab) ! k = u_pofile demo_fdtab ! nat 0 AND NOT 1"
    by (simp only: if_True) (auto simp: NOFILE_def)
  moreover have "k = 2" using k(2,3) by (intro demo_lowest) auto
  ultimately show ?thesis by (simp add: demo_fdtab_def)
qed

text \<open>
  C20. Closing. Closing an open descriptor frees it, leaves every other descriptor alone and drops
  one reference. While other references remain the file type's close routine is not called and the
  call succeeds; the last close calls it once, with the file whose advisory locks have just been
  released, returns its error and frees the table entry. A second close fails with EBADF.
\<close>

theorem close_last_reference:
  assumes ok: "fd_ok ext s" and op: "getf i s = Some f"
  shows "\<exists>s'. close_fd ops i s = s' \<and> u_ofile s' = (u_ofile s)[nat i := None] \<and>
    fcount s' f = fcount s f - 1 \<and> (\<forall>h<NFILE. h \<noteq> f \<longrightarrow> files s' ! h = files s ! h) \<and>
    (fcount s f > 1 \<longrightarrow> devs s' = devs s \<and> fd_error s' = 0) \<and>
    (fcount s f = 1 \<longrightarrow>
       (\<exists>x d. (if f_flag (files s ! f) AND 0x30 \<noteq> 0 \<and> f_type (files s ! f) = 1
               then \<exists>fl. ino_unlock ops (files s ! f) 0x30 (devs s) = (fl, d) \<and> x = (files s ! f)\<lparr>f_flag := fl\<rparr>
               else d = devs s \<and> x = files s ! f) \<and>
              fo_close ops x d = (fd_error s', devs s'))) \<and>
    close_fd ops i s' = s'\<lparr>fd_error := EBADF\<rparr>"
proof -
  note sh = ok[unfolded fd_ok_iff, THEN conjunct1]
  note g = getf_Some [OF sh op]
  have len: "length (u_ofile s) = NOFILE" "length (files s) = NFILE" using sh by (simp_all add: fd_shape_def)
  have "fcount s f \<ge> 1" using refs_pos [OF sh g(3,4)] ok g(1) by (simp add: fd_ok_iff)
  define os where "os = (u_ofile s)[nat i := None]"
  define s1 where "s1 = s\<lparr>u_ofile := os, u_lastfile := trim_lastfile os (nat (u_lastfile s + 1))\<rparr>"
  obtain e s2 where c: "closef ops (Some f) s1 = (e, s2)" by fastforce
  have s': "close_fd ops i s = s2\<lparr>fd_error := e\<rparr>"
    using c op by (simp add: close_fd_def Let_def s1_def os_def)
  have s1: "files s1 = files s" "devs s1 = devs s" "u_ofile s1 = os" by (simp_all add: s1_def)
  have os: "u_ofile s2 = os" "\<forall>h<NFILE. h \<noteq> f \<longrightarrow> files s2 ! h = files s ! h" "fcount s2 f = fcount s f - 1"
    using c \<open>fcount s f \<ge> 1\<close> g(1) len(2)
    by (auto simp: closef_def Let_def s1 fcount_def nth_list_update split: if_splits prod.splits)
  have many: "fcount s f > 1 \<Longrightarrow> devs s2 = devs s \<and> e = 0"
    using c by (auto simp: closef_def s1 fcount_def)
  have last: "\<exists>x d. (if f_flag (files s ! f) AND 0x30 \<noteq> 0 \<and> f_type (files s ! f) = 1
               then \<exists>fl. ino_unlock ops (files s ! f) 0x30 (devs s) = (fl, d) \<and> x = (files s ! f)\<lparr>f_flag := fl\<rparr>
               else d = devs s \<and> x = files s ! f) \<and> fo_close ops x d = (e, devs s2)" if "fcount s f = 1"
  proof (cases "f_flag (files s ! f) AND 0x30 \<noteq> 0 \<and> f_type (files s ! f) = 1")
    case True
    obtain fl d where u: "ino_unlock ops (files s ! f) 0x30 (devs s) = (fl, d)" by fastforce
    then show ?thesis unfolding if_P [OF True] using c that True g(1) len(2)
      by (intro exI [of _ "(files s ! f)\<lparr>f_flag := fl\<rparr>"] exI [of _ d])
        (auto simp: closef_def Let_def s1 fcount_def u split: prod.splits)
  next
    case False
    then show ?thesis unfolding if_not_P [OF False] using c that
      by (auto simp: closef_def Let_def s1 fcount_def split: prod.splits if_splits)
  qed
  have again: "close_fd ops i (s2\<lparr>fd_error := e\<rparr>) = s2\<lparr>fd_error := EBADF\<rparr>"
    using os(1) g(2,3) len(1) by (simp add: close_fd_def getf_def os_def)
  show ?thesis unfolding s' using os many last again
    by (intro exI [of _ "s2\<lparr>fd_error := e\<rparr>"]) (auto simp: os_def fcount_def)
qed

theorem close_last_reference_witness:
  "fcount demo_fdtab 0 = 2 \<and> devs (close_fd demo_ops 0 demo_fdtab) = 0 \<and> fd_error (close_fd demo_ops 0 demo_fdtab) = 0"
proof -
  have "getf 0 demo_fdtab = Some 0" by (simp add: getf_def demo_fdtab_def NOFILE_def)
  from close_last_reference [OF demo_fd_ok this, of demo_ops]
  have "fcount demo_fdtab 0 > 1 \<longrightarrow> devs (close_fd demo_ops 0 demo_fdtab) = devs demo_fdtab \<and>
    fd_error (close_fd demo_ops 0 demo_fdtab) = 0" by blast
  then show ?thesis by (simp add: fcount_def demo_fdtab_def)
qed

text \<open>
  C21. Opening /dev/fd/N. When the driver answers ENODEV with descriptor \<open>dfd\<close>, open succeeds with
  the lowest free descriptor \<open>k\<close>; if \<open>dfd\<close> is open for the modes asked for, \<open>k\<close> then refers to its
  file. If it is not, the failure of dupfdopen is lost in the misplaced parenthesis of copen:
  open still returns 0, with \<open>k\<close> a closed descriptor.
\<close>

theorem copen_dev_fd:
  assumes ok: "fd_ok ext s" and a: "falloc s = (Some fp, s1)"
    and v: "vn_open ops (FFLAGS mode) (cmode AND 0x7DFF) fname (- fd_rval s1 - 1) (devs s1) = (ENODEV, ip, dfd, d)"
    and dfd: "0 \<le> dfd" "dfd < int NOFILE"
  shows "\<exists>k s'. copen ops mode cmode fname s = Inr (0, s') \<and> k < NOFILE \<and> u_ofile s ! k = None \<and>
    (\<forall>l<k. u_ofile s ! l \<noteq> None) \<and> fd_rval s' = int k \<and>
    u_ofile s' = (u_ofile s)[k := (case u_ofile s ! nat dfd of None \<Rightarrow> None
       | Some w \<Rightarrow> if (FFLAGS mode AND 3) OR f_flag (files s ! w) = f_flag (files s ! w) then Some w else None)]"
proof -
  note sh = ok[unfolded fd_ok_iff, THEN conjunct1]
  obtain k where k: "fd_shape s1" "fp < NFILE" "k < NOFILE" "fd_rval s1 = int k" "u_ofile s ! k = None"
    "u_ofile s1 = (u_ofile s)[k := Some fp]" "fcount s fp = 0" "\<forall>l<k. u_ofile s ! l \<noteq> None"
    "\<forall>h. h \<noteq> fp \<longrightarrow> files s1 ! h = files s ! h"
    by (rule falloc_Some [OF ok a]) (rule that)
  have len: "length (u_ofile s) = NOFILE" "length (files s1) = NFILE" using sh k(1) by (simp_all add: fd_shape_def)
  define flags where "flags = FFLAGS mode"
  define s3 where "s3 = (updfile fp (\<lambda>x. x\<lparr>f_flag := flags AND FMASK, f_type := DTYPE_INODE\<rparr>) s1)
                     \<lparr>u_dupfd := dfd, devs := d\<rparr>"
  define s4 where "s4 = updfile fp (\<lambda>x. x\<lparr>f_count := 0\<rparr>) s3"
  have s4: "u_dupfd s4 = dfd" "u_ofile s4 = (u_ofile s)[k := Some fp]" "fd_rval s4 = int k"
    by (simp_all add: s4_def s3_def k)
  have "copen ops mode cmode fname s = copen_failed fp k flags ENODEV s3"
    using v unfolding s3_def flags_def by (simp add: copen_def a k(4) Let_def)
  also have "\<dots> = kbind (dupfdopen k dfd flags ENODEV s4) (\<lambda>(e, s5).
      if e = 0 then Inr (0, s5\<lparr>fd_rval := int k\<rparr>) else Inr (0, s5\<lparr>u_ofile := (u_ofile s5)[k := None]\<rparr>))"
    using dfd(1) s4(1) unfolding s4_def copen_failed_def Let_def by (auto intro!: arg_cong [of _ _ "kbind _"])
  finally have eq: "copen ops mode cmode fname s = \<dots>" .
  have nd: "nat dfd < NOFILE" using dfd by linarith
  show ?thesis
  proof (cases "u_ofile s ! nat dfd")
    case None
    then have "dupfdopen k dfd flags ENODEV s4 = Inr (EBADF, s4)"
      using dfd nd k(3) len(1) by (auto simp: dupfdopen_def s4(2) nth_list_update split: if_splits)
    then show ?thesis unfolding eq using k(3,5,8) None
      by (intro exI [of _ k] exI [of _ "s4\<lparr>u_ofile := (u_ofile s4)[k := None]\<rparr>"]) (simp add: s4)
  next
    case (Some w)
    have w: "w < NFILE" using sh Some nd len(1) by (metis fd_shape_def nth_mem)
    have "fcount s w \<ge> 1" using refs_pos [OF sh nd Some] ok w by (simp add: fd_ok_iff)
    then have wf: "w \<noteq> fp" using k(7) by auto
    have kd: "k \<noteq> nat dfd" using Some k(5) by auto
    have fw: "files s4 ! w = files s ! w" using wf k(9) by (simp add: s4_def s3_def)
    define s7 where "s7 = updfile w (\<lambda>x. x\<lparr>f_count := f_count x + 1\<rparr>)
        (s4\<lparr>u_ofile := (u_ofile s4)[k := Some w], u_pofile := (u_pofile s4)[k := u_pofile s4 ! nat dfd],
           u_lastfile := (if int k > u_lastfile s4 then int k else u_lastfile s4)\<rparr>)"
    have "dupfdopen k dfd flags ENODEV s4 =
        (if (flags AND (FREAD OR FWRITE)) OR f_flag (files s ! w) \<noteq> f_flag (files s ! w)
         then Inr (EACCES, s4) else Inr (0, s7))"
      using dfd Some wf kd k(3) len(1) unfolding dupfdopen_def s7_def by (simp add: s4(2) fw)
    then show ?thesis unfolding eq using k(3,5,8) Some
      by (intro exI [of _ k] exI [of _ "if (flags AND (FREAD OR FWRITE)) OR f_flag (files s ! w) \<noteq> f_flag (files s ! w)
           then s4\<lparr>u_ofile := (u_ofile s4)[k := None]\<rparr> else s7\<lparr>fd_rval := int k\<rparr>"])
        (auto simp: s4 s7_def flags_def)
  qed
qed

theorem copen_dev_fd_witness:
  "\<exists>s'. copen demo_ops 0 0 ''/dev/fd/7'' demo_fdtab = Inr (0, s') \<and> fd_rval s' = 2 \<and> u_ofile s' ! 2 = None"
proof -
  obtain s1 where a: "falloc demo_fdtab = (Some 1, s1)" and r: "fd_rval s1 = 2"
    by (simp add: falloc_def ufalloc_def demo_fdtab_def NOFILE_def NFILE_def upt_rec numeral_eq_Suc Let_def)
  have "vn_open demo_ops (FFLAGS 0) (0 AND 0x7DFF) ''/dev/fd/7'' (- fd_rval s1 - 1) (devs s1) = (ENODEV, 0, 7, devs s1)"
    by (simp add: demo_ops_def)
  from copen_dev_fd [OF demo_fd_ok a this] obtain k s' where
    k: "copen demo_ops 0 0 ''/dev/fd/7'' demo_fdtab = Inr (0, s')" "u_ofile demo_fdtab ! k = None"
      "\<forall>l<k. u_ofile demo_fdtab ! l \<noteq> None" "fd_rval s' = int k"
      "u_ofile s' = (u_ofile demo_fdtab)[k := (case u_ofile demo_fdtab ! nat 7 of None \<Rightarrow> None
       | Some w \<Rightarrow> if (FFLAGS 0 AND 3) OR f_flag (files demo_fdtab ! w) = f_flag (files demo_fdtab ! w) then Some w else None)]"
    by (auto simp: NOFILE_def)
  have "k = 2" using k(2,3) by (intro demo_lowest) auto
  then show ?thesis using k by (simp add: demo_fdtab_def)
qed

end
