(* ===== verification/Bio.thy ===== *)
theory Bio
  imports Kernel_Prelude
begin

text \<open>
  The buffer cache (sys/kernel/ufs_bio.c, sys/include/buf.h): the pool of block buffers, the
  hash chains that find a block, the free lists that say which buffer is reused next, and
  the calls that read, write and release buffers. A buffer pointer is its index in the pool,
  a circular doubly linked list is the list of the indices on it. The words of \<^verbatim>\<open>b_flags\<close> are
  used by name only, so they are a set of flags. A call that goes to sleep stops with
  \<open>BSleep\<close> and the channel it waits for.

  The driver is a parameter: its \<^verbatim>\<open>d_strategy\<close> gets the buffer and says what the transfer
  left in it and whether it called \<^verbatim>\<open>biodone\<close> before it returned; \<open>None\<close> is an access outside
  an object in the driver.
\<close>

section \<open>Model\<close>

datatype bflag =
  B_READ | B_DONE | B_ERROR | B_BUSY | B_PHYS | B_MAP | B_WANTED | B_AGE | B_ASYNC | B_DELWRI
  | B_TAPE | B_INVAL | B_BAD | B_LOCKED | B_UBAREMAP | B_RAMREMAP

text \<open>
  The channels that processes sleep on: a buffer, the head of the free lists, and the two locks
  of a super block. \<open>b_data\<close> is the block of 256 words at \<^verbatim>\<open>b_addr\<close>, the memory of \<^verbatim>\<open>bufdata\<close> that the buffer owns.
\<close>

record kbuf =
  b_flags :: "bflag set"
  b_bcount :: nat
  b_error :: int
  b_dev :: int
  b_data :: "u32 list"
  b_blkno :: int
  b_resid :: nat

datatype bchan = BufChan nat | FreeChan | FlockChan | IlockChan
datatype bstop = BPanic string | BFault | BSleep bchan

abbreviation (input) NODEV :: int where "NODEV \<equiv> -1"
abbreviation (input) DEV_BSIZE :: nat where "DEV_BSIZE \<equiv> 1024"
abbreviation (input) BQ_LOCKED :: nat where "BQ_LOCKED \<equiv> 0"
abbreviation (input) BQ_LRU :: nat where "BQ_LRU \<equiv> 1"
abbreviation (input) BQ_AGE :: nat where "BQ_AGE \<equiv> 2"
abbreviation (input) EIO :: int where "EIO \<equiv> 5"

text \<open>
  \<open>hashq\<close> holds the 16 chains of \<^verbatim>\<open>bufhash\<close> and, last, the chain whose head is
  \<^verbatim>\<open>bfreelist[BQ_AGE]\<close> (for buffers that belong to no block); \<open>freeq\<close> the three free lists,
  \<open>free_wanted\<close> the flag \<^verbatim>\<open>B_WANTED\<close> of \<^verbatim>\<open>bfreelist[0]\<close>. \<open>woken\<close> records the calls of
  \<^verbatim>\<open>wakeup\<close>, \<open>bdevs\<close> is the state of the drivers.
\<close>

record 'd bcache =
  bufs :: "kbuf list"
  hashq :: "nat list list"
  freeq :: "nat list list"
  free_wanted :: bool
  woken :: "bchan list"
  bu_error :: int
  ru_inblock :: nat
  ru_oublock :: nat
  bdevs :: 'd

type_synonym ('a, 'd) bres = "(bstop + 'a) \<times> 'd bcache"

text \<open>What a transfer leaves in the buffer.\<close>

record xfer =
  x_data :: "u32 list"
  x_failed :: bool
  x_error :: int
  x_resid :: nat
  x_done :: bool

type_synonym 'd strategy = "kbuf \<Rightarrow> 'd \<Rightarrow> (xfer \<times> 'd) option"

definition bbind :: "('a, 'd) bres \<Rightarrow> ('a \<Rightarrow> 'd bcache \<Rightarrow> ('b, 'd) bres) \<Rightarrow> ('b, 'd) bres" where
  "bbind r f = (case r of (Inl e, s) \<Rightarrow> (Inl e, s) | (Inr x, s) \<Rightarrow> f x s)"

lemma bbind_simps [simp]:
  "bbind (Inl e, s) f = (Inl e, s)"
  "bbind (Inr x, s) f = f x s"
  by (simp_all add: bbind_def)

definition BUFHASH :: "int \<Rightarrow> int \<Rightarrow> nat" where
  "BUFHASH dev bn = nat ((dev + bn) mod 16)"

definition updbuf :: "nat \<Rightarrow> (kbuf \<Rightarrow> kbuf) \<Rightarrow> 'd bcache \<Rightarrow> 'd bcache" where
  "updbuf i g s = s\<lparr>bufs := (bufs s)[i := g (bufs s ! i)]\<rparr>"

definition setf :: "nat \<Rightarrow> bflag set \<Rightarrow> 'd bcache \<Rightarrow> 'd bcache" where
  "setf i m s = updbuf i (\<lambda>b. b\<lparr>b_flags := b_flags b \<union> m\<rparr>) s"

definition clrf :: "nat \<Rightarrow> bflag set \<Rightarrow> 'd bcache \<Rightarrow> 'd bcache" where
  "clrf i m s = updbuf i (\<lambda>b. b\<lparr>b_flags := b_flags b - m\<rparr>) s"

definition bremfree :: "nat \<Rightarrow> 'd bcache \<Rightarrow> 'd bcache" where
  "bremfree i s = s\<lparr>freeq := map (removeAll i) (freeq s)\<rparr>"

definition binsheadfree :: "nat \<Rightarrow> nat \<Rightarrow> 'd bcache \<Rightarrow> 'd bcache" where
  "binsheadfree i q s = s\<lparr>freeq := (freeq s)[q := i # freeq s ! q]\<rparr>"

definition binstailfree :: "nat \<Rightarrow> nat \<Rightarrow> 'd bcache \<Rightarrow> 'd bcache" where
  "binstailfree i q s = s\<lparr>freeq := (freeq s)[q := freeq s ! q @ [i]]\<rparr>"

definition bremhash :: "nat \<Rightarrow> 'd bcache \<Rightarrow> 'd bcache" where
  "bremhash i s = s\<lparr>hashq := map (removeAll i) (hashq s)\<rparr>"

definition binshash :: "nat \<Rightarrow> nat \<Rightarrow> 'd bcache \<Rightarrow> 'd bcache" where
  "binshash i h s = s\<lparr>hashq := (hashq s)[h := i # hashq s ! h]\<rparr>"

text \<open>Unlinking a buffer that is on no free list would corrupt the lists: a fault.\<close>

definition notavail :: "nat \<Rightarrow> 'd bcache \<Rightarrow> (unit, 'd) bres" where
  "notavail i s =
     (if i < length (bufs s) \<and> i \<in> set (concat (freeq s))
      then (Inr (), setf i {B_BUSY} (bremfree i s)) else (Inl BFault, s))"

definition bwakeup :: "bchan \<Rightarrow> 'd bcache \<Rightarrow> 'd bcache" where
  "bwakeup c s = s\<lparr>woken := woken s @ [c]\<rparr>"

definition brelse :: "nat \<Rightarrow> 'd bcache \<Rightarrow> 'd bcache" where
  "brelse i s =
     (let s1 = (if B_WANTED \<in> b_flags (bufs s ! i) then bwakeup (BufChan i) s else s);
          s2 = (if free_wanted s1 then bwakeup FreeChan (s1\<lparr>free_wanted := False\<rparr>) else s1);
          s3 = (if B_ERROR \<in> b_flags (bufs s2 ! i)
                then if B_LOCKED \<in> b_flags (bufs s2 ! i) then clrf i {B_ERROR} s2
                     else updbuf i (\<lambda>b. b\<lparr>b_dev := NODEV\<rparr>) s2
                else s2);
          fl = b_flags (bufs s3 ! i);
          s4 = (if B_ERROR \<in> fl \<or> B_INVAL \<in> fl then binsheadfree i BQ_AGE s3
                else binstailfree i (if B_LOCKED \<in> fl then BQ_LOCKED
                                     else if B_AGE \<in> fl then BQ_AGE else BQ_LRU) s3) in
      clrf i {B_WANTED, B_BUSY, B_ASYNC, B_AGE} s4)"

definition biodone :: "nat \<Rightarrow> 'd bcache \<Rightarrow> (unit, 'd) bres" where
  "biodone i s =
     (if B_DONE \<in> b_flags (bufs s ! i) then (Inl (BPanic ''dup biodone''), s)
      else let s1 = setf i {B_DONE} s in
        (Inr (), if B_ASYNC \<in> b_flags (bufs s1 ! i) then brelse i s1
                 else bwakeup (BufChan i) (clrf i {B_WANTED} s1)))"

text \<open>The indirect call of the driver's \<^verbatim>\<open>d_strategy\<close>.\<close>

definition xfer_end :: "xfer \<Rightarrow> kbuf \<Rightarrow> kbuf" where
  "xfer_end x b = b\<lparr>b_data := x_data x, b_resid := x_resid x, b_error := x_error x,
     b_flags := (if x_failed x then insert B_ERROR (b_flags b) else b_flags b)\<rparr>"

definition d_strategy :: "'d strategy \<Rightarrow> nat \<Rightarrow> 'd bcache \<Rightarrow> (unit, 'd) bres" where
  "d_strategy st i s =
     (case st (bufs s ! i) (bdevs s) of None \<Rightarrow> (Inl BFault, s)
      | Some (x, d) \<Rightarrow>
          let s1 = updbuf i (xfer_end x) (s\<lparr>bdevs := d\<rparr>) in
          if x_done x then biodone i s1 else (Inr (), s1))"

definition geterror :: "kbuf \<Rightarrow> int" where
  "geterror b = (if B_ERROR \<in> b_flags b then if b_error b = 0 then EIO else b_error b else 0)"

definition biowait :: "nat \<Rightarrow> 'd bcache \<Rightarrow> (unit, 'd) bres" where
  "biowait i s =
     (if B_DONE \<notin> b_flags (bufs s ! i) then (Inl (BSleep (BufChan i)), s)
      else (Inr (), if bu_error s = 0 then s\<lparr>bu_error := geterror (bufs s ! i)\<rparr> else s))"

definition bwrite_setup :: "nat \<Rightarrow> 'd bcache \<Rightarrow> 'd bcache" where
  "bwrite_setup i s =
     (let flag = b_flags (bufs s ! i);
          s1 = clrf i {B_READ, B_DONE, B_ERROR, B_DELWRI} s;
          s2 = (if B_DELWRI \<notin> flag then s1\<lparr>ru_oublock := ru_oublock s1 + 1\<rparr> else s1) in
      updbuf i (\<lambda>b. b\<lparr>b_bcount := DEV_BSIZE\<rparr>) s2)"

definition bwrite :: "'d strategy \<Rightarrow> nat \<Rightarrow> 'd bcache \<Rightarrow> (unit, 'd) bres" where
  "bwrite st i s =
     (let flag = b_flags (bufs s ! i) in
      bbind (d_strategy st i (bwrite_setup i s)) (\<lambda>_ s1.
        if B_ASYNC \<notin> flag then bbind (biowait i s1) (\<lambda>_ s2. (Inr (), brelse i s2))
        else (Inr (), if B_DELWRI \<in> flag then setf i {B_AGE} s1 else s1)))"

definition bawrite :: "'d strategy \<Rightarrow> nat \<Rightarrow> 'd bcache \<Rightarrow> (unit, 'd) bres" where
  "bawrite st i s = bwrite st i (setf i {B_ASYNC} s)"

text \<open>The column \<^verbatim>\<open>d_flags\<close> of \<^verbatim>\<open>bdevsw\<close> (sys/pic32/devsw.c): no block device is a tape.\<close>

definition d_flags :: "int \<Rightarrow> bflag set" where
  "d_flags dev = {}"

definition bdwrite :: "'d strategy \<Rightarrow> nat \<Rightarrow> 'd bcache \<Rightarrow> (unit, 'd) bres" where
  "bdwrite st i s =
     (let s1 = (if B_DELWRI \<notin> b_flags (bufs s ! i) then s\<lparr>ru_oublock := ru_oublock s + 1\<rparr> else s) in
      if B_TAPE \<in> d_flags (b_dev (bufs s1 ! i)) then bawrite st i s1
      else (Inr (), brelse i (setf i {B_DELWRI, B_DONE} s1)))"

text \<open>The block that a buffer holds and whether the cache finds it there.\<close>

definition holds :: "int \<Rightarrow> int \<Rightarrow> kbuf \<Rightarrow> bool" where
  "holds dev blkno b \<longleftrightarrow> b_blkno b = blkno \<and> b_dev b = dev \<and> B_INVAL \<notin> b_flags b"

definition incore :: "int \<Rightarrow> int \<Rightarrow> 'd bcache \<Rightarrow> bool" where
  "incore dev blkno s =
     (find (\<lambda>i. holds dev blkno (bufs s ! i)) (hashq s ! BUFHASH dev blkno) \<noteq> None)"

definition first_free :: "'d bcache \<Rightarrow> nat option" where
  "first_free s =
     (if freeq s ! BQ_AGE \<noteq> [] then Some (hd (freeq s ! BQ_AGE))
      else if freeq s ! BQ_LRU \<noteq> [] then Some (hd (freeq s ! BQ_LRU)) else None)"

definition dirty :: "'d bcache \<Rightarrow> nat set" where
  "dirty s = {i. i < length (bufs s) \<and> B_DELWRI \<in> b_flags (bufs s ! i)}"

section \<open>What an operation changes\<close>

lemma bufs_updbuf [simp]:
  "bufs (updbuf i g s) = (bufs s)[i := g (bufs s ! i)]"
  "hashq (updbuf i g s) = hashq s" "freeq (updbuf i g s) = freeq s"
  "bdevs (updbuf i g s) = bdevs s" "free_wanted (updbuf i g s) = free_wanted s"
  "bu_error (updbuf i g s) = bu_error s"
  by (simp_all add: updbuf_def)

text \<open>Every operation keeps the size of the pool; a write clears \<^verbatim>\<open>B_DELWRI\<close> and sets it nowhere.\<close>

lemma brelse_bufs:
  "i < length (bufs s) \<Longrightarrow> bufs (brelse i s) = (bufs s)[i := (let b = bufs s ! i in
     if B_ERROR \<in> b_flags b then
       if B_LOCKED \<in> b_flags b then b\<lparr>b_flags := b_flags b - {B_ERROR, B_WANTED, B_BUSY, B_ASYNC, B_AGE}\<rparr>
       else b\<lparr>b_dev := NODEV, b_flags := b_flags b - {B_WANTED, B_BUSY, B_ASYNC, B_AGE}\<rparr>
     else b\<lparr>b_flags := b_flags b - {B_WANTED, B_BUSY, B_ASYNC, B_AGE}\<rparr>)]"
  by (simp add: brelse_def Let_def setf_def clrf_def bwakeup_def binsheadfree_def binstailfree_def
      set_diff_eq)

lemma biodone_bufs:
  assumes "biodone i s = (r, s')" and "i < length (bufs s)"
  shows "\<exists>b. bufs s' = (bufs s)[i := b] \<and> (B_DELWRI \<in> b_flags b \<longleftrightarrow> B_DELWRI \<in> b_flags (bufs s ! i))"
proof (cases "B_DONE \<in> b_flags (bufs s ! i)")
  case True
  with assms show ?thesis
    by (intro exI [of _ "bufs s ! i"]) (simp add: biodone_def)
next
  case False
  with assms show ?thesis
    by (auto simp: biodone_def Let_def setf_def clrf_def bwakeup_def brelse_bufs split: if_splits)
qed

lemma xfer_end_flag [simp]:
  "f \<noteq> B_ERROR \<Longrightarrow> f \<in> b_flags (xfer_end x b) \<longleftrightarrow> f \<in> b_flags b"
  by (simp add: xfer_end_def)

lemma d_strategy_bufs:
  assumes "d_strategy st i s = (r, s')" and "i < length (bufs s)"
  shows "\<exists>b. bufs s' = (bufs s)[i := b] \<and> (B_DELWRI \<in> b_flags b \<longleftrightarrow> B_DELWRI \<in> b_flags (bufs s ! i))"
proof (cases "st (bufs s ! i) (bdevs s)")
  case None
  with assms show ?thesis
    by (intro exI [of _ "bufs s ! i"]) (simp add: d_strategy_def)
next
  case (Some p)
  obtain x d where st: "st (bufs s ! i) (bdevs s) = Some (x, d)" using Some by (cases p) simp
  let ?s1 = "updbuf i (xfer_end x) (s\<lparr>bdevs := d\<rparr>)"
  have e: "(if x_done x then biodone i ?s1 else (Inr (), ?s1)) = (r, s')"
    using assms(1) st by (simp add: d_strategy_def Let_def)
  show ?thesis
  proof (cases "x_done x")
    case True
    with e have bd: "biodone i ?s1 = (r, s')" by simp
    from biodone_bufs [OF bd] assms(2) show ?thesis
      by (simp only: bufs_updbuf length_list_update nth_list_update_eq list_update_overwrite) auto
  next
    case False
    with e assms(2) show ?thesis by auto
  qed
qed

lemma bwrite_setup_bufs:
  "bufs (bwrite_setup i s) = (bufs s)[i := (bufs s ! i)\<lparr>
     b_flags := b_flags (bufs s ! i) - {B_READ, B_DONE, B_ERROR, B_DELWRI}, b_bcount := DEV_BSIZE\<rparr>]"
  by (cases "i < length (bufs s)")
    (simp_all add: bwrite_setup_def Let_def clrf_def updbuf_def list_update_beyond)

lemma bwrite_bufs:
  assumes w: "bwrite st i s = (r, s')" and i: "i < length (bufs s)"
  shows "\<exists>b. bufs s' = (bufs s)[i := b] \<and> B_DELWRI \<notin> b_flags b"
proof -
  obtain r4 s4 where d: "d_strategy st i (bwrite_setup i s) = (r4, s4)" by fastforce
  from i obtain b where b: "bufs s4 = (bufs s)[i := b]" "B_DELWRI \<notin> b_flags b"
    using d_strategy_bufs [OF d] by (auto simp: bwrite_setup_bufs)
  show ?thesis
  proof (cases r4)
    case (Inl e)
    with b d w show ?thesis by (auto simp: bwrite_def Let_def)
  next
    case (Inr u)
    with b d w i show ?thesis
      by (auto simp: bwrite_def biowait_def brelse_bufs Let_def setf_def split: if_splits)
  qed
qed

lemma bwrite_dirty:
  assumes w: "bwrite st i s = (r, s')" and i: "i < length (bufs s)"
  shows "dirty s' = dirty s - {i}" and "length (bufs s') = length (bufs s)"
  using bwrite_bufs [OF w i] i by (auto simp: dirty_def nth_list_update split: if_splits)

lemma finite_dirty [simp]: "finite (dirty s)"
  by (simp add: dirty_def)

section \<open>Allocation of buffers and the calls above it\<close>

text \<open>
  Getting a free buffer: one that waits to be written is written first. With no free buffer
  the process sleeps and starts over when it is woken.
\<close>

function getnewbuf :: "'d strategy \<Rightarrow> 'd bcache \<Rightarrow> (nat, 'd) bres" where
  "getnewbuf st s =
     (case first_free s of
        None \<Rightarrow> (Inl (BSleep FreeChan), s\<lparr>free_wanted := True\<rparr>)
      | Some i \<Rightarrow>
          (case notavail i s of
             (Inl e, s1) \<Rightarrow> (Inl e, s1)
           | (Inr _, s1) \<Rightarrow>
               if B_DELWRI \<in> b_flags (bufs s1 ! i)
               then (case bawrite st i s1 of
                       (Inl e, s2) \<Rightarrow> (Inl e, s2)
                     | (Inr _, s2) \<Rightarrow> getnewbuf st s2)
               else (Inr i, updbuf i (\<lambda>b. b\<lparr>b_flags := {B_BUSY}\<rparr>) s1)))"
  by pat_completeness auto

lemma notavail_dirty:
  assumes "notavail i s = (Inr u, s1)"
  shows "i < length (bufs s)" and "length (bufs s1) = length (bufs s)" and "dirty s1 = dirty s"
  using assms
  by (auto simp: notavail_def setf_def bremfree_def dirty_def nth_list_update split: if_splits)

lemma bawrite_dirty:
  assumes "bawrite st i s = (r, s')" and "i < length (bufs s)"
  shows "dirty s' = dirty s - {i}" and "length (bufs s') = length (bufs s)"
  using bwrite_dirty [of st i "setf i {B_ASYNC} s" r s'] assms
  by (auto simp: bawrite_def setf_def dirty_def nth_list_update)

lemma getnewbuf_progress:
  assumes n: "notavail i s = (Inr u, s1)" and d: "B_DELWRI \<in> b_flags (bufs s1 ! i)"
    and w: "bawrite st i s1 = (Inr v, s2)"
  shows "card (dirty s2) < card (dirty s)"
proof -
  note nd = notavail_dirty [OF n]
  have "dirty s2 = dirty s - {i}" "i \<in> dirty s"
    using bawrite_dirty [OF w] nd d by (auto simp: dirty_def)
  then show ?thesis using card_Diff1_less [of "dirty s" i] by simp
qed

termination getnewbuf
  by (relation "measure (\<lambda>(st, s). card (dirty s))") (auto dest: sym getnewbuf_progress)

declare getnewbuf.simps [simp del]

text \<open>
  \<^verbatim>\<open>getblk\<close> after a miss. A process that slept in \<open>getnewbuf\<close> resumes here, not at the search
  of the hash chain.
\<close>

definition getblk_new :: "'d strategy \<Rightarrow> int \<Rightarrow> int \<Rightarrow> 'd bcache \<Rightarrow> (nat, 'd) bres" where
  "getblk_new st dev blkno s =
     bbind (getnewbuf st s) (\<lambda>i s1.
       (Inr i, updbuf i (\<lambda>b. b\<lparr>b_bcount := 0, b_dev := dev, b_blkno := blkno, b_error := 0\<rparr>)
                 (binshash i (BUFHASH dev blkno) (bremhash i s1))))"

definition getblk :: "'d strategy \<Rightarrow> int \<Rightarrow> int \<Rightarrow> 'd bcache \<Rightarrow> (nat, 'd) bres" where
  "getblk st dev blkno s =
     (case find (\<lambda>i. holds dev blkno (bufs s ! i)) (hashq s ! BUFHASH dev blkno) of
        Some i \<Rightarrow>
          if B_BUSY \<in> b_flags (bufs s ! i) then (Inl (BSleep (BufChan i)), setf i {B_WANTED} s)
          else bbind (notavail i s) (\<lambda>_ s1. (Inr i, s1))
      | None \<Rightarrow> getblk_new st dev blkno s)"

definition geteblk :: "'d strategy \<Rightarrow> 'd bcache \<Rightarrow> (nat, 'd) bres" where
  "geteblk st s =
     bbind (getnewbuf st s) (\<lambda>i s1.
       (Inr i, updbuf i (\<lambda>b. b\<lparr>b_flags := insert B_INVAL (b_flags b), b_bcount := 0,
                    b_dev := NODEV, b_error := 0\<rparr>) (binshash i 16 (bremhash i s1))))"

text \<open>Starting a read: the flags, the count and the call of the driver.\<close>

definition bstart_read :: "'d strategy \<Rightarrow> bflag set \<Rightarrow> nat \<Rightarrow> 'd bcache \<Rightarrow> (unit, 'd) bres" where
  "bstart_read st m i s =
     bbind (d_strategy st i (updbuf i (\<lambda>b. b\<lparr>b_flags := b_flags b \<union> m, b_bcount := DEV_BSIZE\<rparr>) s))
       (\<lambda>_ s1. (Inr (), s1\<lparr>ru_inblock := ru_inblock s1 + 1\<rparr>))"

definition bread :: "'d strategy \<Rightarrow> int \<Rightarrow> int \<Rightarrow> 'd bcache \<Rightarrow> (nat, 'd) bres" where
  "bread st dev blkno s =
     bbind (getblk st dev blkno s) (\<lambda>i s1.
       if b_flags (bufs s1 ! i) \<inter> {B_DONE, B_DELWRI} \<noteq> {} then (Inr i, s1)
       else bbind (bstart_read st {B_READ} i s1) (\<lambda>_ s2.
              bbind (biowait i s2) (\<lambda>_ s3. (Inr i, s3))))"

definition breada_first :: "'d strategy \<Rightarrow> int \<Rightarrow> int \<Rightarrow> 'd bcache \<Rightarrow> (nat option, 'd) bres" where
  "breada_first st dev blkno s =
     (if incore dev blkno s then (Inr None, s)
      else bbind (getblk st dev blkno s) (\<lambda>i s1.
             if b_flags (bufs s1 ! i) \<inter> {B_DONE, B_DELWRI} = {}
             then bbind (bstart_read st {B_READ} i s1) (\<lambda>_ s2. (Inr (Some i), s2))
             else (Inr (Some i), s1)))"

definition breada_ahead :: "'d strategy \<Rightarrow> int \<Rightarrow> int \<Rightarrow> 'd bcache \<Rightarrow> (unit, 'd) bres" where
  "breada_ahead st dev rablkno s =
     (if rablkno = 0 \<or> incore dev rablkno s then (Inr (), s)
      else bbind (getblk st dev rablkno s) (\<lambda>i s1.
             if b_flags (bufs s1 ! i) \<inter> {B_DONE, B_DELWRI} \<noteq> {} then (Inr (), brelse i s1)
             else bstart_read st {B_READ, B_ASYNC} i s1))"

definition breada :: "'d strategy \<Rightarrow> int \<Rightarrow> int \<Rightarrow> int \<Rightarrow> 'd bcache \<Rightarrow> (nat, 'd) bres" where
  "breada st dev blkno rablkno s =
     bbind (breada_first st dev blkno s) (\<lambda>bp s1.
       bbind (breada_ahead st dev rablkno s1) (\<lambda>_ s2.
         case bp of None \<Rightarrow> bread st dev blkno s2
         | Some i \<Rightarrow> bbind (biowait i s2) (\<lambda>_ s3. (Inr i, s3))))"

text \<open>
  \<^verbatim>\<open>blkflush\<close>: buffers of the block that are neither in use nor waiting to be written are passed
  over.
\<close>

function blkflush :: "'d strategy \<Rightarrow> int \<Rightarrow> int \<Rightarrow> 'd bcache \<Rightarrow> (unit, 'd) bres" where
  "blkflush st dev blkno s =
     (case find (\<lambda>i. holds dev blkno (bufs s ! i) \<and> b_flags (bufs s ! i) \<inter> {B_BUSY, B_DELWRI} \<noteq> {})
             (hashq s ! BUFHASH dev blkno) of
        None \<Rightarrow> (Inr (), s)
      | Some i \<Rightarrow>
          if B_BUSY \<in> b_flags (bufs s ! i) then (Inl (BSleep (BufChan i)), setf i {B_WANTED} s)
          else (case notavail i s of
                  (Inl e, s1) \<Rightarrow> (Inl e, s1)
                | (Inr _, s1) \<Rightarrow>
                    (case bwrite st i s1 of
                       (Inl e, s2) \<Rightarrow> (Inl e, s2)
                     | (Inr _, s2) \<Rightarrow> blkflush st dev blkno s2)))"
  by pat_completeness auto

lemma bwrite_progress:
  assumes n: "notavail i s = (Inr u, s1)" and d: "B_DELWRI \<in> b_flags (bufs s ! i)"
    and w: "bwrite st i s1 = (Inr v, s2)"
  shows "card (dirty s2) < card (dirty s)"
proof -
  note nd = notavail_dirty [OF n]
  have "dirty s2 = dirty s - {i}" "i \<in> dirty s"
    using bwrite_dirty [OF w] nd d by (auto simp: dirty_def)
  then show ?thesis using card_Diff1_less [of "dirty s" i] by simp
qed

termination blkflush
  by (relation "measure (\<lambda>(st, dev, blkno, s). card (dirty s))")
    (auto simp: find_Some_iff dest!: sym [of _ "find _ _"] sym [of _ "notavail _ _"] sym [of _ "bwrite _ _ _"] intro: bwrite_progress)

declare blkflush.simps [simp del]

function bflush :: "'d strategy \<Rightarrow> int \<Rightarrow> 'd bcache \<Rightarrow> (unit, 'd) bres" where
  "bflush st dev s =
     (case find (\<lambda>i. B_DELWRI \<in> b_flags (bufs s ! i) \<and> b_dev (bufs s ! i) = dev)
             (concat (freeq s)) of
        None \<Rightarrow> (Inr (), s)
      | Some i \<Rightarrow>
          (case notavail i (setf i {B_ASYNC} s) of
             (Inl e, s1) \<Rightarrow> (Inl e, s1)
           | (Inr _, s1) \<Rightarrow>
               (case bwrite st i s1 of
                  (Inl e, s2) \<Rightarrow> (Inl e, s2)
                | (Inr _, s2) \<Rightarrow> bflush st dev s2)))"
  by pat_completeness auto

lemma setf_async_dirty [simp]: "dirty (setf i {B_ASYNC} s) = dirty s"
  by (cases "i < length (bufs s)") (auto simp: dirty_def setf_def nth_list_update list_update_beyond)

lemma setf_async_flags [simp]:
  "B_DELWRI \<in> b_flags (bufs (setf i {B_ASYNC} s) ! j) \<longleftrightarrow> B_DELWRI \<in> b_flags (bufs s ! j)"
  by (cases "i < length (bufs s)") (auto simp: setf_def nth_list_update list_update_beyond)

lemma bflush_progress:
  assumes n: "notavail i (setf i {B_ASYNC} s) = (Inr u, s1)" and d: "B_DELWRI \<in> b_flags (bufs s ! i)"
    and w: "bwrite st i s1 = (Inr v, s2)"
  shows "card (dirty s2) < card (dirty s)"
  using bwrite_progress [OF n _ w] d by simp

termination bflush
  by (relation "measure (\<lambda>(st, dev, s). card (dirty s))")
    (auto simp: find_Some_iff dest!: sym [of _ "find _ _"] sym [of _ "notavail _ _"] sym [of _ "bwrite _ _ _"] intro: bflush_progress)

declare bflush.simps [simp del]

text \<open>The inner loop of \<^verbatim>\<open>binval\<close> over one chain, and the loop over the chains.\<close>

definition binval_chain :: "int \<Rightarrow> nat list \<Rightarrow> 'd bcache \<Rightarrow> 'd bcache" where
  "binval_chain dev is s =
     fold (\<lambda>i s. if b_dev (bufs s ! i) = dev then setf i {B_INVAL} s else s) is s"

definition binval :: "int \<Rightarrow> 'd bcache \<Rightarrow> 'd bcache" where
  "binval dev s = fold (\<lambda>h s. binval_chain dev (hashq s ! h) s) [0..<16] s"

text \<open>\<^verbatim>\<open>bhinit\<close> and \<^verbatim>\<open>binit\<close> (sys/kernel/init_main.c), for a pool of \<open>n\<close> buffers.\<close>

definition binit :: "'d \<Rightarrow> kbuf list \<Rightarrow> 'd bcache" where
  "binit d bs =
     fold (\<lambda>i s. brelse i (updbuf i (\<lambda>b. b\<lparr>b_dev := NODEV, b_bcount := 0,
                              b_flags := {B_BUSY, B_INVAL}\<rparr>) (binshash i 16 s)))
       [0..<length bs]
       \<lparr>bufs = bs, hashq = replicate 17 [], freeq = replicate 3 [], free_wanted = False,
        woken = [], bu_error = 0, ru_inblock = 0, ru_oublock = 0, bdevs = d\<rparr>"

end
