(* ===== verification/Bio_Cache.thy ===== *)
theory Bio_Cache
  imports Bio
begin

text \<open>
  Correctness of the buffer cache: the contract of a working block device, the invariant of
  the pool, its hash chains and free lists, and the proof that every call of the cache acts on
  the logical contents of the disk as if there were no cache.
\<close>

section \<open>Lists of lists\<close>

definition occ :: "'a list list \<Rightarrow> 'a \<Rightarrow> nat" where
  "occ ls j = sum_list (map (\<lambda>l. count_list l j) ls)"

lemma occ_pos: "0 < occ ls j \<longleftrightarrow> j \<in> set (concat ls)"
  by (induction ls) (auto simp: occ_def count_list_0_iff)

lemma occ_update:
  assumes "q < length ls"
  shows "occ (ls[q := l]) j = occ ls j + count_list l j - count_list (ls ! q) j"
  using assms by (simp add: occ_def map_update sum_list_update)

lemma count_list_nth_le: "q < length ls \<Longrightarrow> count_list (ls ! q) j \<le> occ ls j"
  unfolding occ_def by (rule member_le_sum_list) simp_all

lemma occ_append: "q < length ls \<Longrightarrow> occ (ls[q := ls ! q @ [i]]) j = occ ls j + (if i = j then 1 else 0)"
  using count_list_nth_le [of q ls j] by (simp add: occ_update)

lemma occ_Cons: "q < length ls \<Longrightarrow> occ (ls[q := i # ls ! q]) j = occ ls j + (if i = j then 1 else 0)"
  using count_list_nth_le [of q ls j] by (simp add: occ_update)

lemma count_list_removeAll: "count_list (removeAll i l) j = (if i = j then 0 else count_list l j)"
  by (induction l) auto

lemma occ_removeAll: "occ (map (removeAll i) ls) j = (if i = j then 0 else occ ls j)"
  by (induction ls) (simp_all add: occ_def count_list_removeAll)

lemma occ_nth: "0 < occ ls j \<Longrightarrow> \<exists>q<length ls. j \<in> set (ls ! q)"
  by (auto simp: occ_pos in_set_conv_nth) (metis in_set_conv_nth)

section \<open>The contents of the disk and the invariant\<close>

definition bkey :: "kbuf \<Rightarrow> int \<times> int" where
  "bkey b = (b_dev b, b_blkno b)"

definition tracked :: "kbuf \<Rightarrow> bool" where
  "tracked b \<longleftrightarrow> B_INVAL \<notin> b_flags b \<and> b_dev b \<noteq> NODEV"

definition busy :: "'d bcache \<Rightarrow> nat \<Rightarrow> bool" where
  "busy s i \<longleftrightarrow> B_BUSY \<in> b_flags (bufs s ! i)"

text \<open>
  The logical contents of a block: those of the buffer that waits to be written, else those
  on the device.
\<close>

definition bview :: "('d \<Rightarrow> int \<times> int \<Rightarrow> u32 list) \<Rightarrow> 'd bcache \<Rightarrow> int \<times> int \<Rightarrow> u32 list" where
  "bview blk s k =
     (case find (\<lambda>i. B_DELWRI \<in> b_flags (bufs s ! i) \<and> bkey (bufs s ! i) = k) [0..<length (bufs s)] of
        Some i \<Rightarrow> b_data (bufs s ! i) | None \<Rightarrow> blk (bdevs s) k)"

definition clean_copy :: "('d \<Rightarrow> int \<times> int \<Rightarrow> u32 list) \<Rightarrow> 'd \<Rightarrow> kbuf \<Rightarrow> bool" where
  "clean_copy blk d b \<longleftrightarrow>
     (tracked b \<and> B_DONE \<in> b_flags b \<and> B_DELWRI \<notin> b_flags b \<longrightarrow> b_data b = blk d (bkey b))"

definition buf_ok :: "(int \<times> int) set \<Rightarrow> kbuf \<Rightarrow> bool" where
  "buf_ok K b \<longleftrightarrow>
     (tracked b \<longrightarrow> bkey b \<in> K) \<and> (B_DELWRI \<in> b_flags b \<longrightarrow> tracked b) \<and>
     b_flags b \<inter> {B_ERROR, B_LOCKED, B_ASYNC} = {} \<and> b_resid b = 0"

definition lists_ok :: "'d bcache \<Rightarrow> bool" where
  "lists_ok s \<longleftrightarrow>
     length (hashq s) = 17 \<and> length (freeq s) = 3 \<and> freeq s ! 0 = [] \<and>
     (\<forall>j. occ (hashq s) j = (if j < length (bufs s) then 1 else 0)) \<and>
     (\<forall>j. occ (freeq s) j = (if j < length (bufs s) \<and> \<not> busy s j then 1 else 0)) \<and>
     (\<forall>i<length (bufs s). b_dev (bufs s ! i) \<noteq> NODEV \<longrightarrow>
        i \<in> set (hashq s ! BUFHASH (b_dev (bufs s ! i)) (b_blkno (bufs s ! i))))"

definition keys_unique :: "'d bcache \<Rightarrow> bool" where
  "keys_unique s \<longleftrightarrow>
     (\<forall>i<length (bufs s). \<forall>j<length (bufs s). tracked (bufs s ! i) \<and> tracked (bufs s ! j) \<and>
        bkey (bufs s ! i) = bkey (bufs s ! j) \<longrightarrow> i = j)"

definition cache_ok ::
    "('d \<Rightarrow> bool) \<Rightarrow> ('d \<Rightarrow> int \<times> int \<Rightarrow> u32 list) \<Rightarrow> (int \<times> int) set \<Rightarrow> 'd bcache \<Rightarrow> bool" where
  "cache_ok okd blk K s \<longleftrightarrow>
     lists_ok s \<and> keys_unique s \<and> okd (bdevs s) \<and>
     (\<forall>i<length (bufs s). buf_ok K (bufs s ! i)) \<and>
     (\<forall>i<length (bufs s). \<not> busy s i \<longrightarrow> clean_copy blk (bdevs s) (bufs s ! i))"

text \<open>Buffers in use by others are left alone.\<close>

definition held_kept :: "'d bcache \<Rightarrow> 'd bcache \<Rightarrow> bool" where
  "held_kept s s' \<longleftrightarrow> length (bufs s') = length (bufs s) \<and>
     (\<forall>j<length (bufs s). busy s j \<longrightarrow> bufs s' ! j = bufs s ! j)"

lemma BUFHASH_less: "BUFHASH dev b < 16"
  by (simp add: BUFHASH_def nat_less_iff)

lemma held_kept_refl [simp]: "held_kept s s"
  by (simp add: held_kept_def)

lemma held_kept_trans: "held_kept s t \<Longrightarrow> held_kept t u \<Longrightarrow> held_kept s u"
  by (simp add: held_kept_def busy_def)

lemma bview_dirty:
  assumes k: "keys_unique s" and i: "i < length (bufs s)" and d: "B_DELWRI \<in> b_flags (bufs s ! i)"
    and ok: "\<forall>j<length (bufs s). buf_ok K (bufs s ! j)"
  shows "bview blk s (bkey (bufs s ! i)) = b_data (bufs s ! i)"
proof -
  let ?P = "\<lambda>j. B_DELWRI \<in> b_flags (bufs s ! j) \<and> bkey (bufs s ! j) = bkey (bufs s ! i)"
  have "\<exists>j. find ?P [0..<length (bufs s)] = Some j"
    using i d by (cases "find ?P [0..<length (bufs s)]") (auto simp: find_None_iff)
  then obtain j where j: "find ?P [0..<length (bufs s)] = Some j" by blast
  then have pj: "j < length (bufs s)" "?P j"
    by (auto simp: find_Some_iff)
  with k i d ok have "j = i"
    unfolding keys_unique_def buf_ok_def by blast
  with j show ?thesis by (simp add: bview_def)
qed

lemma bview_clean:
  assumes "\<forall>j<length (bufs s). bkey (bufs s ! j) = k \<longrightarrow> B_DELWRI \<notin> b_flags (bufs s ! j)"
  shows "bview blk s k = blk (bdevs s) k"
proof -
  have "find (\<lambda>j. B_DELWRI \<in> b_flags (bufs s ! j) \<and> bkey (bufs s ! j) = k) [0..<length (bufs s)] = None"
    using assms by (auto simp: find_None_iff)
  then show ?thesis by (simp add: bview_def)
qed

lemma bview_cong:
  assumes "length (bufs s') = length (bufs s)"
    and "\<forall>j<length (bufs s). (B_DELWRI \<in> b_flags (bufs s' ! j) \<and> bkey (bufs s' ! j) = k) =
           (B_DELWRI \<in> b_flags (bufs s ! j) \<and> bkey (bufs s ! j) = k)"
    and "\<forall>j<length (bufs s). B_DELWRI \<in> b_flags (bufs s ! j) \<and> bkey (bufs s ! j) = k
           \<longrightarrow> b_data (bufs s' ! j) = b_data (bufs s ! j)"
    and "blk (bdevs s') k = blk (bdevs s) k"
  shows "bview blk s' k = bview blk s k"
proof -
  let ?P = "\<lambda>s j. B_DELWRI \<in> b_flags (bufs s ! j) \<and> bkey (bufs s ! j) = k"
  have f: "find (?P s') [0..<length (bufs s')] = find (?P s) [0..<length (bufs s)]"
    by (rule find_cong) (use assms in auto)
  show ?thesis
  proof (cases "find (?P s) [0..<length (bufs s)]")
    case None
    with f assms(4) show ?thesis by (simp add: bview_def)
  next
    case (Some i)
    then have "i < length (bufs s)" "?P s i"
      by (auto simp: find_Some_iff)
    with Some f assms(3) show ?thesis by (simp add: bview_def)
  qed
qed

section \<open>Changing one buffer\<close>

definition freed :: "nat \<Rightarrow> nat list list \<Rightarrow> nat list list \<Rightarrow> bool" where
  "freed i fq fq' \<longleftrightarrow> (\<exists>q\<in>{1, 2}. fq' = fq[q := fq ! q @ [i]] \<or> fq' = fq[q := i # fq ! q])"

lemma freed_occ:
  "freed i fq fq' \<Longrightarrow> length fq = 3 \<Longrightarrow> occ fq' j = occ fq j + (if i = j then 1 else 0)"
  by (auto simp: freed_def occ_append occ_Cons)

lemma freed_shape: "freed i fq fq' \<Longrightarrow> length fq' = length fq \<and> fq' ! 0 = fq ! 0"
  by (auto simp: freed_def)

lemma lists_ok_update:
  assumes l: "lists_ok s" and i: "i < length (bufs s)" and bz: "busy s i"
    and b: "bufs s' = (bufs s)[i := b']" and h: "hashq s' = hashq s"
    and f: "if B_BUSY \<in> b_flags b' then freeq s' = freeq s else freed i (freeq s) (freeq s')"
    and k: "b_dev b' = b_dev (bufs s ! i)" "b_blkno b' = b_blkno (bufs s ! i)"
  shows "lists_ok s'"
proof -
  have bj: "busy s' j = (if j = i then B_BUSY \<in> b_flags b' else busy s j)" if "j < length (bufs s)" for j
    using that i by (simp add: busy_def b nth_list_update)
  have len: "length (bufs s') = length (bufs s)" by (simp add: b)
  have shape: "length (freeq s') = 3 \<and> freeq s' ! 0 = []"
    using l f by (cases "B_BUSY \<in> b_flags b'") (simp_all add: lists_ok_def freed_shape)
  have fo: "occ (freeq s') j = (if j < length (bufs s') \<and> \<not> busy s' j then 1 else 0)" for j
  proof (cases "B_BUSY \<in> b_flags b'")
    case True
    with f l bz bj [of j] show ?thesis by (auto simp: lists_ok_def len)
  next
    case False
    with f have "occ (freeq s') j = occ (freeq s) j + (if i = j then 1 else 0)"
      using l by (intro freed_occ) (simp_all add: lists_ok_def)
    with False l bz i bj [of j] show ?thesis by (auto simp: lists_ok_def len)
  qed
  have ho: "\<forall>j. occ (hashq s') j = (if j < length (bufs s') then 1 else 0)" "length (hashq s') = 17"
    using l by (simp_all add: lists_ok_def h len)
  have hs: "j \<in> set (hashq s' ! BUFHASH (b_dev (bufs s' ! j)) (b_blkno (bufs s' ! j)))"
    if "j < length (bufs s')" "b_dev (bufs s' ! j) \<noteq> NODEV" for j
    using that l i unfolding lists_ok_def h len by (cases "j = i") (simp_all add: b k)
  from ho shape fo hs show ?thesis unfolding lists_ok_def by blast
qed

lemma keys_unique_update:
  assumes "keys_unique s" and "i < length (bufs s)" and "bufs s' = (bufs s)[i := b']"
    and "bkey b' = bkey (bufs s ! i)" and "tracked b' \<Longrightarrow> tracked (bufs s ! i)"
  shows "keys_unique s'"
proof -
  have "bkey (bufs s' ! j) = bkey (bufs s ! j)" "tracked (bufs s' ! j) \<Longrightarrow> tracked (bufs s ! j)"
    if "j < length (bufs s)" for j
    using that assms(2,4,5) by (cases "j = i", simp_all add: assms(3))+
  with assms(1) show ?thesis unfolding keys_unique_def by (simp add: assms(3))
qed

lemma cache_ok_update:
  assumes inv: "cache_ok okd blk K s" and i: "i < length (bufs s)" and bz: "busy s i"
    and b: "bufs s' = (bufs s)[i := b']" and h: "hashq s' = hashq s"
    and f: "if B_BUSY \<in> b_flags b' then freeq s' = freeq s else freed i (freeq s) (freeq s')"
    and d: "okd (bdevs s')"
    and k: "b_dev b' = b_dev (bufs s ! i)" "b_blkno b' = b_blkno (bufs s ! i)"
    and tr: "tracked b' = tracked (bufs s ! i)" and ok: "buf_ok K b'"
    and oth: "\<forall>k\<in>K. \<not> (tracked (bufs s ! i) \<and> k = bkey (bufs s ! i)) \<longrightarrow> blk (bdevs s') k = blk (bdevs s) k"
    and cl: "B_BUSY \<notin> b_flags b' \<Longrightarrow> clean_copy blk (bdevs s') b'"
  shows "cache_ok okd blk K s'"
proof -
  have kb: "bkey b' = bkey (bufs s ! i)" by (simp add: bkey_def k)
  note I = inv [unfolded cache_ok_def]
  have ku: "keys_unique s'"
    using keys_unique_update [OF _ i b kb] I tr by blast
  have bo: "buf_ok K (bufs s' ! j)" if "j < length (bufs s)" for j
    using that I ok i by (simp add: b nth_list_update)
  have cc: "clean_copy blk (bdevs s') (bufs s' ! j)" if "j < length (bufs s)" "\<not> busy s' j" for j
  proof (cases "j = i")
    case True
    with that i cl show ?thesis by (simp add: busy_def b)
  next
    case False
    with that have nj: "bufs s' ! j = bufs s ! j" "\<not> busy s j" by (simp_all add: busy_def b)
    with I that have c: "clean_copy blk (bdevs s) (bufs s ! j)" "buf_ok K (bufs s ! j)" by auto
    have "\<not> (tracked (bufs s ! i) \<and> bkey (bufs s ! j) = bkey (bufs s ! i))" if "tracked (bufs s ! j)"
      using I False that i \<open>j < length (bufs s)\<close> unfolding keys_unique_def by blast
    with c nj oth show ?thesis unfolding clean_copy_def buf_ok_def by metis
  qed
  show ?thesis
    using lists_ok_update [OF _ i bz b h f k] I ku bo cc d by (simp add: cache_ok_def b)
qed

lemma bview_update:
  assumes inv: "cache_ok okd blk K s" and i: "i < length (bufs s)"
    and b: "bufs s' = (bufs s)[i := b']"
    and k: "b_dev b' = b_dev (bufs s ! i)" "b_blkno b' = b_blkno (bufs s ! i)"
    and tr: "tracked b' = tracked (bufs s ! i)" and ok: "buf_ok K b'"
    and oth: "\<forall>k\<in>K. \<not> (tracked (bufs s ! i) \<and> k = bkey (bufs s ! i)) \<longrightarrow> blk (bdevs s') k = blk (bdevs s) k"
    and kK: "k \<in> K"
  shows "bview blk s' k =
    (if tracked (bufs s ! i) \<and> k = bkey (bufs s ! i)
     then (if B_DELWRI \<in> b_flags b' then b_data b' else blk (bdevs s') k) else bview blk s k)"
proof (cases "tracked (bufs s ! i) \<and> k = bkey (bufs s ! i)")
  case True
  have kb: "bkey b' = bkey (bufs s ! i)" by (simp add: bkey_def k)
  note I = inv [unfolded cache_ok_def]
  have ku: "keys_unique s'"
    using keys_unique_update [OF _ i b kb] I tr by blast
  have bo: "\<forall>j<length (bufs s'). buf_ok K (bufs s' ! j)"
    using I ok i by (simp add: b nth_list_update)
  show ?thesis
  proof (cases "B_DELWRI \<in> b_flags b'")
    case dw: True
    have "bview blk s' (bkey (bufs s' ! i)) = b_data (bufs s' ! i)"
      by (rule bview_dirty [OF ku _ _ bo]) (use i dw in \<open>simp_all add: b\<close>)
    with True dw kb i show ?thesis by (simp add: b)
  next
    case dw: False
    have "B_DELWRI \<notin> b_flags (bufs s' ! j)" if "j < length (bufs s')" "bkey (bufs s' ! j) = k" for j
    proof (cases "j = i")
      case True
      with dw i show ?thesis by (simp add: b)
    next
      case False
      have "tracked (bufs s' ! i)" "i < length (bufs s')" "bkey (bufs s' ! i) = k"
        using i tr True kb by (simp_all add: b)
      with False that ku bo show ?thesis unfolding keys_unique_def buf_ok_def by metis
    qed
    then have "bview blk s' k = blk (bdevs s') k"
      by (intro bview_clean) blast
    with True dw show ?thesis by simp
  qed
next
  case False
  have nd: "B_DELWRI \<notin> b_flags (bufs s ! i) \<or> bkey (bufs s ! i) \<noteq> k" "B_DELWRI \<notin> b_flags b' \<or> bkey b' \<noteq> k"
    using False inv i ok tr by (auto simp: cache_ok_def buf_ok_def bkey_def k)
  have "bview blk s' k = bview blk s k"
  proof (rule bview_cong)
    show "length (bufs s') = length (bufs s)" by (simp add: b)
    show "blk (bdevs s') k = blk (bdevs s) k" using oth kK False by blast
  qed (use nd i in \<open>auto simp: b nth_list_update\<close>)
  with False show ?thesis by (simp only: if_False)
qed

lemma bview_tracked:
  assumes inv: "cache_ok okd blk K s" and i: "i < length (bufs s)" and tr: "tracked (bufs s ! i)"
  shows "bview blk s (bkey (bufs s ! i)) =
    (if B_DELWRI \<in> b_flags (bufs s ! i) then b_data (bufs s ! i) else blk (bdevs s) (bkey (bufs s ! i)))"
proof -
  have ok: "buf_ok K (bufs s ! i)" using inv i by (simp add: cache_ok_def)
  show ?thesis
    using bview_update [OF inv i, of s "bufs s ! i" "bkey (bufs s ! i)"] ok tr by (simp add: buf_ok_def)
qed

section \<open>The effect of a release and of a write\<close>

lemma brelse_eff:
  assumes "i < length (bufs s)" and "b_flags (bufs s ! i) \<inter> {B_ERROR, B_LOCKED} = {}"
  shows "bufs (brelse i s) = (bufs s)[i := (bufs s ! i)\<lparr>b_flags := b_flags (bufs s ! i) - {B_WANTED, B_BUSY, B_ASYNC, B_AGE}\<rparr>]"
    and "hashq (brelse i s) = hashq s" and "bdevs (brelse i s) = bdevs s"
    and "freed i (freeq s) (freeq (brelse i s))" and "bu_error (brelse i s) = bu_error s"
  using assms
  by (auto simp: brelse_bufs brelse_def Let_def freed_def bwakeup_def clrf_def binsheadfree_def binstailfree_def)

lemma biodone_sync:
  assumes "i < length (bufs s)" and "b_flags (bufs s ! i) \<inter> {B_DONE, B_ASYNC} = {}"
  shows "\<exists>s'. biodone i s = (Inr (), s') \<and>
    bufs s' = (bufs s)[i := (bufs s ! i)\<lparr>b_flags := insert B_DONE (b_flags (bufs s ! i)) - {B_WANTED}\<rparr>] \<and>
    hashq s' = hashq s \<and> freeq s' = freeq s \<and> bdevs s' = bdevs s \<and> bu_error s' = bu_error s"
  using assms by (simp add: biodone_def Let_def setf_def clrf_def bwakeup_def)

lemma biodone_async:
  assumes "i < length (bufs s)" and "b_flags (bufs s ! i) \<inter> {B_DONE, B_ERROR, B_LOCKED} = {}"
    and "B_ASYNC \<in> b_flags (bufs s ! i)"
  shows "\<exists>s'. biodone i s = (Inr (), s') \<and>
    bufs s' = (bufs s)[i := (bufs s ! i)\<lparr>b_flags := insert B_DONE (b_flags (bufs s ! i)) - {B_WANTED, B_BUSY, B_ASYNC, B_AGE}\<rparr>] \<and>
    hashq s' = hashq s \<and> freed i (freeq s) (freeq s') \<and> bdevs s' = bdevs s \<and> bu_error s' = bu_error s"
  using assms brelse_eff [of i "setf i {B_DONE} s"]
  by (simp add: biodone_def Let_def setf_def)

lemma d_strategy_done:
  assumes "st (bufs s ! i) (bdevs s) = Some (x, d)" and "x_done x"
  shows "d_strategy st i s = biodone i (updbuf i (xfer_end x) (s\<lparr>bdevs := d\<rparr>))"
  using assms by (simp add: d_strategy_def)

lemma bwrite_setup_eff [simp]:
  "hashq (bwrite_setup i s) = hashq s" "freeq (bwrite_setup i s) = freeq s"
  "bdevs (bwrite_setup i s) = bdevs s" "bu_error (bwrite_setup i s) = bu_error s"
  by (simp_all add: bwrite_setup_def Let_def clrf_def)

text \<open>The buffer that \<^verbatim>\<open>bwrite\<close> hands to the driver, and the one it releases.\<close>

definition outgoing :: "kbuf \<Rightarrow> kbuf" where
  "outgoing b = b\<lparr>b_flags := b_flags b - {B_READ, B_DONE, B_ERROR, B_DELWRI}, b_bcount := DEV_BSIZE\<rparr>"

definition written :: "xfer \<Rightarrow> kbuf \<Rightarrow> kbuf" where
  "written x b = (xfer_end x (outgoing b))\<lparr>b_flags :=
     insert B_DONE (b_flags b - {B_READ, B_ERROR, B_DELWRI, B_WANTED, B_BUSY, B_ASYNC, B_AGE}) \<union>
     (if B_ASYNC \<in> b_flags b \<and> B_DELWRI \<in> b_flags b then {B_AGE} else {})\<rparr>"

lemma bwrite_eff:
  assumes i: "i < length (bufs s)" and fl: "b_flags (bufs s ! i) \<inter> {B_ERROR, B_LOCKED} = {}"
    and st: "st (outgoing (bufs s ! i)) (bdevs s) = Some (x, d)" and x: "x_done x" "\<not> x_failed x"
  shows "\<exists>s'. bwrite st i s = (Inr (), s') \<and> bufs s' = (bufs s)[i := written x (bufs s ! i)] \<and>
    hashq s' = hashq s \<and> freed i (freeq s) (freeq s') \<and> bdevs s' = d \<and> bu_error s' = bu_error s"
proof -
  let ?b = "bufs s ! i" and ?t = "bwrite_setup i s"
  define u where "u = updbuf i (xfer_end x) (?t\<lparr>bdevs := d\<rparr>)"
  have bt: "bufs ?t = (bufs s)[i := outgoing ?b]"
    by (simp add: bwrite_setup_bufs outgoing_def)
  have ds: "d_strategy st i ?t = biodone i u"
    unfolding u_def using st x i by (intro d_strategy_done) (simp_all add: bt)
  have bu: "bufs u = (bufs s)[i := xfer_end x (outgoing ?b)]" "i < length (bufs u)"
    "hashq u = hashq s" "freeq u = freeq s" "bdevs u = d" "bu_error u = bu_error s"
    using i by (simp_all add: u_def bt)
  have uf: "b_flags (bufs u ! i) = b_flags ?b - {B_READ, B_DONE, B_ERROR, B_DELWRI}"
    using x i by (simp add: bu xfer_end_def outgoing_def)
  show ?thesis
  proof (cases "B_ASYNC \<in> b_flags ?b")
    case True
    have "b_flags (bufs u ! i) \<inter> {B_DONE, B_ERROR, B_LOCKED} = {}" "B_ASYNC \<in> b_flags (bufs u ! i)"
      using fl True by (auto simp: uf)
    from biodone_async [OF bu(2) this] obtain v where v: "biodone i u = (Inr (), v)"
      "bufs v = (bufs u)[i := (bufs u ! i)\<lparr>b_flags := insert B_DONE (b_flags (bufs u ! i)) - {B_WANTED, B_BUSY, B_ASYNC, B_AGE}\<rparr>]"
      "hashq v = hashq u" "freed i (freeq u) (freeq v)" "bdevs v = bdevs u" "bu_error v = bu_error u"
      by (elim exE conjE) (rule that)
    define w where "w = (if B_DELWRI \<in> b_flags ?b then setf i {B_AGE} v else v)"
    have "bwrite st i s = (Inr (), w)"
      using True ds v(1) by (simp add: bwrite_def w_def)
    moreover have "bufs w = (bufs s)[i := written x ?b]"
      using True i x
      by (auto simp: w_def setf_def v(2) bu written_def xfer_end_def outgoing_def
          intro!: arg_cong [of _ _ "list_update _ _"] kbuf.equality)
    moreover have "hashq w = hashq s" "freeq w = freeq v" "bdevs w = d" "bu_error w = bu_error s"
      using v bu by (simp_all add: w_def setf_def)
    ultimately show ?thesis
      using v(4) bu(4) by simp
  next
    case False
    have "b_flags (bufs u ! i) \<inter> {B_DONE, B_ASYNC} = {}"
      using False by (auto simp: uf)
    from biodone_sync [OF bu(2) this] obtain v where v: "biodone i u = (Inr (), v)"
      "bufs v = (bufs u)[i := (bufs u ! i)\<lparr>b_flags := insert B_DONE (b_flags (bufs u ! i)) - {B_WANTED}\<rparr>]"
      "hashq v = hashq u" "freeq v = freeq u" "bdevs v = bdevs u" "bu_error v = bu_error u"
      by (elim exE conjE) (rule that)
    have vi: "bufs v ! i = (bufs u ! i)\<lparr>b_flags := insert B_DONE (b_flags (bufs u ! i)) - {B_WANTED}\<rparr>" "i < length (bufs v)"
      using bu(2) by (simp_all add: v(2))
    have vf: "b_flags (bufs v ! i) = insert B_DONE (b_flags ?b - {B_READ, B_ERROR, B_DELWRI, B_WANTED})"
      unfolding vi uf by auto
    have bw: "biowait i v = (Inr (), v)"
      using vf by (simp add: biowait_def geterror_def)
    have "bwrite st i s = (Inr (), brelse i v)"
      using False ds v(1) bw by (simp add: bwrite_def)
    moreover have nf: "b_flags (bufs v ! i) \<inter> {B_ERROR, B_LOCKED} = {}"
      using vf fl by auto
    note br = brelse_eff [OF vi(2) nf]
    have "bufs (brelse i v) = (bufs s)[i := written x ?b]"
      using False i unfolding br(1) vf unfolding vi(1) v(2) uf
      by (auto simp: bu written_def xfer_end_def outgoing_def intro!: arg_cong [of _ _ "list_update _ _"] kbuf.equality)
    ultimately show ?thesis
      using br v bu by simp
  qed
qed

section \<open>The contract of a block device, and the cache above it\<close>

text \<open>
  \<open>K\<close> is the set of the blocks (device, block number) in use and \<open>blk\<close> the contents of the
  medium: a device that works completes a transfer before the driver returns, reads what the
  medium holds and changes the one block it writes.
\<close>

locale blockdev =
  fixes st :: "'d strategy"
    and okd :: "'d \<Rightarrow> bool"
    and blk :: "'d \<Rightarrow> int \<times> int \<Rightarrow> u32 list"
    and K :: "(int \<times> int) set"
  assumes nodev: "k \<in> K \<Longrightarrow> fst k \<noteq> NODEV"
    and dev_read: "okd d \<Longrightarrow> bkey b \<in> K \<Longrightarrow> B_READ \<in> b_flags b \<Longrightarrow> b_bcount b = DEV_BSIZE \<Longrightarrow> b_resid b = 0 \<Longrightarrow>
      \<exists>x d'. st b d = Some (x, d') \<and> x_done x \<and> \<not> x_failed x \<and> x_resid x = 0 \<and>
        x_data x = blk d (bkey b) \<and> okd d' \<and> (\<forall>k\<in>K. blk d' k = blk d k)"
    and dev_write: "okd d \<Longrightarrow> bkey b \<in> K \<Longrightarrow> B_READ \<notin> b_flags b \<Longrightarrow> b_bcount b = DEV_BSIZE \<Longrightarrow> b_resid b = 0 \<Longrightarrow>
      \<exists>x d'. st b d = Some (x, d') \<and> x_done x \<and> \<not> x_failed x \<and> x_resid x = 0 \<and>
        x_data x = b_data b \<and> okd d' \<and> (\<forall>k\<in>K. blk d' k = (if k = bkey b then b_data b else blk d k))"

text \<open>One buffer is given back, the others stay as they are.\<close>

definition released :: "nat \<Rightarrow> 'd bcache \<Rightarrow> 'd bcache \<Rightarrow> bool" where
  "released i s s' \<longleftrightarrow> length (bufs s') = length (bufs s) \<and>
     (\<forall>j<length (bufs s). j \<noteq> i \<longrightarrow> bufs s' ! j = bufs s ! j) \<and> \<not> busy s' i"

lemma tracked_flags:
  "b_dev b' = b_dev b \<Longrightarrow> (B_INVAL \<in> b_flags b') = (B_INVAL \<in> b_flags b) \<Longrightarrow> tracked b' = tracked b"
  by (simp add: tracked_def)

lemma cache_okD:
  assumes "cache_ok okd blk K s" and "i < length (bufs s)"
  shows "buf_ok K (bufs s ! i)" and "okd (bdevs s)" and "lists_ok s" and "keys_unique s"
    and "\<not> busy s i \<Longrightarrow> clean_copy blk (bdevs s) (bufs s ! i)"
  using assms by (auto simp: cache_ok_def)

lemma setf_empty [simp]: "setf i {} s = s"
  by (simp add: setf_def updbuf_def)

text \<open>The block is not held by anybody and some buffer is free: \<^verbatim>\<open>getblk\<close> does not sleep.\<close>

definition available :: "'d bcache \<Rightarrow> int \<times> int \<Rightarrow> bool" where
  "available s k \<longleftrightarrow>
     (\<exists>j<length (bufs s). \<not> busy s j) \<and>
     (\<forall>j<length (bufs s). busy s j \<longrightarrow> \<not> (tracked (bufs s ! j) \<and> bkey (bufs s ! j) = k))"

text \<open>What \<^verbatim>\<open>getblk\<close> promises: the buffer \<open>i\<close> of block \<open>k\<close>, now held by the caller.\<close>

definition grabbed ::
    "('d \<Rightarrow> bool) \<Rightarrow> ('d \<Rightarrow> int \<times> int \<Rightarrow> u32 list) \<Rightarrow> (int \<times> int) set \<Rightarrow> nat \<Rightarrow> int \<times> int \<Rightarrow> 'd bcache \<Rightarrow> 'd bcache \<Rightarrow> bool" where
  "grabbed okd blk K i k s s' \<longleftrightarrow>
     cache_ok okd blk K s' \<and> i < length (bufs s) \<and> \<not> busy s i \<and> tracked (bufs s' ! i) \<and>
     bkey (bufs s' ! i) = k \<and> held_kept s s' \<and>
     (\<forall>j<length (bufs s). busy s' j \<longleftrightarrow> j = i \<or> busy s j) \<and> (\<forall>k\<in>K. bview blk s' k = bview blk s k)"

context blockdev
begin

lemma brelse_ok:
  assumes inv: "cache_ok okd blk K s" and i: "i < length (bufs s)" and bz: "busy s i"
    and cl: "clean_copy blk (bdevs s) (bufs s ! i)"
  shows "cache_ok okd blk K (brelse i s)" and "k \<in> K \<Longrightarrow> bview blk (brelse i s) k = bview blk s k"
    and "released i s (brelse i s)" and "bdevs (brelse i s) = bdevs s"
    and "b_flags (bufs (brelse i s) ! i) = b_flags (bufs s ! i) - {B_WANTED, B_BUSY, B_ASYNC, B_AGE}"
proof -
  let ?b = "bufs s ! i" and ?s = "brelse i s"
  let ?b' = "?b\<lparr>b_flags := b_flags ?b - {B_WANTED, B_BUSY, B_ASYNC, B_AGE}\<rparr>"
  note D = cache_okD [OF inv i]
  have fl: "b_flags ?b \<inter> {B_ERROR, B_LOCKED} = {}" using D(1) by (auto simp: buf_ok_def)
  note e = brelse_eff [OF i fl]
  have b': "buf_ok K ?b'" "tracked ?b' = tracked ?b" "clean_copy blk (bdevs ?s) ?b'"
    using D(1) cl by (auto simp: buf_ok_def tracked_def clean_copy_def bkey_def e(3))
  have f: "if B_BUSY \<in> b_flags ?b' then freeq ?s = freeq s else freed i (freeq s) (freeq ?s)"
    using e(4) by simp
  show "cache_ok okd blk K ?s"
    by (rule cache_ok_update [OF inv i bz e(1,2) f]) (use D b' e(3) in simp_all)
  show "bview blk ?s k = bview blk s k" if "k \<in> K"
  proof -
    have "bview blk ?s k = (if tracked ?b \<and> k = bkey ?b
       then (if B_DELWRI \<in> b_flags ?b' then b_data ?b' else blk (bdevs ?s) k) else bview blk s k)"
      by (rule bview_update [OF inv i e(1)]) (use b' that e(3) in simp_all)
    then show ?thesis
      using bview_tracked [OF inv i] that by (cases "tracked ?b \<and> k = bkey ?b") (auto simp: e(3))
  qed
  show "released i s ?s" using i by (simp add: released_def busy_def e(1))
  show "bdevs ?s = bdevs s" by (rule e(3))
  show "b_flags (bufs ?s ! i) = b_flags ?b - {B_WANTED, B_BUSY, B_ASYNC, B_AGE}"
    using i by (simp add: e(1))
qed

lemma bwrite_ok:
  assumes inv: "cache_ok okd blk K s" and i: "i < length (bufs s)" and bz: "busy s i"
    and tr: "tracked (bufs s ! i)" and m: "m \<subseteq> {B_ASYNC}"
  shows "\<exists>s'. bwrite st i (setf i m s) = (Inr (), s') \<and> cache_ok okd blk K s' \<and> released i s s' \<and>
     (\<forall>k\<in>K. bview blk s' k = (if k = bkey (bufs s ! i) then b_data (bufs s ! i) else bview blk s k)) \<and>
     (\<forall>k\<in>K. blk (bdevs s') k = (if k = bkey (bufs s ! i) then b_data (bufs s ! i) else blk (bdevs s) k)) \<and>
     B_DELWRI \<notin> b_flags (bufs s' ! i) \<and> bkey (bufs s' ! i) = bkey (bufs s ! i) \<and> tracked (bufs s' ! i)"
proof -
  let ?b = "bufs s ! i" and ?sm = "setf i m s"
  let ?c = "?b\<lparr>b_flags := b_flags ?b \<union> m\<rparr>"
  note D = cache_okD [OF inv i]
  have b0: "bufs ?sm ! i = ?c" "i < length (bufs ?sm)" "bufs ?sm = (bufs s)[i := ?c]"
    "hashq ?sm = hashq s" "freeq ?sm = freeq s" "bdevs ?sm = bdevs s"
    using i by (simp_all add: setf_def)
  have fl: "b_flags (bufs ?sm ! i) \<inter> {B_ERROR, B_LOCKED} = {}"
    unfolding b0(1) using D(1) m by (auto simp: buf_ok_def)
  have "bkey (outgoing ?c) \<in> K" "b_resid (outgoing ?c) = 0"
    using D(1) tr by (simp_all add: outgoing_def bkey_def buf_ok_def)
  then obtain x d' where x: "st (outgoing ?c) (bdevs s) = Some (x, d')" "x_done x" "\<not> x_failed x"
      "x_resid x = 0" "x_data x = b_data ?b" "okd d'"
      "\<forall>k\<in>K. blk d' k = (if k = bkey ?b then b_data ?b else blk (bdevs s) k)"
    using dev_write [OF D(2), of "outgoing ?c"] by (auto simp: outgoing_def bkey_def)
  have "\<exists>s'. bwrite st i ?sm = (Inr (), s') \<and> bufs s' = (bufs ?sm)[i := written x (bufs ?sm ! i)] \<and>
    hashq s' = hashq ?sm \<and> freed i (freeq ?sm) (freeq s') \<and> bdevs s' = d' \<and> bu_error s' = bu_error ?sm"
    by (rule bwrite_eff [OF b0(2) fl]) (use x in \<open>simp_all add: b0(6) del: bufs_updbuf, simp add: b0(1)\<close>)
  then obtain s' where s': "bwrite st i ?sm = (Inr (), s')" "bufs s' = (bufs s)[i := written x ?c]"
      "hashq s' = hashq s" "freed i (freeq s) (freeq s')" "bdevs s' = d'"
    unfolding b0(1) unfolding b0(3-6) by auto
  let ?w = "written x ?c"
  have w: "b_flags ?w \<inter> {B_BUSY, B_DELWRI, B_ERROR, B_LOCKED, B_ASYNC} = {}" "b_data ?w = b_data ?b"
      "b_dev ?w = b_dev ?b" "b_blkno ?w = b_blkno ?b" "b_resid ?w = 0"
      "B_INVAL \<in> b_flags ?w \<longleftrightarrow> B_INVAL \<in> b_flags ?b"
    using D(1) m x by (auto simp: written_def xfer_end_def outgoing_def buf_ok_def)
  have w': "buf_ok K ?w" "tracked ?w = tracked ?b" "bkey ?w = bkey ?b"
    using D(1) w by (auto simp: buf_ok_def tracked_def bkey_def)
  have cl: "clean_copy blk (bdevs s') ?w"
    using x w w' D(1) tr by (auto simp: clean_copy_def s' buf_ok_def)
  have f: "if B_BUSY \<in> b_flags ?w then freeq s' = freeq s else freed i (freeq s) (freeq s')"
    using w s' by auto
  have oth: "\<forall>k\<in>K. \<not> (tracked ?b \<and> k = bkey ?b) \<longrightarrow> blk (bdevs s') k = blk (bdevs s) k"
    using x tr by (simp add: s')
  have "cache_ok okd blk K s'"
    by (rule cache_ok_update [OF inv i bz s'(2,3) f]) (use w w' x cl oth s' in simp_all)
  moreover have "bview blk s' k = (if k = bkey ?b then b_data ?b else bview blk s k)" if "k \<in> K" for k
  proof -
    have "bview blk s' k = (if tracked ?b \<and> k = bkey ?b
       then (if B_DELWRI \<in> b_flags ?w then b_data ?w else blk (bdevs s') k) else bview blk s k)"
      by (rule bview_update [OF inv i s'(2)]) (use w w' oth that in simp_all)
    then show ?thesis using tr w x that by (auto simp: s')
  qed
  moreover have "released i s s'" "B_DELWRI \<notin> b_flags (bufs s' ! i)" "bkey (bufs s' ! i) = bkey ?b"
    "tracked (bufs s' ! i)"
    using i w w' tr by (auto simp: released_def busy_def s')
  ultimately show ?thesis using s'(1) x(7) s'(5) by blast
qed

lemma held_update_ok:
  assumes inv: "cache_ok okd blk K s" and i: "i < length (bufs s)" and bz: "busy s i"
    and s': "bufs s' = (bufs s)[i := b']" "hashq s' = hashq s" "freeq s' = freeq s" "bdevs s' = bdevs s"
    and b': "B_BUSY \<in> b_flags b'" "b_dev b' = b_dev (bufs s ! i)" "b_blkno b' = b_blkno (bufs s ! i)"
      "tracked b' = tracked (bufs s ! i)" "buf_ok K b'"
  shows "cache_ok okd blk K s'"
    and "k \<in> K \<Longrightarrow> bview blk s' k =
      (if tracked (bufs s ! i) \<and> k = bkey (bufs s ! i) \<and> B_DELWRI \<in> b_flags b' then b_data b'
       else if tracked (bufs s ! i) \<and> k = bkey (bufs s ! i) then blk (bdevs s) k else bview blk s k)"
proof -
  show "cache_ok okd blk K s'"
    by (rule cache_ok_update [OF inv i bz s'(1,2)]) (use cache_okD [OF inv i] s' b' in simp_all)
  assume "k \<in> K"
  then have "bview blk s' k = (if tracked (bufs s ! i) \<and> k = bkey (bufs s ! i)
     then (if B_DELWRI \<in> b_flags b' then b_data b' else blk (bdevs s') k) else bview blk s k)"
    by (intro bview_update [OF inv i s'(1)]) (use s' b' in simp_all)
  then show "bview blk s' k =
      (if tracked (bufs s ! i) \<and> k = bkey (bufs s ! i) \<and> B_DELWRI \<in> b_flags b' then b_data b'
       else if tracked (bufs s ! i) \<and> k = bkey (bufs s ! i) then blk (bdevs s) k else bview blk s k)"
    using s'(4) by presburger
qed

lemma bdwrite_ok:
  assumes inv: "cache_ok okd blk K s" and i: "i < length (bufs s)" and bz: "busy s i"
    and tr: "tracked (bufs s ! i)"
  shows "\<exists>s'. bdwrite st i s = (Inr (), s') \<and> cache_ok okd blk K s' \<and> released i s s' \<and>
     (\<forall>k\<in>K. bview blk s' k = (if k = bkey (bufs s ! i) then b_data (bufs s ! i) else bview blk s k)) \<and>
     bdevs s' = bdevs s"
proof -
  let ?b = "bufs s ! i"
  let ?d = "?b\<lparr>b_flags := b_flags ?b \<union> {B_DELWRI, B_DONE}\<rparr>"
  define u where "u = (if B_DELWRI \<notin> b_flags ?b then s\<lparr>ru_oublock := ru_oublock s + 1\<rparr> else s)"
  define v where "v = setf i {B_DELWRI, B_DONE} u"
  have e: "bdwrite st i s = (Inr (), brelse i v)"
    by (simp add: bdwrite_def Let_def d_flags_def u_def v_def)
  have v: "bufs v = (bufs s)[i := ?d]" "hashq v = hashq s" "freeq v = freeq s" "bdevs v = bdevs s"
    by (simp_all add: v_def u_def setf_def)
  have b': "B_BUSY \<in> b_flags ?d" "b_dev ?d = b_dev ?b" "b_blkno ?d = b_blkno ?b"
    "tracked ?d = tracked ?b" "buf_ok K ?d"
    using bz tr cache_okD(1) [OF inv i] by (auto simp: busy_def tracked_def buf_ok_def bkey_def)
  note h = held_update_ok [OF inv i bz v b']
  have vi: "i < length (bufs v)" "busy v i" "clean_copy blk (bdevs v) (bufs v ! i)"
    using i b' by (simp_all add: v busy_def clean_copy_def)
  note br = brelse_ok [OF h(1) vi]
  have "bview blk (brelse i v) k = (if k = bkey ?b then b_data ?b else bview blk s k)" if "k \<in> K" for k
    using br(2) [OF that] h(2) [OF that] tr by simp
  moreover have "released i s (brelse i v)"
    using br(3) by (simp add: released_def v)
  ultimately show ?thesis
    using e br(1) br(4) v(4) by auto
qed

lemma notavail_ok:
  assumes inv: "cache_ok okd blk K s" and i: "i < length (bufs s)" and nb: "\<not> busy s i"
  shows "\<exists>s'. notavail i s = (Inr (), s') \<and> cache_ok okd blk K s' \<and>
     bufs s' = (bufs s)[i := (bufs s ! i)\<lparr>b_flags := insert B_BUSY (b_flags (bufs s ! i))\<rparr>] \<and>
     bdevs s' = bdevs s \<and> hashq s' = hashq s \<and> (\<forall>k\<in>K. bview blk s' k = bview blk s k)"
proof -
  let ?b = "bufs s ! i"
  let ?d = "?b\<lparr>b_flags := insert B_BUSY (b_flags ?b)\<rparr>"
  define s' where "s' = setf i {B_BUSY} (bremfree i s)"
  have l: "lists_ok s" and ku: "keys_unique s" and D: "buf_ok K ?b" "okd (bdevs s)"
    using cache_okD [OF inv i] by auto
  have "occ (freeq s) i = 1" using l i nb by (simp add: lists_ok_def)
  then have mem: "i \<in> set (concat (freeq s))" using occ_pos [of "freeq s" i] by simp
  have s': "bufs s' = (bufs s)[i := ?d]" "hashq s' = hashq s"
    "freeq s' = map (removeAll i) (freeq s)" "bdevs s' = bdevs s"
    by (simp_all add: s'_def setf_def bremfree_def)
  have bj: "busy s' j = (j = i \<or> busy s j)" if "j < length (bufs s)" for j
    using that i by (auto simp: busy_def s' nth_list_update)
  have fo: "occ (freeq s') j = (if j < length (bufs s') \<and> \<not> busy s' j then 1 else 0)" for j
    using l bj [of j] i by (auto simp: s' occ_removeAll lists_ok_def)
  have hs: "j \<in> set (hashq s' ! BUFHASH (b_dev (bufs s' ! j)) (b_blkno (bufs s' ! j)))"
    if "j < length (bufs s')" "b_dev (bufs s' ! j) \<noteq> NODEV" for j
    using that l i unfolding lists_ok_def by (cases "j = i") (simp_all add: s')
  have shape: "length (freeq s') = 3" "freeq s' ! 0 = []" "length (hashq s') = 17"
    "\<forall>j. occ (hashq s') j = (if j < length (bufs s') then 1 else 0)"
    using l by (simp_all add: s' lists_ok_def)
  have lo: "lists_ok s'" unfolding lists_ok_def using shape fo hs by blast
  have trd: "tracked ?d = tracked ?b" "bkey ?d = bkey ?b" "buf_ok K ?d"
    using D(1) by (auto simp: tracked_def bkey_def buf_ok_def)
  have kus: "keys_unique s'"
    using keys_unique_update [OF ku i s'(1)] trd by blast
  have bo: "buf_ok K (bufs s' ! j)" "\<not> busy s' j \<Longrightarrow> clean_copy blk (bdevs s') (bufs s' ! j)"
    if "j < length (bufs s')" for j
    using that cache_okD(1,5) [OF inv, of j] trd(3) bj [of j] i by (cases "j = i"; simp add: s')+
  have c: "cache_ok okd blk K s'"
    unfolding cache_ok_def using lo kus D(2) bo s'(4) by simp
  have "bview blk s' k = bview blk s k" for k
    by (rule bview_cong) (use i in \<open>auto simp: s' nth_list_update bkey_def\<close>)
  then show ?thesis
    using mem i c s' by (simp add: notavail_def s'_def)
qed

lemma first_free_ok:
  assumes inv: "cache_ok okd blk K s" and j: "j < length (bufs s)" "\<not> busy s j"
  shows "\<exists>i<length (bufs s). first_free s = Some i \<and> \<not> busy s i"
proof -
  have l: "lists_ok s" using cache_okD(3) [OF inv j(1)] .
  have "occ (freeq s) j = 1" using l j by (simp add: lists_ok_def)
  then obtain q where q: "q < length (freeq s)" "j \<in> set (freeq s ! q)"
    using occ_nth [of "freeq s" j] by auto
  with l have "q = 1 \<or> q = 2" by (cases "q = 0") (auto simp: lists_ok_def)
  with q have ne: "freeq s ! 1 \<noteq> [] \<or> freeq s ! 2 \<noteq> []" by auto
  then have "first_free s \<noteq> None" by (simp add: first_free_def)
  then obtain i where i: "first_free s = Some i" by blast
  then have "i \<in> set (freeq s ! 1) \<union> set (freeq s ! 2)"
    using ne by (auto simp: first_free_def split: if_splits)
  then have "i \<in> set (concat (freeq s))"
    using l by (auto simp: lists_ok_def intro: nth_mem)
  then have "occ (freeq s) i \<noteq> 0" using occ_pos [of "freeq s" i] by simp
  with l i show ?thesis by (auto simp: lists_ok_def split: if_splits)
qed

text \<open>A buffer that waits to be written is written and given back: nothing else changes.\<close>

lemma flush_one:
  assumes inv: "cache_ok okd blk K s" and i: "i < length (bufs s)" and nb: "\<not> busy s i"
    and dw: "B_DELWRI \<in> b_flags (bufs s ! i)" and m: "m \<subseteq> {B_ASYNC}"
  shows "\<exists>s1 s2. notavail i s = (Inr (), s1) \<and> bufs s1 ! i = (bufs s ! i)\<lparr>b_flags := insert B_BUSY (b_flags (bufs s ! i))\<rparr> \<and>
     bwrite st i (setf i m s1) = (Inr (), s2) \<and> cache_ok okd blk K s2 \<and>
     length (bufs s2) = length (bufs s) \<and> (\<forall>j<length (bufs s). j \<noteq> i \<longrightarrow> bufs s2 ! j = bufs s ! j) \<and>
     \<not> busy s2 i \<and> bkey (bufs s2 ! i) = bkey (bufs s ! i) \<and> B_DELWRI \<notin> b_flags (bufs s2 ! i) \<and>
     (tracked (bufs s2 ! i) \<longleftrightarrow> tracked (bufs s ! i)) \<and>
     (\<forall>k\<in>K. bview blk s2 k = bview blk s k)"
proof -
  let ?b = "bufs s ! i"
  obtain s1 where s1: "notavail i s = (Inr (), s1)" "cache_ok okd blk K s1"
      "bufs s1 = (bufs s)[i := ?b\<lparr>b_flags := insert B_BUSY (b_flags ?b)\<rparr>]"
      "\<forall>k\<in>K. bview blk s1 k = bview blk s k"
    using notavail_ok [OF inv i nb] by blast
  have tr: "tracked ?b" using cache_okD(1) [OF inv i] dw by (simp add: buf_ok_def)
  have h: "i < length (bufs s1)" "busy s1 i" "tracked (bufs s1 ! i)" "bkey (bufs s1 ! i) = bkey ?b"
      "b_data (bufs s1 ! i) = b_data ?b" "bufs s1 ! i = ?b\<lparr>b_flags := insert B_BUSY (b_flags ?b)\<rparr>"
    using i tr by (simp_all add: s1(3) busy_def tracked_def bkey_def)
  obtain s2 where s2: "bwrite st i (setf i m s1) = (Inr (), s2)" "cache_ok okd blk K s2" "released i s1 s2"
      "\<forall>k\<in>K. bview blk s2 k = (if k = bkey (bufs s1 ! i) then b_data (bufs s1 ! i) else bview blk s1 k)"
      "B_DELWRI \<notin> b_flags (bufs s2 ! i)" "bkey (bufs s2 ! i) = bkey (bufs s1 ! i)" "tracked (bufs s2 ! i)"
    using bwrite_ok [OF s1(2) h(1-3) m] by blast
  have view: "\<forall>k\<in>K. bview blk s2 k = bview blk s k"
    using s2(4) s1(4) bview_tracked [OF inv i tr] dw h by auto
  from s1(1) s2(1,2,3,5,6,7) h view i tr show ?thesis
    by (auto simp: released_def s1(3))
qed

lemma getnewbuf_ok:
  assumes "cache_ok okd blk K s" and "j < length (bufs s)" and "\<not> busy s j"
  shows "\<exists>i t. getnewbuf st s = (Inr i, updbuf i (\<lambda>b. b\<lparr>b_flags := {B_BUSY}\<rparr>) t) \<and>
     i < length (bufs s) \<and> \<not> busy s i \<and> cache_ok okd blk K t \<and> B_DELWRI \<notin> b_flags (bufs t ! i) \<and>
     length (bufs t) = length (bufs s) \<and> (\<forall>j<length (bufs s). busy t j \<longleftrightarrow> j = i \<or> busy s j) \<and>
     held_kept s t \<and>
     (\<forall>j<length (bufs s). bkey (bufs t ! j) = bkey (bufs s ! j) \<and> tracked (bufs t ! j) = tracked (bufs s ! j)) \<and>
     (\<forall>k\<in>K. bview blk t k = bview blk s k)"
  using assms
proof (induction "card (dirty s)" arbitrary: s j rule: less_induct)
  case less
  note inv = less.prems(1)
  obtain i where i: "i < length (bufs s)" "first_free s = Some i" "\<not> busy s i"
    using first_free_ok [OF less.prems] by blast
  show ?case
  proof (cases "B_DELWRI \<in> b_flags (bufs s ! i)")
    case False
    obtain s1 where s1: "notavail i s = (Inr (), s1)" "cache_ok okd blk K s1"
        "bufs s1 = (bufs s)[i := (bufs s ! i)\<lparr>b_flags := insert B_BUSY (b_flags (bufs s ! i))\<rparr>]"
        "\<forall>k\<in>K. bview blk s1 k = bview blk s k"
      using notavail_ok [OF inv i(1,3)] by blast
    have "getnewbuf st s = (Inr i, updbuf i (\<lambda>b. b\<lparr>b_flags := {B_BUSY}\<rparr>) s1)"
      using i s1 False by (subst getnewbuf.simps) simp
    moreover have "B_DELWRI \<notin> b_flags (bufs s1 ! i)" "length (bufs s1) = length (bufs s)"
      "\<forall>j<length (bufs s). busy s1 j \<longleftrightarrow> j = i \<or> busy s j" "held_kept s s1"
      using i False by (auto simp: s1(3) busy_def held_kept_def nth_list_update)
    moreover have "bkey (bufs s1 ! j) = bkey (bufs s ! j) \<and> tracked (bufs s1 ! j) = tracked (bufs s ! j)"
      if "j < length (bufs s)" for j
      using that i by (cases "j = i") (auto simp: s1(3) bkey_def tracked_def)
    ultimately show ?thesis using i s1(2,4) by blast
  next
    case True
    obtain s1 s2 where f: "notavail i s = (Inr (), s1)"
       "bufs s1 ! i = (bufs s ! i)\<lparr>b_flags := insert B_BUSY (b_flags (bufs s ! i))\<rparr>"
       "bwrite st i (setf i {B_ASYNC} s1) = (Inr (), s2)" "cache_ok okd blk K s2"
       "length (bufs s2) = length (bufs s)" "\<forall>j<length (bufs s). j \<noteq> i \<longrightarrow> bufs s2 ! j = bufs s ! j"
       "\<not> busy s2 i" "bkey (bufs s2 ! i) = bkey (bufs s ! i)" "tracked (bufs s2 ! i) \<longleftrightarrow> tracked (bufs s ! i)"
       "\<forall>k\<in>K. bview blk s2 k = bview blk s k"
      using flush_one [OF inv i(1,3) True subset_refl] by (elim exE conjE) (rule that, assumption+)
    have dw1: "B_DELWRI \<in> b_flags (bufs s1 ! i)" using f(2) True by simp
    have less2: "card (dirty s2) < card (dirty s)"
      by (rule getnewbuf_progress [OF f(1) dw1, of st "()"]) (simp add: bawrite_def f(3))
    have g: "getnewbuf st s = getnewbuf st s2"
      using i f(1,3) dw1 by (subst getnewbuf.simps) (simp add: bawrite_def)
    have i2: "i < length (bufs s2)" using i f(5) by simp
    have bz: "busy s2 j = busy s j" if "j < length (bufs s)" for j
      using that f(6,7) i(3) by (cases "j = i") (simp_all add: busy_def)
    have kt: "bkey (bufs s2 ! j) = bkey (bufs s ! j) \<and> tracked (bufs s2 ! j) = tracked (bufs s ! j)"
      if "j < length (bufs s)" for j
      using that f(6,8,9) by (cases "j = i") simp_all
    have hk: "held_kept s s2"
      using f(5,6) i(3) by (auto simp: held_kept_def)
    obtain i' t where r: "getnewbuf st s2 = (Inr i', updbuf i' (\<lambda>b. b\<lparr>b_flags := {B_BUSY}\<rparr>) t)"
       "i' < length (bufs s2)" "\<not> busy s2 i'" "cache_ok okd blk K t" "B_DELWRI \<notin> b_flags (bufs t ! i')"
       "length (bufs t) = length (bufs s2)" "\<forall>j<length (bufs s2). busy t j \<longleftrightarrow> j = i' \<or> busy s2 j"
       "held_kept s2 t"
       "\<forall>j<length (bufs s2). bkey (bufs t ! j) = bkey (bufs s2 ! j) \<and> tracked (bufs t ! j) = tracked (bufs s2 ! j)"
       "\<forall>k\<in>K. bview blk t k = bview blk s2 k"
      using less.hyps [OF less2 f(4) i2 f(7)] by (elim exE conjE) (rule that)
    show ?thesis
      by (rule exI [of _ i'], rule exI [of _ t])
        (use r g f(5,10) bz kt held_kept_trans [OF hk r(8)] in simp)
  qed
qed

lemma holds_iff:
  "k \<in> K \<Longrightarrow> holds (fst k) (snd k) b \<longleftrightarrow> tracked b \<and> bkey b = k"
  using nodev [of k] by (auto simp: holds_def tracked_def bkey_def prod_eq_iff)

lemma lookup_Some:
  assumes inv: "cache_ok okd blk K s" and k: "k \<in> K"
    and f: "find (\<lambda>i. holds (fst k) (snd k) (bufs s ! i)) (hashq s ! BUFHASH (fst k) (snd k)) = Some i"
  shows "i < length (bufs s)" and "tracked (bufs s ! i)" and "bkey (bufs s ! i) = k"
proof -
  let ?h = "BUFHASH (fst k) (snd k)"
  have l: "lists_ok s" using inv by (simp add: cache_ok_def)
  from f have m: "i \<in> set (hashq s ! ?h)" "holds (fst k) (snd k) (bufs s ! i)"
    by (auto simp: find_Some_iff)
  have "hashq s ! ?h \<in> set (hashq s)"
    using l BUFHASH_less [of "fst k" "snd k"] by (simp add: lists_ok_def)
  with m have "0 < occ (hashq s) i" by (auto simp: occ_pos)
  with l show "i < length (bufs s)" by (auto simp: lists_ok_def split: if_splits)
  from m show "tracked (bufs s ! i)" "bkey (bufs s ! i) = k" by (simp_all add: holds_iff k)
qed

lemma lookup_None:
  assumes inv: "cache_ok okd blk K s" and k: "k \<in> K"
    and f: "find (\<lambda>i. holds (fst k) (snd k) (bufs s ! i)) (hashq s ! BUFHASH (fst k) (snd k)) = None"
    and j: "j < length (bufs s)" "tracked (bufs s ! j)"
  shows "bkey (bufs s ! j) \<noteq> k"
proof
  assume e: "bkey (bufs s ! j) = k"
  have l: "lists_ok s" using inv by (simp add: cache_ok_def)
  have "j \<in> set (hashq s ! BUFHASH (b_dev (bufs s ! j)) (b_blkno (bufs s ! j)))"
    using l j by (simp add: lists_ok_def tracked_def)
  moreover have "b_dev (bufs s ! j) = fst k" "b_blkno (bufs s ! j) = snd k"
    using e by (auto simp: bkey_def)
  ultimately have "j \<in> set (hashq s ! BUFHASH (fst k) (snd k))" by simp
  with f have "\<not> holds (fst k) (snd k) (bufs s ! j)" by (auto simp: find_None_iff)
  with j e k show False by (simp add: holds_iff)
qed

text \<open>A held buffer without contents moves to another chain, with a new key or with none.\<close>

lemma rehash_ok:
  assumes inv: "cache_ok okd blk K t" and i: "i < length (bufs t)" and bz: "busy t i"
    and nd: "B_DELWRI \<notin> b_flags (bufs t ! i)" and h: "h < 17"
    and s': "bufs s' = (bufs t)[i := b']" "hashq s' = (map (removeAll i) (hashq t))[h := i # map (removeAll i) (hashq t) ! h]"
      "freeq s' = freeq t" "bdevs s' = bdevs t"
    and b': "B_BUSY \<in> b_flags b'" "B_DELWRI \<notin> b_flags b'" "buf_ok K b'"
      "b_dev b' \<noteq> NODEV \<Longrightarrow> h = BUFHASH (b_dev b') (b_blkno b')"
    and un: "tracked b' \<Longrightarrow> \<forall>j<length (bufs t). tracked (bufs t ! j) \<longrightarrow> bkey (bufs t ! j) \<noteq> bkey b'"
  shows "cache_ok okd blk K s'" and "bview blk s' k = bview blk t k"
proof -
  note D = cache_okD [OF inv i]
  have l: "length (hashq t) = 17" "length (freeq t) = 3" "freeq t ! 0 = []"
    "\<And>j. occ (hashq t) j = (if j < length (bufs t) then 1 else 0)"
    "\<And>j. occ (freeq t) j = (if j < length (bufs t) \<and> \<not> busy t j then 1 else 0)"
    "\<And>j. j < length (bufs t) \<Longrightarrow> b_dev (bufs t ! j) \<noteq> NODEV \<Longrightarrow>
        j \<in> set (hashq t ! BUFHASH (b_dev (bufs t ! j)) (b_blkno (bufs t ! j)))"
    using D(3) by (simp_all add: lists_ok_def)
  have h': "h < length (map (removeAll i) (hashq t))" using h l by simp
  have bj: "busy s' j = busy t j" if "j < length (bufs t)" for j
    using that i bz b' by (cases "j = i") (simp_all add: busy_def s')
  have ho: "occ (hashq s') j = (if j < length (bufs s') then 1 else 0)" for j
    using occ_Cons [OF h', of i j] i by (simp add: s' occ_removeAll l)
  have fo: "occ (freeq s') j = (if j < length (bufs s') \<and> \<not> busy s' j then 1 else 0)" for j
    using l(5) [of j] bj [of j] by (auto simp: s')
  have hs: "j \<in> set (hashq s' ! BUFHASH (b_dev (bufs s' ! j)) (b_blkno (bufs s' ! j)))"
    if "j < length (bufs s')" "b_dev (bufs s' ! j) \<noteq> NODEV" for j
  proof (cases "j = i")
    case True
    with i h' that b'(4) show ?thesis by (simp add: s')
  next
    case False
    with that have m: "j \<in> set (hashq t ! BUFHASH (b_dev (bufs t ! j)) (b_blkno (bufs t ! j)))"
      by (intro l(6)) (simp_all add: s')
    have "BUFHASH (b_dev (bufs t ! j)) (b_blkno (bufs t ! j)) < 17"
      using BUFHASH_less [of "b_dev (bufs t ! j)" "b_blkno (bufs t ! j)"] by simp
    with m False h' l(1) show ?thesis by (auto simp: s' nth_list_update)
  qed
  have lo: "lists_ok s'" unfolding lists_ok_def using ho fo hs l by (simp add: s'(2,3))
  have ku: "keys_unique s'"
    unfolding keys_unique_def
  proof (intro allI impI, elim conjE)
    fix a b
    assume ab: "a < length (bufs s')" "b < length (bufs s')" "tracked (bufs s' ! a)" "tracked (bufs s' ! b)"
      "bkey (bufs s' ! a) = bkey (bufs s' ! b)"
    then show "a = b"
      using D(4) un i unfolding keys_unique_def
      by (cases "a = i"; cases "b = i") (auto simp: s')
  qed
  have bo: "buf_ok K (bufs s' ! j)" "\<not> busy s' j \<Longrightarrow> clean_copy blk (bdevs s') (bufs s' ! j)"
    if "j < length (bufs s')" for j
    using that cache_okD(1,5) [OF inv, of j] bj [of j] i b' bz
    by (cases "j = i"; simp add: s')+
  show "cache_ok okd blk K s'"
    unfolding cache_ok_def using lo ku D(2) bo s'(4) by simp
  show "bview blk s' k = bview blk t k"
    by (rule bview_cong) (use i nd b' in \<open>auto simp: s' nth_list_update\<close>)
qed

lemma rekey_ok:
  assumes inv: "cache_ok okd blk K t" and i: "i < length (bufs t)" and bz: "busy t i"
    and nd: "B_DELWRI \<notin> b_flags (bufs t ! i)" and k: "k \<in> K"
    and un: "\<forall>j<length (bufs t). tracked (bufs t ! j) \<longrightarrow> bkey (bufs t ! j) \<noteq> k"
    and s': "bufs s' = (bufs t)[i := b']"
      "hashq s' = (map (removeAll i) (hashq t))[BUFHASH (fst k) (snd k) := i # map (removeAll i) (hashq t) ! BUFHASH (fst k) (snd k)]"
      "freeq s' = freeq t" "bdevs s' = bdevs t"
    and b': "b_flags b' = {B_BUSY}" "bkey b' = k" "b_resid b' = 0"
  shows "cache_ok okd blk K s'" and "k' \<in> K \<Longrightarrow> bview blk s' k' = bview blk t k'"
proof -
  have h: "BUFHASH (fst k) (snd k) < 17" using BUFHASH_less [of "fst k" "snd k"] by simp
  have dev: "BUFHASH (fst k) (snd k) = BUFHASH (b_dev b') (b_blkno b')" using b'(2) by (auto simp: bkey_def)
  have ok: "B_BUSY \<in> b_flags b'" "B_DELWRI \<notin> b_flags b'" "buf_ok K b'" using b' k by (simp_all add: buf_ok_def)
  note R = rehash_ok [OF inv i bz nd h s' ok dev]
  show "cache_ok okd blk K s'" by (rule R(1)) (use un b'(2) in simp)
  show "bview blk s' k' = bview blk t k'" by (rule R(2)) (use un b'(2) in simp)
qed

text \<open>A buffer for no block, as scratch space.\<close>

lemma geteblk_ok:
  assumes inv: "cache_ok okd blk K s" and j: "j < length (bufs s)" "\<not> busy s j"
  shows "\<exists>i s'. geteblk st s = (Inr i, s') \<and> cache_ok okd blk K s' \<and> i < length (bufs s) \<and> \<not> busy s i \<and>
     \<not> tracked (bufs s' ! i) \<and> held_kept s s' \<and> (\<forall>j<length (bufs s). busy s' j \<longleftrightarrow> j = i \<or> busy s j) \<and>
     (\<forall>k\<in>K. bview blk s' k = bview blk s k)"
proof -
  obtain i t where g: "getnewbuf st s = (Inr i, updbuf i (\<lambda>b. b\<lparr>b_flags := {B_BUSY}\<rparr>) t)"
     "i < length (bufs s)" "\<not> busy s i" "cache_ok okd blk K t" "B_DELWRI \<notin> b_flags (bufs t ! i)"
     "length (bufs t) = length (bufs s)" "\<forall>j<length (bufs s). busy t j \<longleftrightarrow> j = i \<or> busy s j"
     "held_kept s t" "\<forall>k\<in>K. bview blk t k = bview blk s k"
    using getnewbuf_ok [OF inv j] by (elim exE conjE) (rule that, assumption+)
  let ?b' = "(bufs t ! i)\<lparr>b_flags := {B_INVAL, B_BUSY}, b_bcount := 0, b_dev := NODEV, b_error := 0\<rparr>"
  obtain s' where s': "geteblk st s = (Inr i, s')" "bufs s' = (bufs t)[i := ?b']"
      "hashq s' = (map (removeAll i) (hashq t))[16 := i # map (removeAll i) (hashq t) ! 16]"
      "freeq s' = freeq t" "bdevs s' = bdevs t"
    using g(1,2,6) by (simp add: geteblk_def binshash_def bremhash_def)
  have it: "i < length (bufs t)" "busy t i" using g by simp_all
  have b': "B_BUSY \<in> b_flags ?b'" "B_DELWRI \<notin> b_flags ?b'" "buf_ok K ?b'" "\<not> tracked ?b'"
    using cache_okD(1) [OF g(4) it(1)] by (simp_all add: buf_ok_def tracked_def)
  have r: "cache_ok okd blk K s'" "\<And>k. bview blk s' k = bview blk t k"
    by (rule rehash_ok [OF g(4) it g(5) _ s'(2-5) b'(1-3)]; use b'(4) in simp)+
  moreover have "held_kept s s'"
    using g(3,6,8) unfolding held_kept_def s'(2) by (metis length_list_update nth_list_update_neq)
  moreover have "\<forall>j<length (bufs s). busy s' j \<longleftrightarrow> j = i \<or> busy s j"
    using g(6,7) it by (auto simp: busy_def s'(2) nth_list_update)
  moreover have "\<not> tracked (bufs s' ! i)" using it b'(4) by (simp add: s'(2))
  ultimately show ?thesis using s'(1) g(2,3,9) by auto
qed

lemma getblk_ok:
  assumes inv: "cache_ok okd blk K s" and k: "k \<in> K" and av: "available s k"
  shows "\<exists>i s'. getblk st (fst k) (snd k) s = (Inr i, s') \<and> grabbed okd blk K i k s s' \<and>
     (b_flags (bufs s' ! i) \<inter> {B_DONE, B_DELWRI} \<noteq> {} \<longrightarrow> b_data (bufs s' ! i) = bview blk s k) \<and>
     (\<not> incore (fst k) (snd k) s \<longrightarrow> b_flags (bufs s' ! i) \<inter> {B_DONE, B_DELWRI} = {})"
proof (cases "find (\<lambda>i. holds (fst k) (snd k) (bufs s ! i)) (hashq s ! BUFHASH (fst k) (snd k))")
  case (Some i)
  note i = lookup_Some [OF inv k Some]
  have nb: "\<not> busy s i" using av i by (auto simp: available_def)
  obtain s' where s': "notavail i s = (Inr (), s')" "cache_ok okd blk K s'"
      "bufs s' = (bufs s)[i := (bufs s ! i)\<lparr>b_flags := insert B_BUSY (b_flags (bufs s ! i))\<rparr>]"
      "\<forall>k\<in>K. bview blk s' k = bview blk s k"
    using notavail_ok [OF inv i(1) nb] by blast
  have "getblk st (fst k) (snd k) s = (Inr i, s')"
    using Some nb s'(1) by (simp add: getblk_def busy_def)
  moreover have "grabbed okd blk K i k s s'"
    using s' i nb by (auto simp: grabbed_def tracked_def bkey_def held_kept_def busy_def nth_list_update)
  moreover have "b_data (bufs s' ! i) = bview blk s k"
    if "b_flags (bufs s' ! i) \<inter> {B_DONE, B_DELWRI} \<noteq> {}"
    using that bview_tracked [OF inv i(1,2)] cache_okD(5) [OF inv i(1) nb] i
    by (auto simp: s'(3) clean_copy_def split: if_splits)
  moreover have "incore (fst k) (snd k) s" using Some by (simp add: incore_def)
  ultimately show ?thesis by blast
next
  case None
  obtain j where j: "j < length (bufs s)" "\<not> busy s j" using av by (auto simp: available_def)
  obtain i t where g: "getnewbuf st s = (Inr i, updbuf i (\<lambda>b. b\<lparr>b_flags := {B_BUSY}\<rparr>) t)"
     "i < length (bufs s)" "\<not> busy s i" "cache_ok okd blk K t" "B_DELWRI \<notin> b_flags (bufs t ! i)"
     "length (bufs t) = length (bufs s)" "\<forall>j<length (bufs s). busy t j \<longleftrightarrow> j = i \<or> busy s j"
     "held_kept s t"
     "\<forall>j<length (bufs s). bkey (bufs t ! j) = bkey (bufs s ! j) \<and> tracked (bufs t ! j) = tracked (bufs s ! j)"
     "\<forall>k\<in>K. bview blk t k = bview blk s k"
    using getnewbuf_ok [OF inv j] by (elim exE conjE) (rule that)
  let ?b' = "(bufs t ! i)\<lparr>b_flags := {B_BUSY}, b_bcount := 0, b_dev := fst k, b_blkno := snd k, b_error := 0\<rparr>"
  obtain s' where s': "getblk st (fst k) (snd k) s = (Inr i, s')" "bufs s' = (bufs t)[i := ?b']"
      "hashq s' = (map (removeAll i) (hashq t))[BUFHASH (fst k) (snd k) := i # map (removeAll i) (hashq t) ! BUFHASH (fst k) (snd k)]"
      "freeq s' = freeq t" "bdevs s' = bdevs t"
    using None g(1,2,6) by (simp add: getblk_def getblk_new_def binshash_def bremhash_def)
  have it: "i < length (bufs t)" "busy t i" using g by simp_all
  have un: "\<forall>j<length (bufs t). tracked (bufs t ! j) \<longrightarrow> bkey (bufs t ! j) \<noteq> k"
    using lookup_None [OF inv k None] g(6,9) by simp
  have b': "b_flags ?b' = {B_BUSY}" "bkey ?b' = k" "b_resid ?b' = 0"
    using cache_okD(1) [OF g(4) it(1)] by (simp_all add: bkey_def buf_ok_def)
  note r = rekey_ok [OF g(4) it g(5) k un s'(2-5) b']
  have tr: "tracked (bufs s' ! i)" using it nodev [OF k] by (simp add: s'(2) tracked_def)
  have hk: "held_kept s s'"
    using g(3,6,8) unfolding held_kept_def s'(2) by (metis length_list_update nth_list_update_neq)
  have bz: "\<forall>j<length (bufs s). busy s' j \<longleftrightarrow> j = i \<or> busy s j"
    using g(6,7) it by (auto simp: busy_def s'(2) nth_list_update)
  have "grabbed okd blk K i k s s'"
    unfolding grabbed_def using r g(2,3,10) tr b'(2) hk bz it(1) by (simp add: s'(2))
  moreover have "b_flags (bufs s' ! i) \<inter> {B_DONE, B_DELWRI} = {}" using it by (simp add: s'(2))
  ultimately show ?thesis using s'(1) by blast
qed

text \<open>Reading a held buffer that has no contents yet.\<close>

lemma bstart_read_ok:
  assumes inv: "cache_ok okd blk K s" and i: "i < length (bufs s)" and bz: "busy s i"
    and tr: "tracked (bufs s ! i)" and nf: "b_flags (bufs s ! i) \<inter> {B_DONE, B_DELWRI} = {}"
  shows "\<exists>s'. bstart_read st {B_READ} i s = (Inr (), s') \<and> biowait i s' = (Inr (), s') \<and>
     cache_ok okd blk K s' \<and> tracked (bufs s' ! i) \<and> bkey (bufs s' ! i) = bkey (bufs s ! i) \<and>
     busy s' i \<and> length (bufs s') = length (bufs s) \<and>
     (\<forall>j<length (bufs s). j \<noteq> i \<longrightarrow> bufs s' ! j = bufs s ! j) \<and>
     (\<forall>k\<in>K. bview blk s' k = bview blk s k) \<and> b_data (bufs s' ! i) = bview blk s (bkey (bufs s ! i))"
proof -
  let ?b = "bufs s ! i"
  let ?c = "?b\<lparr>b_flags := b_flags ?b \<union> {B_READ}, b_bcount := DEV_BSIZE\<rparr>"
  define u where "u = updbuf i (\<lambda>b. b\<lparr>b_flags := b_flags b \<union> {B_READ}, b_bcount := DEV_BSIZE\<rparr>) s"
  have u: "bufs u = (bufs s)[i := ?c]" "hashq u = hashq s" "freeq u = freeq s" "bdevs u = bdevs s"
    by (simp_all add: u_def)
  note D = cache_okD [OF inv i]
  have "bkey ?c \<in> K" "b_resid ?c = 0" "bkey ?c = bkey ?b"
    using D(1) tr by (simp_all add: bkey_def buf_ok_def)
  then obtain x d' where x: "st ?c (bdevs s) = Some (x, d')" "x_done x" "\<not> x_failed x" "x_resid x = 0"
      "x_data x = blk (bdevs s) (bkey ?b)" "okd d'" "\<forall>k\<in>K. blk d' k = blk (bdevs s) k"
    using dev_read [OF D(2), of ?c] by auto
  define v where "v = updbuf i (xfer_end x) (u\<lparr>bdevs := d'\<rparr>)"
  have ds: "d_strategy st i u = biodone i v"
    unfolding v_def using x(1,2) i by (intro d_strategy_done) (simp_all add: u)
  have v: "bufs v = (bufs s)[i := xfer_end x ?c]" "i < length (bufs v)" "hashq v = hashq s"
      "freeq v = freeq s" "bdevs v = d'"
    using i by (simp_all add: v_def u)
  have "b_flags (bufs v ! i) \<inter> {B_DONE, B_ASYNC} = {}"
    using i nf D(1) x(3) by (auto simp: v(1) xfer_end_def buf_ok_def)
  from biodone_sync [OF v(2) this] obtain w where w: "biodone i v = (Inr (), w)"
      "bufs w = (bufs v)[i := (bufs v ! i)\<lparr>b_flags := insert B_DONE (b_flags (bufs v ! i)) - {B_WANTED}\<rparr>]"
      "hashq w = hashq v" "freeq w = freeq v" "bdevs w = bdevs v"
    by (elim exE conjE) (rule that)
  define s' where "s' = w\<lparr>ru_inblock := ru_inblock w + 1\<rparr>"
  let ?d = "(xfer_end x ?c)\<lparr>b_flags := insert B_DONE (b_flags ?b \<union> {B_READ}) - {B_WANTED}\<rparr>"
  have s': "bufs s' = (bufs s)[i := ?d]" "hashq s' = hashq s" "freeq s' = freeq s" "bdevs s' = d'"
    using i x(3) by (simp_all add: s'_def w v xfer_end_def)
  have d: "B_BUSY \<in> b_flags ?d" "b_dev ?d = b_dev ?b" "b_blkno ?d = b_blkno ?b" "tracked ?d = tracked ?b"
    "buf_ok K ?d" "bkey ?d = bkey ?b" "b_data ?d = blk (bdevs s) (bkey ?b)" "B_DELWRI \<notin> b_flags ?d"
    "B_ERROR \<notin> b_flags ?d"
    using bz D(1) x(3,4,5) nf by (auto simp: busy_def xfer_end_def tracked_def bkey_def buf_ok_def)
  have oth: "\<forall>k\<in>K. \<not> (tracked ?b \<and> k = bkey ?b) \<longrightarrow> blk (bdevs s') k = blk (bdevs s) k"
    using x(7) s'(4) by simp
  have "cache_ok okd blk K s'"
    by (rule cache_ok_update [OF inv i bz s'(1,2)]) (use d s' x(6) oth in simp_all)
  moreover have "bview blk s' k = bview blk s k" if "k \<in> K" for k
  proof -
    have "bview blk s' k = (if tracked ?b \<and> k = bkey ?b
       then (if B_DELWRI \<in> b_flags ?d then b_data ?d else blk (bdevs s') k) else bview blk s k)"
      by (rule bview_update [OF inv i s'(1)]) (use d oth that in simp_all)
    then show ?thesis
      using bview_tracked [OF inv i tr] nf d(8) x(7) s'(4) that by auto
  qed
  moreover have "b_data (bufs s' ! i) = bview blk s (bkey ?b)"
    using bview_tracked [OF inv i tr] nf i d(7) by (simp add: s'(1))
  moreover have "bstart_read st {B_READ} i s = (Inr (), s')"
    using ds w(1) by (simp add: bstart_read_def s'_def u_def)
  moreover have "biowait i s' = (Inr (), s')"
    using i d(9) by (simp add: biowait_def geterror_def s'(1))
  ultimately show ?thesis
    using i d(1,4,6) tr by (intro exI [of _ s']) (simp add: s'(1) busy_def)
qed

lemma bread_ok:
  assumes inv: "cache_ok okd blk K s" and k: "k \<in> K" and av: "available s k"
  shows "\<exists>i s'. bread st (fst k) (snd k) s = (Inr i, s') \<and> grabbed okd blk K i k s s' \<and>
     b_data (bufs s' ! i) = bview blk s k"
proof -
  obtain i s1 where g: "getblk st (fst k) (snd k) s = (Inr i, s1)" "grabbed okd blk K i k s s1"
      "b_flags (bufs s1 ! i) \<inter> {B_DONE, B_DELWRI} \<noteq> {} \<longrightarrow> b_data (bufs s1 ! i) = bview blk s k"
    using getblk_ok [OF inv k av] by blast
  show ?thesis
  proof (cases "b_flags (bufs s1 ! i) \<inter> {B_DONE, B_DELWRI} = {}")
    case False
    with g show ?thesis by (auto simp: bread_def)
  next
    case True
    have i: "cache_ok okd blk K s1" "i < length (bufs s1)" "busy s1 i" "tracked (bufs s1 ! i)"
        "bkey (bufs s1 ! i) = k" "length (bufs s1) = length (bufs s)"
      using g(2) by (simp_all add: grabbed_def held_kept_def)
    obtain s2 where r: "bstart_read st {B_READ} i s1 = (Inr (), s2)" "biowait i s2 = (Inr (), s2)"
        "cache_ok okd blk K s2" "tracked (bufs s2 ! i)" "bkey (bufs s2 ! i) = bkey (bufs s1 ! i)"
        "busy s2 i" "length (bufs s2) = length (bufs s1)"
        "\<forall>j<length (bufs s1). j \<noteq> i \<longrightarrow> bufs s2 ! j = bufs s1 ! j"
        "\<forall>k\<in>K. bview blk s2 k = bview blk s1 k" "b_data (bufs s2 ! i) = bview blk s1 (bkey (bufs s1 ! i))"
      using bstart_read_ok [OF i(1-4) True] by (elim exE conjE) (rule that)
    have "bread st (fst k) (snd k) s = (Inr i, s2)"
      using g(1) True r(1,2) by (simp add: bread_def)
    moreover have "grabbed okd blk K i k s s2"
      using g(2) r i unfolding grabbed_def held_kept_def busy_def by (metis)
    moreover have "b_data (bufs s2 ! i) = bview blk s k"
      using r(10) g(2) i(5) k by (simp add: grabbed_def)
    ultimately show ?thesis by blast
  qed
qed

end

end
