(* ===== verification/Bio_Client.thy ===== *)
theory Bio_Client
  imports Bio_Cache
begin

text \<open>
  The buffer cache as its clients see it: read-ahead and flushing keep the logical contents of
  the disk, and any sequence of reads, writes and flushes returns what a disk without a cache
  would return. The states between two calls of a client are those in which nobody holds a
  buffer.
\<close>

definition idle :: "'d bcache \<Rightarrow> bool" where
  "idle s \<longleftrightarrow> (\<forall>j<length (bufs s). \<not> busy s j)"

lemma idle_available: "idle s \<Longrightarrow> bufs s \<noteq> [] \<Longrightarrow> available s k"
  by (auto simp: available_def idle_def)

lemma released_idle:
  assumes "grabbed okd blk K i k s s1" and "idle s" and "released i s1 s2"
  shows "idle s2" and "length (bufs s2) = length (bufs s)"
  using assms by (auto simp: idle_def released_def grabbed_def held_kept_def busy_def)

text \<open>The calls of a client: it reads a block, or fills a buffer and writes it, and gives it back.\<close>

datatype wmode = Sync | Async | Delayed

datatype bio_op =
  BRead int int | BReadAhead int int int | BWrite wmode int int "u32 list" | BFlush int | BBlkFlush int int

definition put_buf :: "'d strategy \<Rightarrow> wmode \<Rightarrow> nat \<Rightarrow> u32 list \<Rightarrow> 'd bcache \<Rightarrow> (unit, 'd) bres" where
  "put_buf st m i d s =
     (let s1 = updbuf i (\<lambda>b. b\<lparr>b_data := d\<rparr>) s in
      case m of Sync \<Rightarrow> bwrite st i s1 | Async \<Rightarrow> bawrite st i s1 | Delayed \<Rightarrow> bdwrite st i s1)"

fun bio_step :: "'d strategy \<Rightarrow> bio_op \<Rightarrow> 'd bcache \<Rightarrow> (u32 list option, 'd) bres" where
  "bio_step st (BRead dev b) s =
     bbind (bread st dev b s) (\<lambda>i s1. (Inr (Some (b_data (bufs s1 ! i))), brelse i s1))"
| "bio_step st (BReadAhead dev b ra) s =
     bbind (breada st dev b ra s) (\<lambda>i s1. (Inr (Some (b_data (bufs s1 ! i))), brelse i s1))"
| "bio_step st (BWrite m dev b d) s =
     bbind (getblk st dev b s) (\<lambda>i s1. bbind (put_buf st m i d s1) (\<lambda>_ s2. (Inr None, s2)))"
| "bio_step st (BFlush dev) s = bbind (bflush st dev s) (\<lambda>_ s1. (Inr None, s1))"
| "bio_step st (BBlkFlush dev b) s = bbind (blkflush st dev b s) (\<lambda>_ s1. (Inr None, s1))"

fun bio_run :: "'d strategy \<Rightarrow> bio_op list \<Rightarrow> 'd bcache \<Rightarrow> (u32 list option list, 'd) bres" where
  "bio_run st [] s = (Inr [], s)"
| "bio_run st (p # ps) s =
     bbind (bio_step st p s) (\<lambda>r s1. bbind (bio_run st ps s1) (\<lambda>rs s2. (Inr (r # rs), s2)))"

text \<open>The specification: a disk is a function from blocks to contents, and flushing does nothing.\<close>

fun disk_step :: "bio_op \<Rightarrow> (int \<times> int \<Rightarrow> u32 list) \<Rightarrow> u32 list option \<times> (int \<times> int \<Rightarrow> u32 list)" where
  "disk_step (BRead dev b) L = (Some (L (dev, b)), L)"
| "disk_step (BReadAhead dev b ra) L = (Some (L (dev, b)), L)"
| "disk_step (BWrite m dev b d) L = (None, L((dev, b) := d))"
| "disk_step (BFlush dev) L = (None, L)"
| "disk_step (BBlkFlush dev b) L = (None, L)"

fun disk_run :: "bio_op list \<Rightarrow> (int \<times> int \<Rightarrow> u32 list) \<Rightarrow> u32 list option list \<times> (int \<times> int \<Rightarrow> u32 list)" where
  "disk_run [] L = ([], L)"
| "disk_run (p # ps) L = (case disk_step p L of (r, L1) \<Rightarrow> case disk_run ps L1 of (rs, L2) \<Rightarrow> (r # rs, L2))"

fun op_blocks :: "bio_op \<Rightarrow> (int \<times> int) set" where
  "op_blocks (BRead dev b) = {(dev, b)}"
| "op_blocks (BReadAhead dev b ra) = {(dev, b)} \<union> (if ra = 0 then {} else {(dev, ra)})"
| "op_blocks (BWrite m dev b d) = {(dev, b)}"
| "op_blocks (BFlush dev) = {}"
| "op_blocks (BBlkFlush dev b) = {(dev, b)}"

context blockdev
begin

lemma bflush_ok:
  assumes "cache_ok okd blk K s"
    and "\<forall>j<length (bufs s). B_DELWRI \<in> b_flags (bufs s ! j) \<and> b_dev (bufs s ! j) = dev \<longrightarrow> \<not> busy s j"
  shows "\<exists>s'. bflush st dev s = (Inr (), s') \<and> cache_ok okd blk K s' \<and> length (bufs s') = length (bufs s) \<and>
     (\<forall>j<length (bufs s). busy s' j = busy s j) \<and> held_kept s s' \<and>
     (\<forall>k\<in>K. bview blk s' k = bview blk s k) \<and>
     (\<forall>k\<in>K. fst k = dev \<longrightarrow> blk (bdevs s') k = bview blk s k)"
  using assms
proof (induction "card (dirty s)" arbitrary: s rule: less_induct)
  case less
  note inv = less.prems(1)
  let ?P = "\<lambda>i. B_DELWRI \<in> b_flags (bufs s ! i) \<and> b_dev (bufs s ! i) = dev"
  have l: "\<And>j. occ (freeq s) j = (if j < length (bufs s) \<and> \<not> busy s j then 1 else 0)"
    using inv by (simp add: cache_ok_def lists_ok_def)
  have mem: "j \<in> set (concat (freeq s)) \<longleftrightarrow> j < length (bufs s) \<and> \<not> busy s j" for j
    using l [of j] occ_pos [of "freeq s" j] by (auto split: if_splits)
  show ?case
  proof (cases "find ?P (concat (freeq s))")
    case None
    have nd: "\<not> ?P j" if "j < length (bufs s)" for j
    proof
      assume "?P j"
      with less.prems(2) that have "j \<in> set (concat (freeq s))" unfolding mem by blast
      with None \<open>?P j\<close> show False unfolding find_None_iff by blast
    qed
    have "blk (bdevs s) k = bview blk s k" if "k \<in> K" "fst k = dev" for k
      by (rule bview_clean [symmetric]) (use nd that in \<open>metis bkey_def fst_conv\<close>)
    moreover have "bflush st dev s = (Inr (), s)"
      using None by (subst bflush.simps) simp
    ultimately show ?thesis using inv by auto
  next
    case (Some i)
    then have i: "i \<in> set (concat (freeq s))" "?P i"
      unfolding find_Some_iff by (metis nth_mem)+
    then have il: "i < length (bufs s)" "\<not> busy s i" unfolding mem by auto
    obtain s1 s2 where f: "notavail i s = (Inr (), s1)"
       "bufs s1 ! i = (bufs s ! i)\<lparr>b_flags := insert B_BUSY (b_flags (bufs s ! i))\<rparr>"
       "bwrite st i (setf i {B_ASYNC} s1) = (Inr (), s2)" "cache_ok okd blk K s2"
       "length (bufs s2) = length (bufs s)" "\<forall>j<length (bufs s). j \<noteq> i \<longrightarrow> bufs s2 ! j = bufs s ! j"
       "\<not> busy s2 i" "bkey (bufs s2 ! i) = bkey (bufs s ! i)" "B_DELWRI \<notin> b_flags (bufs s2 ! i)"
       "\<forall>k\<in>K. bview blk s2 k = bview blk s k"
      using flush_one [OF inv il conjunct1 [OF i(2)] subset_refl] by (elim exE conjE) (rule that, assumption+)
    have n: "notavail i (setf i {B_ASYNC} s) = (Inr (), setf i {B_ASYNC} s1)"
      using f(1) il by (auto simp: notavail_def setf_def bremfree_def updbuf_def insert_commute split: if_splits)
    have less2: "card (dirty s2) < card (dirty s)"
      by (rule bflush_progress [OF n conjunct1 [OF i(2)] f(3)])
    have g: "bflush st dev s = bflush st dev s2"
      using Some n f(3) by (subst bflush.simps) simp
    have bz: "busy s2 j = busy s j" if "j < length (bufs s)" for j
      using that f(6,7) il(2) by (cases "j = i") (simp_all add: busy_def)
    have hk: "held_kept s s2" using f(5,6) il(2) by (auto simp: held_kept_def)
    have pre: "\<forall>j<length (bufs s2). B_DELWRI \<in> b_flags (bufs s2 ! j) \<and> b_dev (bufs s2 ! j) = dev \<longrightarrow> \<not> busy s2 j"
    proof (intro allI impI)
      fix j assume j: "j < length (bufs s2)" "B_DELWRI \<in> b_flags (bufs s2 ! j) \<and> b_dev (bufs s2 ! j) = dev"
      with f(7) show "\<not> busy s2 j"
        using less.prems(2) f(5,6) bz by (cases "j = i") auto
    qed
    obtain s' where r: "bflush st dev s2 = (Inr (), s')" "cache_ok okd blk K s'" "length (bufs s') = length (bufs s2)"
       "\<forall>j<length (bufs s2). busy s' j = busy s2 j" "held_kept s2 s'"
       "\<forall>k\<in>K. bview blk s' k = bview blk s2 k" "\<forall>k\<in>K. fst k = dev \<longrightarrow> blk (bdevs s') k = bview blk s2 k"
      using less.hyps [OF less2 f(4) pre] by (elim exE conjE) (rule that)
    show ?thesis
      by (rule exI [of _ s']) (use r g f(5,10) bz held_kept_trans [OF hk r(5)] in simp)
  qed
qed

lemma blkflush_ok:
  assumes inv: "cache_ok okd blk K s" and k: "k \<in> K" and av: "available s k"
  shows "\<exists>s'. blkflush st (fst k) (snd k) s = (Inr (), s') \<and> cache_ok okd blk K s' \<and>
     length (bufs s') = length (bufs s) \<and> (\<forall>j<length (bufs s). busy s' j = busy s j) \<and>
     (\<forall>k\<in>K. bview blk s' k = bview blk s k) \<and> blk (bdevs s') k = bview blk s k"
proof -
  let ?P = "\<lambda>s i. holds (fst k) (snd k) (bufs s ! i) \<and> b_flags (bufs s ! i) \<inter> {B_BUSY, B_DELWRI} \<noteq> {}"
  let ?h = "BUFHASH (fst k) (snd k)"
  have mem: "j < length (bufs s) \<and> tracked (bufs s ! j) \<and> bkey (bufs s ! j) = k"
    if "cache_ok okd blk K s" "j \<in> set (hashq s ! ?h)" "holds (fst k) (snd k) (bufs s ! j)" for s j
  proof -
    have "hashq s ! ?h \<in> set (hashq s)"
      using that(1) BUFHASH_less [of "fst k" "snd k"] by (simp add: cache_ok_def lists_ok_def)
    with that(2) have "0 < occ (hashq s) j" by (auto simp: occ_pos)
    with that show ?thesis by (auto simp: cache_ok_def lists_ok_def holds_iff k split: if_splits)
  qed
  have clean: "blkflush st (fst k) (snd k) s = (Inr (), s) \<and> blk (bdevs s) k = bview blk s k"
    if c: "cache_ok okd blk K s"
      and n: "\<forall>j<length (bufs s). tracked (bufs s ! j) \<and> bkey (bufs s ! j) = k \<longrightarrow> \<not> busy s j \<and> B_DELWRI \<notin> b_flags (bufs s ! j)" for s
  proof -
    have "find (?P s) (hashq s ! ?h) = None"
      using n mem [OF c] unfolding find_None_iff busy_def by blast
    then have "blkflush st (fst k) (snd k) s = (Inr (), s)" by (subst blkflush.simps) simp
    moreover have "blk (bdevs s) k = bview blk s k"
      by (rule bview_clean [symmetric]) (use n c in \<open>auto simp: cache_ok_def buf_ok_def\<close>)
    ultimately show ?thesis ..
  qed
  show ?thesis
  proof (cases "find (?P s) (hashq s ! ?h)")
    case None
    have "\<not> busy s j \<and> B_DELWRI \<notin> b_flags (bufs s ! j)"
      if j: "j < length (bufs s)" "tracked (bufs s ! j)" "bkey (bufs s ! j) = k" for j
    proof -
      have "j \<in> set (hashq s ! ?h)"
        using inv j by (auto simp: cache_ok_def lists_ok_def tracked_def bkey_def)
      with None j show ?thesis by (auto simp: find_None_iff holds_iff k busy_def)
    qed
    with clean [OF inv] inv show ?thesis by auto
  next
    case (Some i)
    then have "i \<in> set (hashq s ! ?h)" "?P s i"
      unfolding find_Some_iff by (metis nth_mem)+
    with mem [OF inv] have i: "i < length (bufs s)" "tracked (bufs s ! i)" "bkey (bufs s ! i) = k" by auto
    with av have nb: "\<not> busy s i" by (auto simp: available_def)
    with \<open>?P s i\<close> have dw: "B_DELWRI \<in> b_flags (bufs s ! i)" by (auto simp: busy_def)
    obtain s1 s2 where f: "notavail i s = (Inr (), s1)" "bwrite st i (setf i {} s1) = (Inr (), s2)"
       "cache_ok okd blk K s2" "length (bufs s2) = length (bufs s)"
       "\<forall>j<length (bufs s). j \<noteq> i \<longrightarrow> bufs s2 ! j = bufs s ! j"
       "\<not> busy s2 i" "B_DELWRI \<notin> b_flags (bufs s2 ! i)" "\<forall>k\<in>K. bview blk s2 k = bview blk s k"
      using flush_one [OF inv i(1) nb dw empty_subsetI] by (elim exE conjE) (rule that, assumption+)
    have g: "blkflush st (fst k) (snd k) s = blkflush st (fst k) (snd k) s2"
      using Some f(1,2) nb by (subst blkflush.simps) (simp add: busy_def)
    have "\<not> busy s2 j \<and> B_DELWRI \<notin> b_flags (bufs s2 ! j)"
      if j: "j < length (bufs s2)" "tracked (bufs s2 ! j)" "bkey (bufs s2 ! j) = k" for j
    proof (cases "j = i")
      case False
      with j f(4,5) have "tracked (bufs s ! j)" "bkey (bufs s ! j) = k" "j < length (bufs s)" by auto
      with inv i False show ?thesis unfolding cache_ok_def keys_unique_def by metis
    qed (use f in auto)
    then have "blkflush st (fst k) (snd k) s2 = (Inr (), s2) \<and> blk (bdevs s2) k = bview blk s2 k"
      by (intro clean f(3)) blast
    moreover have "busy s2 j = busy s j" if "j < length (bufs s)" for j
      using that f(5,6) nb by (cases "j = i") (simp_all add: busy_def)
    ultimately show ?thesis
      using g f(3,4,8) k by (intro exI [of _ s2]) simp
  qed
qed

text \<open>A read that is started ahead releases its buffer by itself.\<close>

lemma bstart_read_async_ok:
  assumes inv: "cache_ok okd blk K s" and i: "i < length (bufs s)" and bz: "busy s i"
    and tr: "tracked (bufs s ! i)" and nf: "b_flags (bufs s ! i) \<inter> {B_DONE, B_DELWRI} = {}"
  shows "\<exists>s'. bstart_read st {B_READ, B_ASYNC} i s = (Inr (), s') \<and> cache_ok okd blk K s' \<and>
     released i s s' \<and> (\<forall>k\<in>K. bview blk s' k = bview blk s k)"
proof -
  let ?b = "bufs s ! i"
  let ?c = "?b\<lparr>b_flags := b_flags ?b \<union> {B_READ, B_ASYNC}, b_bcount := DEV_BSIZE\<rparr>"
  define u where "u = updbuf i (\<lambda>b. b\<lparr>b_flags := b_flags b \<union> {B_READ, B_ASYNC}, b_bcount := DEV_BSIZE\<rparr>) s"
  have u: "bufs u = (bufs s)[i := ?c]" "hashq u = hashq s" "freeq u = freeq s" "bdevs u = bdevs s"
    by (simp_all add: u_def)
  note D = cache_okD [OF inv i]
  have "bkey ?c \<in> K" "b_resid ?c = 0" "bkey ?c = bkey ?b"
    using D(1) tr by (simp_all add: bkey_def buf_ok_def)
  then obtain x d' where x: "st ?c (bdevs s) = Some (x, d')" "x_done x" "\<not> x_failed x" "x_resid x = 0"
      "x_data x = blk (bdevs s) (bkey ?b)" "okd d'" "\<forall>k\<in>K. blk d' k = blk (bdevs s) k"
    using dev_read [OF D(2), of ?c] by auto
  define v where "v = updbuf i (xfer_end x) (u\<lparr>bdevs := d'\<rparr>)"
  have ds: "d_strategy st i u = biodone i v"
    unfolding v_def using x(1,2) i by (intro d_strategy_done) (simp_all add: u)
  have v: "bufs v = (bufs s)[i := xfer_end x ?c]" "i < length (bufs v)" "hashq v = hashq s"
      "freeq v = freeq s" "bdevs v = d'"
    using i by (simp_all add: v_def u)
  have "b_flags (bufs v ! i) \<inter> {B_DONE, B_ERROR, B_LOCKED} = {}" "B_ASYNC \<in> b_flags (bufs v ! i)"
    using i nf D(1) x(3) by (auto simp: v(1) xfer_end_def buf_ok_def)
  from biodone_async [OF v(2) this] obtain w where w: "biodone i v = (Inr (), w)"
      "bufs w = (bufs v)[i := (bufs v ! i)\<lparr>b_flags := insert B_DONE (b_flags (bufs v ! i)) - {B_WANTED, B_BUSY, B_ASYNC, B_AGE}\<rparr>]"
      "hashq w = hashq v" "freed i (freeq v) (freeq w)" "bdevs w = bdevs v"
    by (elim exE conjE) (rule that)
  define s' where "s' = w\<lparr>ru_inblock := ru_inblock w + 1\<rparr>"
  let ?d = "(xfer_end x ?c)\<lparr>b_flags := insert B_DONE (b_flags ?b \<union> {B_READ, B_ASYNC}) - {B_WANTED, B_BUSY, B_ASYNC, B_AGE}\<rparr>"
  have s': "bufs s' = (bufs s)[i := ?d]" "hashq s' = hashq s" "freed i (freeq s) (freeq s')" "bdevs s' = d'"
    using i x(3) w(4) by (simp_all add: s'_def w(2,3,5) v xfer_end_def)
  have d: "B_BUSY \<notin> b_flags ?d" "b_dev ?d = b_dev ?b" "b_blkno ?d = b_blkno ?b" "tracked ?d = tracked ?b"
    "buf_ok K ?d" "bkey ?d = bkey ?b" "b_data ?d = blk (bdevs s) (bkey ?b)" "B_DELWRI \<notin> b_flags ?d"
    using D(1) x(3,4,5) nf by (auto simp: xfer_end_def tracked_def bkey_def buf_ok_def)
  have cl: "clean_copy blk (bdevs s') ?d"
    using d x(7) s'(4) D(1) tr by (simp add: clean_copy_def buf_ok_def)
  have oth: "\<forall>k\<in>K. \<not> (tracked ?b \<and> k = bkey ?b) \<longrightarrow> blk (bdevs s') k = blk (bdevs s) k"
    using x(7) s'(4) by simp
  have "cache_ok okd blk K s'"
    by (rule cache_ok_update [OF inv i bz s'(1,2)]) (use d s' x(6) oth cl in simp_all)
  moreover have "bview blk s' k = bview blk s k" if "k \<in> K" for k
  proof -
    have "bview blk s' k = (if tracked ?b \<and> k = bkey ?b
       then (if B_DELWRI \<in> b_flags ?d then b_data ?d else blk (bdevs s') k) else bview blk s k)"
      by (rule bview_update [OF inv i s'(1)]) (use d oth that in simp_all)
    then show ?thesis
      using bview_tracked [OF inv i tr] nf d(8) x(7) s'(4) that by auto
  qed
  moreover have "bstart_read st {B_READ, B_ASYNC} i s = (Inr (), s')"
    using ds w(1) by (simp add: bstart_read_def s'_def u_def)
  ultimately show ?thesis
    using i d(1) by (intro exI [of _ s']) (simp add: s'(1) busy_def released_def)
qed

lemma breada_ahead_ok:
  assumes inv: "cache_ok okd blk K s" and k: "rablkno \<noteq> 0 \<longrightarrow> (dev, rablkno) \<in> K"
    and fr: "j < length (bufs s)" "\<not> busy s j"
  shows "\<exists>s'. breada_ahead st dev rablkno s = (Inr (), s') \<and> cache_ok okd blk K s' \<and> held_kept s s' \<and>
     (\<forall>j<length (bufs s). busy s' j = busy s j) \<and> (\<forall>k\<in>K. bview blk s' k = bview blk s k)"
proof (cases "rablkno = 0 \<or> incore dev rablkno s")
  case True
  then show ?thesis using inv by (simp add: breada_ahead_def)
next
  case False
  let ?k = "(dev, rablkno)"
  have kK: "?k \<in> K" using False k by blast
  have miss: "find (\<lambda>i. holds (fst ?k) (snd ?k) (bufs s ! i)) (hashq s ! BUFHASH (fst ?k) (snd ?k)) = None"
    using False by (simp add: incore_def)
  have av: "available s ?k"
    unfolding available_def using fr lookup_None [OF inv kK miss] by blast
  obtain i s1 where g: "getblk st dev rablkno s = (Inr i, s1)" "grabbed okd blk K i ?k s s1"
      "b_flags (bufs s1 ! i) \<inter> {B_DONE, B_DELWRI} \<noteq> {} \<longrightarrow> b_data (bufs s1 ! i) = bview blk s ?k"
    using getblk_ok [OF inv kK av] by auto
  have i: "cache_ok okd blk K s1" "i < length (bufs s1)" "busy s1 i" "tracked (bufs s1 ! i)"
      "bkey (bufs s1 ! i) = ?k" "length (bufs s1) = length (bufs s)" "\<not> busy s i" "held_kept s s1"
      "\<forall>j<length (bufs s). busy s1 j \<longleftrightarrow> j = i \<or> busy s j" "\<forall>k\<in>K. bview blk s1 k = bview blk s k"
    using g(2) by (simp_all add: grabbed_def held_kept_def)
  have fin: "held_kept s s2" "\<forall>j<length (bufs s). busy s2 j = busy s j" if "released i s1 s2" for s2
    using that i(6-9) unfolding released_def held_kept_def busy_def by metis+
  show ?thesis
  proof (cases "b_flags (bufs s1 ! i) \<inter> {B_DONE, B_DELWRI} = {}")
    case True
    obtain s2 where r: "bstart_read st {B_READ, B_ASYNC} i s1 = (Inr (), s2)" "cache_ok okd blk K s2"
       "released i s1 s2" "\<forall>k\<in>K. bview blk s2 k = bview blk s1 k"
      using bstart_read_async_ok [OF i(1-4) True] by blast
    have "breada_ahead st dev rablkno s = (Inr (), s2)"
      using g(1) r(1) False True by (simp add: breada_ahead_def)
    with r fin [OF r(3)] i(10) show ?thesis by simp
  next
    case dd: False
    have "clean_copy blk (bdevs s1) (bufs s1 ! i)"
      using dd g(3) bview_tracked [OF i(1,2,4)] i(5,10) kK by (auto simp: clean_copy_def split: if_splits)
    note r = brelse_ok [OF i(1-3) this]
    have "breada_ahead st dev rablkno s = (Inr (), brelse i s1)"
      using g(1) False dd by (simp add: breada_ahead_def)
    with r fin [OF r(3)] i(10) show ?thesis by simp
  qed
qed

lemma breada_ok:
  assumes inv: "cache_ok okd blk K s" and k: "k \<in> K" and ra: "rablkno \<noteq> 0 \<longrightarrow> (fst k, rablkno) \<in> K"
    and id: "idle s" and two: "2 \<le> length (bufs s)"
  shows "\<exists>i s'. breada st (fst k) (snd k) rablkno s = (Inr i, s') \<and> grabbed okd blk K i k s s' \<and>
     b_data (bufs s' ! i) = bview blk s k"
proof (cases "incore (fst k) (snd k) s")
  case True
  have fr: "0 < length (bufs s)" "\<not> busy s 0" using id two unfolding idle_def by (auto dest: spec [of _ 0])
  obtain s1 where a: "breada_ahead st (fst k) rablkno s = (Inr (), s1)" "cache_ok okd blk K s1"
      "held_kept s s1" "\<forall>j<length (bufs s). busy s1 j = busy s j" "\<forall>k\<in>K. bview blk s1 k = bview blk s k"
    using breada_ahead_ok [OF inv ra fr] by blast
  have id1: "idle s1" "length (bufs s1) = length (bufs s)"
    using id a(3,4) by (simp_all add: idle_def held_kept_def)
  have "bufs s1 \<noteq> []" using fr id1(2) by auto
  then have av: "available s1 k" using id1 idle_available by blast
  obtain i s2 where r: "bread st (fst k) (snd k) s1 = (Inr i, s2)" "grabbed okd blk K i k s1 s2"
      "b_data (bufs s2 ! i) = bview blk s1 k"
    using bread_ok [OF a(2) k av] by blast
  have "breada st (fst k) (snd k) rablkno s = (Inr i, s2)"
    using True a(1) r(1) by (simp add: breada_def breada_first_def)
  moreover have "grabbed okd blk K i k s s2"
    using r(2) a(4,5) id1(2) held_kept_trans [OF a(3)] by (auto simp: grabbed_def)
  ultimately show ?thesis using r(3) a(5) k by auto
next
  case False
  have ne: "bufs s \<noteq> []" using two by auto
  obtain i s1 where g: "getblk st (fst k) (snd k) s = (Inr i, s1)" "grabbed okd blk K i k s s1"
      "b_flags (bufs s1 ! i) \<inter> {B_DONE, B_DELWRI} = {}"
    using getblk_ok [OF inv k idle_available [OF id ne]] False by blast
  have i: "cache_ok okd blk K s1" "i < length (bufs s1)" "busy s1 i" "tracked (bufs s1 ! i)"
      "bkey (bufs s1 ! i) = k" "length (bufs s1) = length (bufs s)" "held_kept s s1"
      "\<forall>j<length (bufs s). busy s1 j \<longleftrightarrow> j = i \<or> busy s j" "\<forall>k\<in>K. bview blk s1 k = bview blk s k"
      "\<not> busy s i"
    using g(2) by (simp_all add: grabbed_def held_kept_def)
  obtain s2 where r: "bstart_read st {B_READ} i s1 = (Inr (), s2)" "biowait i s2 = (Inr (), s2)"
      "cache_ok okd blk K s2" "tracked (bufs s2 ! i)" "bkey (bufs s2 ! i) = bkey (bufs s1 ! i)"
      "busy s2 i" "length (bufs s2) = length (bufs s1)"
      "\<forall>j<length (bufs s1). j \<noteq> i \<longrightarrow> bufs s2 ! j = bufs s1 ! j"
      "\<forall>k\<in>K. bview blk s2 k = bview blk s1 k" "b_data (bufs s2 ! i) = bview blk s1 (bkey (bufs s1 ! i))"
    using bstart_read_ok [OF i(1-4) g(3)] by (elim exE conjE) (rule that)
  have first: "breada_first st (fst k) (snd k) s = (Inr (Some i), s2)"
    using False g(1,3) r(1) by (simp add: breada_first_def)
  obtain j where j: "j < length (bufs s)" "j \<noteq> i"
    using two by (cases "i = 0") (auto intro: that [of 0] that [of 1])
  have fr: "j < length (bufs s2)" "\<not> busy s2 j"
    using j r(7,8) i(6,8) id by (auto simp: busy_def idle_def)
  obtain s3 where a: "breada_ahead st (fst k) rablkno s2 = (Inr (), s3)" "cache_ok okd blk K s3"
      "held_kept s2 s3" "\<forall>j<length (bufs s2). busy s3 j = busy s2 j" "\<forall>k\<in>K. bview blk s3 k = bview blk s2 k"
    using breada_ahead_ok [OF r(3) ra fr] by blast
  have same: "bufs s3 ! i = bufs s2 ! i" "length (bufs s3) = length (bufs s)"
    using a(3) r(6,7) i(2,6) by (simp_all add: held_kept_def)
  have "B_DONE \<in> b_flags (bufs s3 ! i)" using r(2) same by (simp add: biowait_def split: if_splits)
  moreover have "B_ERROR \<notin> b_flags (bufs s3 ! i)"
    using cache_okD(1) [OF a(2), of i] same i(2,6) by (auto simp: buf_ok_def)
  ultimately have "biowait i s3 = (Inr (), s3)" by (simp add: biowait_def geterror_def)
  then have "breada st (fst k) (snd k) rablkno s = (Inr i, s3)"
    using first a(1) by (simp add: breada_def)
  moreover have hk: "held_kept s s2"
    using i(6,7,10) r(7,8) unfolding held_kept_def by metis
  have "grabbed okd blk K i k s s3"
    unfolding grabbed_def using a(2,4,5) i(2,5,6,8,9,10) r(4,5,6,7,8,9) same held_kept_trans [OF hk a(3)]
    by (auto simp: busy_def)
  moreover have "b_data (bufs s3 ! i) = bview blk s k"
    using same r(10) i(5,9) k by simp
  ultimately show ?thesis by blast
qed

lemma put_buf_ok:
  assumes inv: "cache_ok okd blk K s" and i: "i < length (bufs s)" and bz: "busy s i"
    and tr: "tracked (bufs s ! i)"
  shows "\<exists>s'. put_buf st m i d s = (Inr (), s') \<and> cache_ok okd blk K s' \<and> released i s s' \<and>
     (\<forall>k\<in>K. bview blk s' k = (if k = bkey (bufs s ! i) then d else bview blk s k)) \<and>
     (m = Delayed \<or> blk (bdevs s') (bkey (bufs s ! i)) = d)"
proof -
  let ?b = "bufs s ! i"
  let ?d = "?b\<lparr>b_data := d\<rparr>"
  define u where "u = updbuf i (\<lambda>b. b\<lparr>b_data := d\<rparr>) s"
  have u: "bufs u = (bufs s)[i := ?d]" "hashq u = hashq s" "freeq u = freeq s" "bdevs u = bdevs s"
    by (simp_all add: u_def)
  note D = cache_okD [OF inv i]
  have d: "B_BUSY \<in> b_flags ?d" "b_dev ?d = b_dev ?b" "b_blkno ?d = b_blkno ?b"
    "tracked ?d = tracked ?b" "buf_ok K ?d"
    using bz D(1) by (auto simp: busy_def tracked_def buf_ok_def bkey_def)
  note h = held_update_ok [OF inv i bz u d]
  have ui: "i < length (bufs u)" "busy u i" "tracked (bufs u ! i)" "bkey (bufs u ! i) = bkey ?b"
      "b_data (bufs u ! i) = d"
    using i d tr by (simp_all add: u busy_def bkey_def)
  have rel: "released i s s'" if "released i u s'" for s'
    using that by (simp add: released_def u)
  have view: "\<forall>k\<in>K. bview blk s' k = (if k = bkey ?b then d else bview blk s k)"
    if v: "\<forall>k\<in>K. bview blk s' k = (if k = bkey (bufs u ! i) then b_data (bufs u ! i) else bview blk u k)" for s'
    using v h(2) ui(4,5) by auto
  have kK: "bkey ?b \<in> K" using D(1) tr by (simp add: buf_ok_def)
  show ?thesis
  proof (cases m)
    case Sync
    obtain s' where "bwrite st i (setf i {} u) = (Inr (), s')" "cache_ok okd blk K s'" "released i u s'"
      "\<forall>k\<in>K. bview blk s' k = (if k = bkey (bufs u ! i) then b_data (bufs u ! i) else bview blk u k)"
      "\<forall>k\<in>K. blk (bdevs s') k = (if k = bkey (bufs u ! i) then b_data (bufs u ! i) else blk (bdevs u) k)"
      using bwrite_ok [OF h(1) ui(1-3) empty_subsetI] by blast
    with rel view ui(4,5) kK show ?thesis
      by (intro exI [of _ s']) (simp add: put_buf_def Sync u_def [symmetric])
  next
    case Async
    obtain s' where "bwrite st i (setf i {B_ASYNC} u) = (Inr (), s')" "cache_ok okd blk K s'" "released i u s'"
      "\<forall>k\<in>K. bview blk s' k = (if k = bkey (bufs u ! i) then b_data (bufs u ! i) else bview blk u k)"
      "\<forall>k\<in>K. blk (bdevs s') k = (if k = bkey (bufs u ! i) then b_data (bufs u ! i) else blk (bdevs u) k)"
      using bwrite_ok [OF h(1) ui(1-3) subset_refl] by blast
    with rel view ui(4,5) kK show ?thesis
      by (intro exI [of _ s']) (simp add: put_buf_def Async bawrite_def u_def [symmetric])
  next
    case Delayed
    obtain s' where "bdwrite st i u = (Inr (), s')" "cache_ok okd blk K s'" "released i u s'"
      "\<forall>k\<in>K. bview blk s' k = (if k = bkey (bufs u ! i) then b_data (bufs u ! i) else bview blk u k)"
      using bdwrite_ok [OF h(1) ui(1-3)] by blast
    with rel view show ?thesis
      by (intro exI [of _ s']) (simp add: put_buf_def Delayed u_def [symmetric])
  qed
qed

text \<open>A buffer that was read is given back unchanged.\<close>

lemma read_release:
  assumes g: "grabbed okd blk K i k s s1" and d: "b_data (bufs s1 ! i) = bview blk s k"
    and k: "k \<in> K" and id: "idle s"
  shows "cache_ok okd blk K (brelse i s1)" and "idle (brelse i s1)"
    and "length (bufs (brelse i s1)) = length (bufs s)"
    and "k' \<in> K \<Longrightarrow> bview blk (brelse i s1) k' = bview blk s k'"
proof -
  have i: "cache_ok okd blk K s1" "i < length (bufs s1)" "busy s1 i" "tracked (bufs s1 ! i)"
      "bkey (bufs s1 ! i) = k" "\<forall>k\<in>K. bview blk s1 k = bview blk s k"
    using g by (simp_all add: grabbed_def held_kept_def)
  have "clean_copy blk (bdevs s1) (bufs s1 ! i)"
    using d bview_tracked [OF i(1,2,4)] i(5,6) k by (auto simp: clean_copy_def)
  note r = brelse_ok [OF i(1-3) this]
  show "cache_ok okd blk K (brelse i s1)" by (rule r(1))
  show "idle (brelse i s1)" "length (bufs (brelse i s1)) = length (bufs s)"
    using released_idle [OF g id r(3)] by blast+
  show "bview blk (brelse i s1) k' = bview blk s k'" if "k' \<in> K"
    using r(2) [OF that] i(6) that by simp
qed

lemma bio_step_ok:
  assumes inv: "cache_ok okd blk K s" and id: "idle s" and two: "2 \<le> length (bufs s)"
    and ops: "op_blocks p \<subseteq> K" and L: "\<forall>k\<in>K. bview blk s k = L k"
  shows "\<exists>s'. bio_step st p s = (Inr (fst (disk_step p L)), s') \<and> cache_ok okd blk K s' \<and> idle s' \<and>
     length (bufs s') = length (bufs s) \<and> (\<forall>k\<in>K. bview blk s' k = snd (disk_step p L) k)"
proof (cases p)
  case (BRead dev b)
  then have k: "(dev, b) \<in> K" using ops by simp
  have av: "available s (dev, b)" using two by (intro idle_available id) auto
  obtain i s1 where r: "bread st dev b s = (Inr i, s1)" "grabbed okd blk K i (dev, b) s s1"
      "b_data (bufs s1 ! i) = bview blk s (dev, b)"
    using bread_ok [OF inv k av] by auto
  with read_release [OF r(2,3) k id] L k show ?thesis by (simp add: BRead)
next
  case (BReadAhead dev b ra)
  then have k: "(dev, b) \<in> K" and ra: "ra \<noteq> 0 \<longrightarrow> (fst (dev, b), ra) \<in> K" using ops by (auto split: if_splits)
  obtain i s1 where r: "breada st dev b ra s = (Inr i, s1)" "grabbed okd blk K i (dev, b) s s1"
      "b_data (bufs s1 ! i) = bview blk s (dev, b)"
    using breada_ok [OF inv k ra id two] by auto
  with read_release [OF r(2,3) k id] L k show ?thesis by (simp add: BReadAhead)
next
  case (BWrite m dev b d)
  then have k: "(dev, b) \<in> K" using ops by simp
  have av: "available s (dev, b)" using two by (intro idle_available id) auto
  obtain i s1 where g: "getblk st dev b s = (Inr i, s1)" "grabbed okd blk K i (dev, b) s s1"
    using getblk_ok [OF inv k av] by auto
  have i: "cache_ok okd blk K s1" "i < length (bufs s1)" "busy s1 i" "tracked (bufs s1 ! i)"
      "bkey (bufs s1 ! i) = (dev, b)" "\<forall>k\<in>K. bview blk s1 k = bview blk s k"
    using g(2) by (simp_all add: grabbed_def held_kept_def)
  obtain s2 where w: "put_buf st m i d s1 = (Inr (), s2)" "cache_ok okd blk K s2" "released i s1 s2"
      "\<forall>k\<in>K. bview blk s2 k = (if k = bkey (bufs s1 ! i) then d else bview blk s1 k)"
    using put_buf_ok [OF i(1-4)] by blast
  have "\<forall>k\<in>K. bview blk s2 k = (L((dev, b) := d)) k"
    using w(4) i(5,6) L by auto
  with g(1) w(1,2) released_idle [OF g(2) id w(3)] show ?thesis by (simp add: BWrite)
next
  case (BFlush dev)
  have "\<forall>j<length (bufs s). B_DELWRI \<in> b_flags (bufs s ! j) \<and> b_dev (bufs s ! j) = dev \<longrightarrow> \<not> busy s j"
    using id by (simp add: idle_def)
  from bflush_ok [OF inv this] obtain s' where r: "bflush st dev s = (Inr (), s')" "cache_ok okd blk K s'"
      "length (bufs s') = length (bufs s)" "\<forall>j<length (bufs s). busy s' j = busy s j"
      "\<forall>k\<in>K. bview blk s' k = bview blk s k"
    by blast
  with id L show ?thesis by (simp add: BFlush idle_def)
next
  case (BBlkFlush dev b)
  then have k: "(dev, b) \<in> K" using ops by simp
  have av: "available s (dev, b)" using two by (intro idle_available id) auto
  obtain s' where r: "blkflush st dev b s = (Inr (), s')" "cache_ok okd blk K s'"
      "length (bufs s') = length (bufs s)" "\<forall>j<length (bufs s). busy s' j = busy s j"
      "\<forall>k\<in>K. bview blk s' k = bview blk s k"
    using blkflush_ok [OF inv k av] by auto
  with id L show ?thesis by (simp add: BBlkFlush idle_def)
qed

lemma bio_run_ok:
  assumes "cache_ok okd blk K s" and "idle s" and "2 \<le> length (bufs s)"
    and "\<forall>p\<in>set ps. op_blocks p \<subseteq> K" and "\<forall>k\<in>K. bview blk s k = L k"
  shows "\<exists>s'. bio_run st ps s = (Inr (fst (disk_run ps L)), s') \<and> cache_ok okd blk K s' \<and> idle s' \<and>
     length (bufs s') = length (bufs s) \<and> (\<forall>k\<in>K. bview blk s' k = snd (disk_run ps L) k)"
  using assms
proof (induction ps arbitrary: s L)
  case Nil
  then show ?case by auto
next
  case (Cons p ps)
  have op: "op_blocks p \<subseteq> K" using Cons.prems by simp
  obtain s1 where s1: "bio_step st p s = (Inr (fst (disk_step p L)), s1)" "cache_ok okd blk K s1" "idle s1"
      "length (bufs s1) = length (bufs s)" "\<forall>k\<in>K. bview blk s1 k = snd (disk_step p L) k"
    using bio_step_ok [OF Cons.prems(1-3) op Cons.prems(5)] by blast
  obtain s2 where "bio_run st ps s1 = (Inr (fst (disk_run ps (snd (disk_step p L)))), s2)"
      "cache_ok okd blk K s2" "idle s2" "length (bufs s2) = length (bufs s1)"
      "\<forall>k\<in>K. bview blk s2 k = snd (disk_run ps (snd (disk_step p L))) k"
    using Cons.IH [OF s1(2,3), of "snd (disk_step p L)"] s1(4,5) Cons.prems(3,4) by auto
  with s1 show ?case by (auto simp: case_prod_beta)
qed

end

context blockdev
begin

text \<open>
  \<^verbatim>\<open>getblk\<close> after its search, as a process that slept for a buffer resumes it: it takes a free
  buffer for the block whether or not the block has one by now.
\<close>

lemma getblk_new_takes:
  assumes inv: "cache_ok okd blk K s" and k: "k \<in> K" and j: "j < length (bufs s)" "\<not> busy s j"
  shows "\<exists>i s'. getblk_new st (fst k) (snd k) s = (Inr i, s') \<and> i < length (bufs s) \<and> \<not> busy s i \<and>
     held_kept s s' \<and> busy s' i \<and> holds (fst k) (snd k) (bufs s' ! i) \<and>
     (\<forall>j<length (bufs s). busy s' j \<longleftrightarrow> j = i \<or> busy s j)"
proof -
  obtain i t where g: "getnewbuf st s = (Inr i, updbuf i (\<lambda>b. b\<lparr>b_flags := {B_BUSY}\<rparr>) t)"
     "i < length (bufs s)" "\<not> busy s i" "cache_ok okd blk K t" "B_DELWRI \<notin> b_flags (bufs t ! i)"
     "length (bufs t) = length (bufs s)" "\<forall>j<length (bufs s). busy t j \<longleftrightarrow> j = i \<or> busy s j"
     "held_kept s t"
    using getnewbuf_ok [OF inv j] by (elim exE conjE) (rule that, assumption+)
  let ?b' = "(bufs t ! i)\<lparr>b_flags := {B_BUSY}, b_bcount := 0, b_dev := fst k, b_blkno := snd k, b_error := 0\<rparr>"
  obtain s' where s': "getblk_new st (fst k) (snd k) s = (Inr i, s')" "bufs s' = (bufs t)[i := ?b']"
    using g(1,2,6) by (simp add: getblk_new_def binshash_def bremhash_def)
  have "held_kept s s'"
    using g(3,6,8) unfolding held_kept_def s'(2) by (metis length_list_update nth_list_update_neq)
  moreover have "\<forall>j<length (bufs s). busy s' j \<longleftrightarrow> j = i \<or> busy s j"
    using g(2,6,7) by (auto simp: busy_def s'(2) nth_list_update)
  ultimately show ?thesis
    using g(2,3,6) s' by (auto simp: holds_def busy_def)
qed

lemma getblk_all_busy:
  assumes "cache_ok okd blk K s" and "\<forall>j<length (bufs s). busy s j" and "\<not> incore dev b s"
  shows "getblk st dev b s = (Inl (BSleep FreeChan), s\<lparr>free_wanted := True\<rparr>)"
proof -
  have "occ (freeq s) j = 0" for j
    using assms(1,2) by (simp add: cache_ok_def lists_ok_def)
  then have no: "j \<notin> set (concat (freeq s))" for j using occ_pos [of "freeq s" j] by simp
  have "freeq s ! q = []" if "q < 3" for q
  proof (rule ccontr)
    assume "freeq s ! q \<noteq> []"
    then have "hd (freeq s ! q) \<in> set (freeq s ! q)" by simp
    moreover have "freeq s ! q \<in> set (freeq s)"
      using that assms(1) by (simp add: cache_ok_def lists_ok_def)
    ultimately show False using no [of "hd (freeq s ! q)"] by auto
  qed
  then have "first_free s = None" by (simp add: first_free_def)
  then have "getnewbuf st s = (Inl (BSleep FreeChan), s\<lparr>free_wanted := True\<rparr>)"
    by (subst getnewbuf.simps) simp
  then show ?thesis
    using assms(3) by (simp add: getblk_def getblk_new_def incore_def split: option.split)
qed

end

text \<open>The same buffers are in use before and after, with the same contents.\<close>

definition same_holds :: "'d bcache \<Rightarrow> 'd bcache \<Rightarrow> bool" where
  "same_holds s s' \<longleftrightarrow> held_kept s s' \<and> (\<forall>j<length (bufs s). busy s' j = busy s j)"

lemma same_holds_refl [simp]: "same_holds s s"
  by (simp add: same_holds_def)

lemma same_holds_trans: "same_holds s t \<Longrightarrow> same_holds t u \<Longrightarrow> same_holds s u"
  using held_kept_trans [of s t u] by (auto simp: same_holds_def held_kept_def)

lemma same_holds_available: "same_holds s s' \<Longrightarrow> available s' k = available s k"
  by (auto simp: same_holds_def held_kept_def available_def)

lemma grabbed_released:
  assumes "grabbed okd blk K i k s s1" and "released i s1 s2"
  shows "same_holds s s2"
  using assms unfolding grabbed_def released_def same_holds_def held_kept_def busy_def by metis

lemma grabbedD:
  assumes "grabbed okd blk K i k s s1"
  shows "cache_ok okd blk K s1" and "i < length (bufs s1)" and "busy s1 i" and "tracked (bufs s1 ! i)"
    and "bkey (bufs s1 ! i) = k" and "\<forall>k\<in>K. bview blk s1 k = bview blk s k"
  using assms by (simp_all add: grabbed_def held_kept_def)

context blockdev
begin

lemma read_and_release:
  assumes inv: "cache_ok okd blk K s" and k: "k \<in> K" and av: "available s k"
  shows "\<exists>i s1. bread st (fst k) (snd k) s = (Inr i, s1) \<and> grabbed okd blk K i k s s1 \<and>
     b_data (bufs s1 ! i) = bview blk s k \<and> buf_ok K (bufs s1 ! i) \<and>
     cache_ok okd blk K (brelse i s1) \<and> same_holds s (brelse i s1) \<and>
     (\<forall>k\<in>K. bview blk (brelse i s1) k = bview blk s k)"
proof -
  obtain i s1 where r: "bread st (fst k) (snd k) s = (Inr i, s1)" "grabbed okd blk K i k s s1"
      "b_data (bufs s1 ! i) = bview blk s k"
    using bread_ok [OF inv k av] by blast
  note g = grabbedD [OF r(2)]
  have "clean_copy blk (bdevs s1) (bufs s1 ! i)"
    using r(3) bview_tracked [OF g(1,2,4)] g(5,6) k by (auto simp: clean_copy_def)
  note b = brelse_ok [OF g(1-3) this]
  show ?thesis
    using r b(1,2) g(6) cache_okD(1) [OF g(1,2)] grabbed_released [OF r(2) b(3)] by auto
qed

lemma fill_and_write:
  assumes inv: "cache_ok okd blk K s" and k: "k \<in> K" and av: "available s k"
  shows "\<exists>i s1. getblk st (fst k) (snd k) s = (Inr i, s1) \<and>
     (\<forall>d. \<exists>s2. put_buf st m i d s1 = (Inr (), s2) \<and> cache_ok okd blk K s2 \<and> same_holds s s2 \<and>
        (\<forall>k'\<in>K. bview blk s2 k' = (if k' = k then d else bview blk s k')))"
proof -
  obtain i s1 where r: "getblk st (fst k) (snd k) s = (Inr i, s1)" "grabbed okd blk K i k s s1"
    using getblk_ok [OF inv k av] by blast
  note g = grabbedD [OF r(2)]
  have "\<exists>s2. put_buf st m i d s1 = (Inr (), s2) \<and> cache_ok okd blk K s2 \<and> same_holds s s2 \<and>
        (\<forall>k'\<in>K. bview blk s2 k' = (if k' = k then d else bview blk s k'))" for d
  proof -
    obtain s2 where w: "put_buf st m i d s1 = (Inr (), s2)" "cache_ok okd blk K s2" "released i s1 s2"
        "\<forall>k\<in>K. bview blk s2 k = (if k = bkey (bufs s1 ! i) then d else bview blk s1 k)"
      using put_buf_ok [OF g(1-4)] by blast
    have "\<forall>k'\<in>K. bview blk s2 k' = (if k' = k then d else bview blk s k')"
      using w(4) g(5,6) by simp
    then show ?thesis using w(1,2) grabbed_released [OF r(2) w(3)] by blast
  qed
  with r(1) show ?thesis by blast
qed

end

section \<open>The pool at boot\<close>

definition boot_buf :: "kbuf \<Rightarrow> kbuf" where
  "boot_buf b = b\<lparr>b_dev := NODEV, b_bcount := 0, b_flags := {B_INVAL}\<rparr>"

definition boot_step :: "nat \<Rightarrow> 'd bcache \<Rightarrow> 'd bcache" where
  "boot_step i s = brelse i (updbuf i (\<lambda>b. b\<lparr>b_dev := NODEV, b_bcount := 0,
     b_flags := {B_BUSY, B_INVAL}\<rparr>) (binshash i 16 s))"

definition boot_pool :: "'d \<Rightarrow> kbuf list \<Rightarrow> nat \<Rightarrow> 'd bcache" where
  "boot_pool d bs m =
     \<lparr>bufs = map boot_buf (take m bs) @ drop m bs, hashq = replicate 16 [] @ [rev [0..<m]],
      freeq = [[], [], rev [0..<m]], free_wanted = False, woken = [], bu_error = 0,
      ru_inblock = 0, ru_oublock = 0, bdevs = d\<rparr>"

lemma brelse_fresh:
  assumes "B_WANTED \<notin> b_flags (bufs s ! i)" and "B_ERROR \<notin> b_flags (bufs s ! i)"
    and "B_INVAL \<in> b_flags (bufs s ! i)" and "\<not> free_wanted s"
  shows "brelse i s = clrf i {B_WANTED, B_BUSY, B_ASYNC, B_AGE} (binsheadfree i 2 s)"
  using assms by (simp add: brelse_def)

lemma boot_step_pool:
  assumes "m < length bs"
  shows "boot_step m (boot_pool d bs m) = boot_pool d bs (Suc m)"
proof -
  have nth: "(map boot_buf (take m bs) @ drop m bs) ! m = bs ! m"
    using assms by (simp add: nth_append)
  have upd: "(map boot_buf (take m bs) @ drop m bs)[m := x] = map boot_buf (take m bs) @ x # drop (Suc m) bs" for x
    using assms by (simp add: list_update_append Cons_nth_drop_Suc [symmetric])
  have tk: "map boot_buf (take (Suc m) bs) = map boot_buf (take m bs) @ [boot_buf (bs ! m)]"
    using assms by (simp add: take_Suc_conv_app_nth)
  have hl: "(replicate 16 [] @ [rev [0..<m]]) ! 16 = rev [0..<m]"
    "(replicate 16 [] @ [rev [0..<m]])[16 := x] = replicate 16 [] @ [x]" for x :: "nat list"
    by (simp_all add: nth_append list_update_append)
  let ?c = "(bs ! m)\<lparr>b_dev := NODEV, b_bcount := 0, b_flags := {B_BUSY, B_INVAL}\<rparr>"
  define u where "u = (boot_pool d bs m)\<lparr>bufs := map boot_buf (take m bs) @ ?c # drop (Suc m) bs,
     hashq := replicate 16 [] @ [m # rev [0..<m]]\<rparr>"
  have "updbuf m (\<lambda>b. b\<lparr>b_dev := NODEV, b_bcount := 0, b_flags := {B_BUSY, B_INVAL}\<rparr>)
      (binshash m 16 (boot_pool d bs m)) = u"
    by (simp add: u_def boot_pool_def updbuf_def binshash_def nth upd hl del: replicate.simps)
  moreover have um: "bufs u ! m = ?c" "\<not> free_wanted u"
    using assms by (simp_all add: u_def boot_pool_def nth_append)
  ultimately have "boot_step m (boot_pool d bs m) = clrf m {B_WANTED, B_BUSY, B_ASYNC, B_AGE} (binsheadfree m 2 u)"
    by (simp add: boot_step_def brelse_fresh)
  also have "\<dots> = boot_pool d bs (Suc m)"
  proof -
    have fl: "{B_BUSY, B_INVAL} - {B_WANTED, B_BUSY, B_ASYNC, B_AGE} = {B_INVAL}" by auto
    have up: "(map boot_buf (take m bs) @ ?c # drop (Suc m) bs)[m := x] = map boot_buf (take m bs) @ x # drop (Suc m) bs" for x
      using assms by (simp add: list_update_append)
    have fq: "freeq u = [[], [], rev [0..<m]]" "bufs u = map boot_buf (take m bs) @ ?c # drop (Suc m) bs"
      by (simp_all add: u_def boot_pool_def)
    have "clrf m {B_WANTED, B_BUSY, B_ASYNC, B_AGE} (binsheadfree m 2 u) =
      u\<lparr>freeq := [[], [], m # rev [0..<m]], bufs := map boot_buf (take m bs) @ boot_buf (bs ! m) # drop (Suc m) bs\<rparr>"
      using um(1) by (simp add: clrf_def updbuf_def binsheadfree_def fq up fl boot_buf_def numeral_2_eq_2)
    also have "\<dots> = boot_pool d bs (Suc m)"
      by (simp add: u_def boot_pool_def tk del: replicate.simps)
    finally show ?thesis .
  qed
  finally show ?thesis .
qed

lemma binit_pool: "binit d bs = boot_pool d bs (length bs)"
proof -
  have "fold boot_step [0..<m] (boot_pool d bs 0) = boot_pool d bs m" if "m \<le> length bs" for m
    using that by (induction m) (simp_all add: boot_step_pool)
  moreover have "boot_pool d bs 0 = \<lparr>bufs = bs, hashq = replicate 17 [], freeq = replicate 3 [],
     free_wanted = False, woken = [], bu_error = 0, ru_inblock = 0, ru_oublock = 0, bdevs = d\<rparr>"
    by (simp add: boot_pool_def numeral_eq_Suc)
  ultimately show ?thesis
    by (simp add: binit_def boot_step_def [abs_def])
qed

lemma count_list_upt: "count_list [0..<n] j = (if j < n then 1 else 0)"
  by (induction n) auto

lemma count_list_rev: "count_list (rev xs) j = count_list xs j"
  by (induction xs) auto

lemma occ_replicate_Nil: "occ (replicate n [] @ [xs]) j = count_list xs j"
  by (induction n) (simp_all add: occ_def)

lemma binit_ok:
  assumes "okd d" and "\<forall>b\<in>set bs. b_resid b = 0"
  shows "cache_ok okd blk K (binit d bs)" and "idle (binit d bs)"
    and "length (bufs (binit d bs)) = length bs" and "bview blk (binit d bs) k = blk d k"
proof -
  have nth: "bufs (boot_pool d bs (length bs)) ! j = boot_buf (bs ! j)" if "j < length bs" for j
    using that by (simp add: boot_pool_def)
  have len: "length (bufs (boot_pool d bs (length bs))) = length bs" by (simp add: boot_pool_def)
  have nb: "\<not> busy (boot_pool d bs (length bs)) j" if "j < length bs" for j
    using that by (simp add: busy_def nth boot_buf_def)
  have "lists_ok (boot_pool d bs (length bs))"
    unfolding lists_ok_def len using nb
    by (auto simp: nth boot_buf_def) 
      (auto simp: boot_pool_def occ_replicate_Nil count_list_rev count_list_upt occ_def nth_append)
  moreover have "keys_unique (boot_pool d bs (length bs))"
    by (simp add: keys_unique_def len nth boot_buf_def tracked_def)
  ultimately show "cache_ok okd blk K (binit d bs)"
    using assms by (simp add: binit_pool cache_ok_def len nth buf_ok_def clean_copy_def tracked_def boot_buf_def)
       (simp add: boot_pool_def)
  show "idle (binit d bs)" using nb by (simp add: binit_pool idle_def len)
  show "length (bufs (binit d bs)) = length bs" by (simp add: binit_pool len)
  have "bview blk (boot_pool d bs (length bs)) k = blk (bdevs (boot_pool d bs (length bs))) k"
    by (rule bview_clean) (simp add: len nth boot_buf_def)
  then show "bview blk (binit d bs) k = blk d k" by (simp add: binit_pool boot_pool_def)
qed

end
