(* ===== verification/Rdisk.thy ===== *)
theory Rdisk
  imports Bio_Client
begin

text \<open>
  The disk driver (sys/kernel/rdisk.c, sys/include/rdisk.h) above the table \<^verbatim>\<open>disks\<close> of
  physical devices, and the buffer cache on top of it. The routines of a physical device (an
  SD card behind an SPI port, an external RAM) are a parameter; the partition tables, the
  counts of open devices and the block numbers are the driver's own.
\<close>

section \<open>Model\<close>

record diskflags =
  df_opens :: u8
  df_start :: "u32 list"
  df_len :: "u32 list"
  df_blocks :: u32

text \<open>
  The columns of \<^verbatim>\<open>disks\<close>, indexed by the position of the entry; \<open>dk_read\<close> and \<open>dk_write\<close>
  return nonzero if successful.
\<close>

record 'm diskops =
  NRDSK :: nat
  dk_init :: "nat \<Rightarrow> int \<Rightarrow> 'm \<Rightarrow> int \<times> 'm"
  dk_deinit :: "nat \<Rightarrow> 'm \<Rightarrow> int \<times> 'm"
  dk_open :: "nat \<Rightarrow> int \<Rightarrow> int \<Rightarrow> 'm \<Rightarrow> int \<times> 'm"
  dk_size :: "nat \<Rightarrow> 'm \<Rightarrow> int"
  dk_read :: "nat \<Rightarrow> u32 \<Rightarrow> u32 list \<Rightarrow> nat \<Rightarrow> 'm \<Rightarrow> int \<times> u32 list \<times> 'm"
  dk_write :: "nat \<Rightarrow> u32 \<Rightarrow> u32 list \<Rightarrow> nat \<Rightarrow> 'm \<Rightarrow> int \<times> 'm"
  dk_readonly :: "nat \<Rightarrow> bool"

record 'm rdstate =
  dflags :: "diskflags list"
  rmedia :: 'm

definition major :: "int \<Rightarrow> nat" where
  "major x = nat ((x div 256) mod 256)"

definition minor :: "int \<Rightarrow> nat" where
  "minor x = nat (x mod 256)"

definition makedev :: "nat \<Rightarrow> nat \<Rightarrow> int" where
  "makedev x y = int (x * 256 + y)"

text \<open>\<^verbatim>\<open>dflags[root].start[part-1]\<close>: the array has four entries.\<close>

definition part_start :: "'m rdstate \<Rightarrow> nat \<Rightarrow> nat \<Rightarrow> u32 option" where
  "part_start d root part =
     (if part = 0 then Some 0
      else if root < length (dflags d) \<and> part - 1 < length (df_start (dflags d ! root))
           then Some (df_start (dflags d ! root) ! (part - 1)) else None)"

text \<open>
  \<^verbatim>\<open>rdstrategy\<close>, without the lights and the counters of the disk monitor. The value that the
  physical device returns is dropped.
\<close>

definition rdstrategy :: "'m diskops \<Rightarrow> 'm rdstate strategy" where
  "rdstrategy ops b d =
     (let root = major (b_dev b); part = minor (b_dev b) in
      if root \<ge> NRDSK ops
      then Some (\<lparr>x_data = b_data b, x_failed = False, x_error = b_error b, x_resid = b_resid b, x_done = False\<rparr>, d)
      else case part_start d root part of
             None \<Rightarrow> None
           | Some start \<Rightarrow>
               let offset = start + word_of_int (b_blkno b);
                   (dat, m) =
                     (if B_READ \<in> b_flags b
                      then (case dk_read ops root offset (b_data b) (b_bcount b) (rmedia d) of (rv, dat, m) \<Rightarrow> (dat, m))
                      else if dk_readonly ops root then (b_data b, rmedia d)
                      else (case dk_write ops root offset (b_data b) (b_bcount b) (rmedia d) of (rv, m) \<Rightarrow> (b_data b, m))) in
               Some (\<lparr>x_data = dat, x_failed = False, x_error = b_error b, x_resid = b_resid b, x_done = True\<rparr>,
                     d\<lparr>rmedia := m\<rparr>))"

abbreviation (input) ENXIO :: int where "ENXIO \<equiv> 6"
abbreviation (input) ENODEV :: int where "ENODEV \<equiv> 19"
abbreviation (input) S_SILENT :: int where "S_SILENT \<equiv> 0x8000"

definition set_media :: "'m \<Rightarrow> 'm rdstate bcache \<Rightarrow> 'm rdstate bcache" where
  "set_media m s = s\<lparr>bdevs := (bdevs s)\<lparr>rmedia := m\<rparr>\<rparr>"

text \<open>\<^verbatim>\<open>read_mbr\<close>: after a failure it calls \<^verbatim>\<open>brelse(buf)\<close>, which releases the first buffer of the pool.\<close>

definition read_mbr :: "'m diskops \<Rightarrow> nat \<Rightarrow> 'm rdstate bcache \<Rightarrow> (nat option, 'm rdstate) bres" where
  "read_mbr ops root s =
     (if root \<ge> NRDSK ops then (Inr None, s)
      else bbind (getnewbuf (rdstrategy ops) s) (\<lambda>i s1.
        case dk_read ops root 0 (b_data (bufs s1 ! i)) 512 (rmedia (bdevs s1)) of
          (rv, dat, m) \<Rightarrow>
            let s2 = updbuf i (\<lambda>b. b\<lparr>b_data := dat\<rparr>) (set_media m s1) in
            if rv = 0 then (Inr None, brelse 0 s2) else (Inr (Some i), s2)))"

text \<open>The fields of \<^verbatim>\<open>struct mbr\<close>: four partition entries of 16 bytes from byte 446 on.\<close>

definition dbyte :: "u32 list \<Rightarrow> nat \<Rightarrow> u32" where
  "dbyte ws n = drop_bit (8 * (n mod 4)) (ws ! (n div 4)) AND 0xFF"

definition dword :: "u32 list \<Rightarrow> nat \<Rightarrow> u32" where
  "dword ws n = dbyte ws n OR push_bit 8 (dbyte ws (n + 1)) OR push_bit 16 (dbyte ws (n + 2)) OR
     push_bit 24 (dbyte ws (n + 3))"

definition mbr_status :: "u32 list \<Rightarrow> nat \<Rightarrow> u32" where
  "mbr_status ws j = dbyte ws (446 + 16 * j)"

definition mbr_type :: "u32 list \<Rightarrow> nat \<Rightarrow> u32" where
  "mbr_type ws j = dbyte ws (446 + 16 * j + 4)"

definition mbr_lbastart :: "u32 list \<Rightarrow> nat \<Rightarrow> u32" where
  "mbr_lbastart ws j = dword ws (446 + 16 * j + 8)"

definition mbr_lbalength :: "u32 list \<Rightarrow> nat \<Rightarrow> u32" where
  "mbr_lbalength ws j = dword ws (446 + 16 * j + 12)"

definition upd_dflags :: "nat \<Rightarrow> (diskflags \<Rightarrow> diskflags) \<Rightarrow> 'm rdstate bcache \<Rightarrow> 'm rdstate bcache" where
  "upd_dflags root g s =
     s\<lparr>bdevs := (bdevs s)\<lparr>dflags := (dflags (bdevs s))[root := g (dflags (bdevs s) ! root)]\<rparr>\<rparr>"

definition init_device :: "'m diskops \<Rightarrow> nat \<Rightarrow> int \<Rightarrow> 'm rdstate bcache \<Rightarrow> (int, 'm rdstate) bres" where
  "init_device ops root flag s =
     (if root \<ge> NRDSK ops then (Inr ENODEV, s)
      else case dk_init ops root flag (rmedia (bdevs s)) of (e, m) \<Rightarrow>
        let s1 = set_media m s in
        if e \<noteq> 0 then (Inr e, s1)
        else bbind (read_mbr ops root s1) (\<lambda>bp s2.
          case bp of None \<Rightarrow> (Inr ENXIO, s2)
          | Some i \<Rightarrow>
              let ws = b_data (bufs s2 ! i) in
              (Inr 0, brelse i (upd_dflags root (\<lambda>f. f\<lparr>
                 df_start := map (\<lambda>j. drop_bit 1 (mbr_lbastart ws j)) [0..<4],
                 df_len := map (\<lambda>j. drop_bit 1 (mbr_lbalength ws j)) [0..<4],
                 df_blocks := word_of_int (dk_size ops root (rmedia (bdevs s2)))\<rparr>) s2))))"

definition deinit_device :: "'m diskops \<Rightarrow> nat \<Rightarrow> 'm rdstate bcache \<Rightarrow> int \<times> 'm rdstate bcache" where
  "deinit_device ops root s =
     (if root \<ge> NRDSK ops then (ENODEV, s)
      else case dk_deinit ops root (rmedia (bdevs s)) of (e, m) \<Rightarrow> (e, set_media m s))"

definition open_device :: "'m diskops \<Rightarrow> nat \<Rightarrow> int \<Rightarrow> 'm rdstate bcache \<Rightarrow> (int, 'm rdstate) bres" where
  "open_device ops root flag s =
     (if root \<ge> NRDSK ops then (Inr ENODEV, s)
      else bbind (if df_opens (dflags (bdevs s) ! root) = 0 then init_device ops root flag s else (Inr 0, s))
        (\<lambda>e s1. if e \<noteq> 0 then (Inr e, s1)
                 else (Inr 0, upd_dflags root (\<lambda>f. f\<lparr>df_opens := df_opens f + 1\<rparr>) s1)))"

definition close_device :: "'m diskops \<Rightarrow> nat \<Rightarrow> 'm rdstate bcache \<Rightarrow> int \<times> 'm rdstate bcache" where
  "close_device ops root s =
     (if root \<ge> NRDSK ops then (ENODEV, s)
      else if df_opens (dflags (bdevs s) ! root) = 0 then (ENXIO, s)
      else let s1 = upd_dflags root (\<lambda>f. f\<lparr>df_opens := df_opens f - 1\<rparr>) s in
           (0, if df_opens (dflags (bdevs s1) ! root) = 0 then snd (deinit_device ops root s1) else s1))"

definition rdopen :: "'m diskops \<Rightarrow> int \<Rightarrow> int \<Rightarrow> int \<Rightarrow> 'm rdstate bcache \<Rightarrow> (int, 'm rdstate) bres" where
  "rdopen ops dev md flag s =
     (let root = major dev in
      if root \<ge> NRDSK ops then (Inr ENODEV, s)
      else bbind (open_device ops root flag s) (\<lambda>e s1.
        if e \<noteq> 0 then (Inr e, s1)
        else case dk_open ops root md flag (rmedia (bdevs s1)) of (e1, m) \<Rightarrow> (Inr e1, set_media m s1)))"

definition rdclose :: "'m diskops \<Rightarrow> int \<Rightarrow> 'm rdstate bcache \<Rightarrow> int \<times> 'm rdstate bcache" where
  "rdclose ops dev s =
     (let root = major dev in
      if root \<ge> NRDSK ops then (ENODEV, s) else (0, snd (close_device ops root s)))"

definition rdsize :: "'m diskops \<Rightarrow> int \<Rightarrow> 'm rdstate bcache \<Rightarrow> (int, 'm rdstate) bres" where
  "rdsize ops dev s =
     (let root = major dev; part = minor dev in
      if root \<ge> NRDSK ops then (Inr ENODEV, s)
      else if part = 0 then (Inr (dk_size ops root (rmedia (bdevs s))), s)
      else bbind (rdopen ops dev 0 S_SILENT s) (\<lambda>e s1.
        if e \<noteq> 0 then (Inr 0, s1)
        else let ls = df_len (dflags (bdevs s1) ! root) in
          if part - 1 \<ge> length ls then (Inl BFault, s1)
          else (Inr (sint (ls ! (part - 1))), snd (rdclose ops dev s1))))"

text \<open>\<^verbatim>\<open>rdioctl\<close>: \<^verbatim>\<open>RDREINIT\<close> flushes the device whose number is the major number.\<close>

datatype rd_cmd = RDGETMEDIASIZE | RDREINIT

definition rdioctl :: "'m diskops \<Rightarrow> int \<Rightarrow> rd_cmd \<Rightarrow> 'm rdstate bcache \<Rightarrow> (int option, 'm rdstate) bres" where
  "rdioctl ops dev cmd s =
     (case cmd of
        RDGETMEDIASIZE \<Rightarrow> bbind (rdsize ops dev s) (\<lambda>v s1. (Inr (Some v), s1))
      | RDREINIT \<Rightarrow>
          bbind (bflush (rdstrategy ops) (int (major dev)) s) (\<lambda>_ s1.
            bbind (init_device ops (major dev) S_SILENT s1) (\<lambda>_ s2. (Inr None, s2))))"

section \<open>Finding the root and the swap partition\<close>

abbreviation (input) RDISK_FS :: u32 where "RDISK_FS \<equiv> 0xB7"
abbreviation (input) RDISK_SWAP :: u32 where "RDISK_SWAP \<equiv> 0xB8"

definition active_part :: "u32 \<Rightarrow> u32 list \<Rightarrow> nat option" where
  "active_part ty ws = find (\<lambda>j. mbr_type ws j = ty \<and> mbr_status ws j AND 0x80 \<noteq> 0) [0..<4]"

text \<open>The loop over the disks of \<^verbatim>\<open>get_boot_device\<close>, from disk \<open>i\<close> on, \<open>n\<close> disks to go.\<close>

fun boot_scan :: "'m diskops \<Rightarrow> nat \<Rightarrow> nat \<Rightarrow> 'm rdstate bcache \<Rightarrow> (int, 'm rdstate) bres" where
  "boot_scan ops i 0 s = (Inr (-1), s)"
| "boot_scan ops i (Suc n) s =
     bbind (rdopen ops (makedev i 0) 0 S_SILENT s) (\<lambda>e s1.
       if e \<noteq> 0 then boot_scan ops (Suc i) n s1
       else bbind (read_mbr ops i s1) (\<lambda>bp s2.
         case bp of None \<Rightarrow> boot_scan ops (Suc i) n (snd (rdclose ops (makedev i 0) s2))
         | Some b \<Rightarrow>
             let s3 = snd (rdclose ops (makedev i 0) (brelse b s2)) in
             (case active_part RDISK_FS (b_data (bufs s2 ! b)) of
                Some j \<Rightarrow> (Inr (makedev i (j + 1)), s3)
              | None \<Rightarrow> boot_scan ops (Suc i) n s3)))"

definition get_boot_device :: "'m diskops \<Rightarrow> 'm rdstate bcache \<Rightarrow> (int, 'm rdstate) bres" where
  "get_boot_device ops s = boot_scan ops 0 (NRDSK ops) s"

text \<open>
  The partitions of one disk: the first active swap partition ends the search; until then the
  largest one is remembered. The result is the device found, the largest size and whether the
  search is over.
\<close>

fun swap_parts :: "nat \<Rightarrow> u32 list \<Rightarrow> nat list \<Rightarrow> int \<times> u32 \<Rightarrow> (int \<times> u32) \<times> bool" where
  "swap_parts i ws [] a = (a, False)"
| "swap_parts i ws (j # js) (bd, max_size) =
     (if mbr_type ws j = RDISK_SWAP
      then let a = (if mbr_lbalength ws j > max_size then (makedev i (j + 1), mbr_lbalength ws j) else (bd, max_size)) in
           if mbr_status ws j AND 0x80 \<noteq> 0 then ((makedev i (j + 1), snd a), True)
           else swap_parts i ws js a
      else swap_parts i ws js (bd, max_size))"

fun swap_scan :: "'m diskops \<Rightarrow> nat \<Rightarrow> nat \<Rightarrow> int \<times> u32 \<Rightarrow> 'm rdstate bcache \<Rightarrow> (int, 'm rdstate) bres" where
  "swap_scan ops i 0 a s = (Inr (fst a), s)"
| "swap_scan ops i (Suc n) a s =
     bbind (rdopen ops (makedev i 0) 0 S_SILENT s) (\<lambda>e s1.
       if e \<noteq> 0 then swap_scan ops (Suc i) n a s1
       else bbind (read_mbr ops i s1) (\<lambda>bp s2.
         case bp of None \<Rightarrow> swap_scan ops (Suc i) n a (snd (rdclose ops (makedev i 0) s2))
         | Some b \<Rightarrow>
             let s3 = snd (rdclose ops (makedev i 0) (brelse b s2)) in
             (case swap_parts i (b_data (bufs s2 ! b)) [0..<4] a of
                (a1, True) \<Rightarrow> (Inr (fst a1), s3)
              | (a1, False) \<Rightarrow> swap_scan ops (Suc i) n a1 s3)))"

definition get_swap_device :: "'m diskops \<Rightarrow> 'm rdstate bcache \<Rightarrow> (int, 'm rdstate) bres" where
  "get_swap_device ops s = swap_scan ops 0 (NRDSK ops) (-1, 0) s"

text \<open>\<^verbatim>\<open>partition_type\<close>: when the boot record cannot be read, \<^verbatim>\<open>brelse\<close> gets a null pointer.\<close>

definition partition_type :: "'m diskops \<Rightarrow> int \<Rightarrow> 'm rdstate bcache \<Rightarrow> (u32, 'm rdstate) bres" where
  "partition_type ops dev s =
     (if minor dev < 1 \<or> minor dev > 4 then (Inr 0, s)
      else bbind (rdopen ops dev 0 S_SILENT s) (\<lambda>e s1.
        if e \<noteq> 0 then (Inr 0, s1)
        else bbind (read_mbr ops (major dev) s1) (\<lambda>bp s2.
          let s3 = snd (rdclose ops dev s2) in
          case bp of None \<Rightarrow> (Inl BFault, s3)
          | Some b \<Rightarrow> (Inr (mbr_type (b_data (bufs s3 ! b)) (minor dev - 1)), brelse b s3))))"

section \<open>The driver is a block device\<close>

definition rd_loc :: "'m rdstate \<Rightarrow> int \<times> int \<Rightarrow> (nat \<times> u32) option" where
  "rd_loc d k =
     (case part_start d (major (fst k)) (minor (fst k)) of None \<Rightarrow> None
      | Some start \<Rightarrow> Some (major (fst k), start + word_of_int (snd k)))"

definition rd_blk :: "('m \<Rightarrow> nat \<Rightarrow> u32 \<Rightarrow> u32 list) \<Rightarrow> 'm rdstate \<Rightarrow> int \<times> int \<Rightarrow> u32 list" where
  "rd_blk content d k = (case rd_loc d k of None \<Rightarrow> [] | Some (root, off) \<Rightarrow> content (rmedia d) root off)"

text \<open>
  The partition tables place the blocks in use on existing, writable sectors, and no two of
  them on the same sector.
\<close>

definition rd_ok :: "'m diskops \<Rightarrow> (nat \<Rightarrow> u32 set) \<Rightarrow> (int \<times> int) set \<Rightarrow> 'm rdstate \<Rightarrow> bool" where
  "rd_ok ops sectors K d \<longleftrightarrow>
     (\<forall>k\<in>K. \<exists>root off. rd_loc d k = Some (root, off) \<and> root < NRDSK ops \<and> off \<in> sectors root \<and>
        \<not> dk_readonly ops root) \<and> inj_on (rd_loc d) K"

locale disk_unit =
  fixes ops :: "'m diskops"
    and content :: "'m \<Rightarrow> nat \<Rightarrow> u32 \<Rightarrow> u32 list"
    and sectors :: "nat \<Rightarrow> u32 set"
    and K :: "(int \<times> int) set"
  assumes no_nodev: "k \<in> K \<Longrightarrow> fst k \<noteq> NODEV"
    and dk_read_ok: "root < NRDSK ops \<Longrightarrow> off \<in> sectors root \<Longrightarrow>
      \<exists>rv m'. dk_read ops root off dat DEV_BSIZE m = (rv, content m root off, m') \<and> content m' = content m"
    and dk_write_ok: "root < NRDSK ops \<Longrightarrow> off \<in> sectors root \<Longrightarrow>
      \<exists>rv m'. dk_write ops root off dat DEV_BSIZE m = (rv, m') \<and>
        content m' = (content m)(root := (content m root)(off := dat))"

lemma rd_loc_media [simp]: "rd_loc (d\<lparr>rmedia := m\<rparr>) k = rd_loc d k"
  by (simp add: rd_loc_def part_start_def)

lemma rd_ok_media [simp]: "rd_ok ops sectors K (d\<lparr>rmedia := m\<rparr>) = rd_ok ops sectors K d"
proof -
  have "rd_loc (d\<lparr>rmedia := m\<rparr>) = rd_loc d" by (rule ext) simp
  then show ?thesis by (simp add: rd_ok_def)
qed

sublocale disk_unit \<subseteq> rd: blockdev "rdstrategy ops" "rd_ok ops sectors K" "rd_blk content" K
proof
  show "fst k \<noteq> NODEV" if "k \<in> K" for k by (rule no_nodev [OF that])
next
  fix d and b :: kbuf
  assume d: "rd_ok ops sectors K d" and k: "bkey b \<in> K" and rw: "B_READ \<in> b_flags b"
    and bc: "b_bcount b = 1024" and rs: "b_resid b = 0"
  obtain root off where l: "rd_loc d (bkey b) = Some (root, off)" "root < NRDSK ops" "off \<in> sectors root"
    using d k unfolding rd_ok_def by blast
  obtain start where p: "part_start d (major (b_dev b)) (minor (b_dev b)) = Some start"
      "root = major (b_dev b)" "off = start + word_of_int (b_blkno b)"
    using l(1) by (auto simp: rd_loc_def bkey_def split: option.splits)
  obtain rv m' where r: "dk_read ops root off (b_data b) 1024 (rmedia d) = (rv, content (rmedia d) root off, m')"
      "content m' = content (rmedia d)"
    using dk_read_ok [OF l(2,3)] by blast
  have "rd_blk content (d\<lparr>rmedia := m'\<rparr>) k = rd_blk content d k" for k
    by (simp add: rd_blk_def r(2) split: option.split)
  then show "\<exists>x d'. rdstrategy ops b d = Some (x, d') \<and> x_done x \<and> \<not> x_failed x \<and> x_resid x = 0 \<and>
      x_data x = rd_blk content d (bkey b) \<and> rd_ok ops sectors K d' \<and> (\<forall>k\<in>K. rd_blk content d' k = rd_blk content d k)"
    using l(1,2) p r(1) rw bc rs d by (simp add: rdstrategy_def rd_blk_def not_le)
next
  fix d and b :: kbuf
  assume d: "rd_ok ops sectors K d" and k: "bkey b \<in> K" and rw: "B_READ \<notin> b_flags b"
    and bc: "b_bcount b = 1024" and rs: "b_resid b = 0"
  obtain root off where l: "rd_loc d (bkey b) = Some (root, off)" "root < NRDSK ops" "off \<in> sectors root"
      "\<not> dk_readonly ops root"
    using d k unfolding rd_ok_def by blast
  obtain start where p: "part_start d (major (b_dev b)) (minor (b_dev b)) = Some start"
      "root = major (b_dev b)" "off = start + word_of_int (b_blkno b)"
    using l(1) by (auto simp: rd_loc_def bkey_def split: option.splits)
  obtain rv m' where r: "dk_write ops root off (b_data b) 1024 (rmedia d) = (rv, m')"
      "content m' = (content (rmedia d))(root := (content (rmedia d) root)(off := b_data b))"
    using dk_write_ok [OF l(2,3)] by blast
  have "rd_blk content (d\<lparr>rmedia := m'\<rparr>) k' = (if k' = bkey b then b_data b else rd_blk content d k')"
    if k': "k' \<in> K" for k'
  proof -
    obtain r1 o1 where "rd_loc d k' = Some (r1, o1)" using d k' unfolding rd_ok_def by blast
    moreover have "rd_loc d k' = rd_loc d (bkey b) \<longleftrightarrow> k' = bkey b"
      using d k k' unfolding rd_ok_def inj_on_def by blast
    ultimately show ?thesis using l(1) by (auto simp: rd_blk_def r(2))
  qed
  then show "\<exists>x d'. rdstrategy ops b d = Some (x, d') \<and> x_done x \<and> \<not> x_failed x \<and> x_resid x = 0 \<and>
      x_data x = b_data b \<and> rd_ok ops sectors K d' \<and>
      (\<forall>k\<in>K. rd_blk content d' k = (if k = bkey b then b_data b else rd_blk content d k))"
    using l(1,2,4) p r(1) rw bc rs d by (simp add: rdstrategy_def not_le)
qed

context disk_unit
begin

lemma rd_blockdev: "blockdev (rdstrategy ops) (rd_ok ops sectors K) (rd_blk content) K"
  by (rule rd.blockdev_axioms)

end

text \<open>A disk in memory, as the RAM disks are: reading and writing always succeed.\<close>

definition mem_ops :: "nat \<Rightarrow> (nat \<Rightarrow> u32 \<Rightarrow> u32 list) diskops" where
  "mem_ops n =
     \<lparr>NRDSK = n, dk_init = \<lambda>root flag m. (0, m), dk_deinit = \<lambda>root m. (0, m),
      dk_open = \<lambda>root md flag m. (0, m), dk_size = \<lambda>root m. 0,
      dk_read = \<lambda>root off dat n m. (1, m root off, m),
      dk_write = \<lambda>root off dat n m. (1, m(root := (m root)(off := dat))), dk_readonly = \<lambda>root. False\<rparr>"

interpretation md: disk_unit "mem_ops n" "\<lambda>m. m" "\<lambda>root. UNIV" "{k. fst k \<noteq> NODEV \<and> P k}" for n P
  by unfold_locales (auto simp: mem_ops_def)

end
