(* ===== verification/Rdisk_Cache.thy ===== *)
theory Rdisk_Cache
  imports Rdisk
begin

text \<open>
  The properties of the buffer cache on the disk driver: transparency and flushing for a disk
  that works, and what happens with a disk that fails, with a boot record that cannot be read,
  and with two processes that ask for the same block while no buffer is free.
\<close>

text \<open>C28. Any sequence of reads, read-aheads, writes (synchronous, asynchronous or delayed) and
flushes through the buffer cache, from the pool as it is at boot, runs to its end without
sleeping, panicking or faulting and returns for every read what a plain array of blocks would
return; the cache invariant holds at the end and the logical contents are those of the
array.\<close>

theorem cache_is_transparent:
  assumes "disk_unit ops content sectors K" and "rd_ok ops sectors K d"
    and "2 \<le> length bs" and "\<forall>b\<in>set bs. b_resid b = 0" and "\<forall>p\<in>set ps. op_blocks p \<subseteq> K"
  shows "\<exists>s. bio_run (rdstrategy ops) ps (binit d bs) = (Inr (fst (disk_run ps (rd_blk content d))), s) \<and>
     cache_ok (rd_ok ops sectors K) (rd_blk content) K s \<and> idle s \<and>
     (\<forall>k\<in>K. bview (rd_blk content) s k = snd (disk_run ps (rd_blk content d)) k)"
proof -
  note i = binit_ok [of "rd_ok ops sectors K", OF assms(2,4)]
  from blockdev.bio_run_ok [OF disk_unit.rd_blockdev [OF assms(1)] i(1,2) _ assms(5), of "rd_blk content d"]
  show ?thesis using assms(3) i(3,4) by auto
qed

text \<open>C29. After such a sequence a flush of a device puts every block of the device, as last
written, on the medium.\<close>

theorem bflush_reaches_disk:
  assumes "disk_unit ops content sectors K" and "rd_ok ops sectors K d"
    and "2 \<le> length bs" and "\<forall>b\<in>set bs. b_resid b = 0" and "\<forall>p\<in>set ps. op_blocks p \<subseteq> K"
    and "bio_run (rdstrategy ops) ps (binit d bs) = (r, s)"
  shows "\<exists>s'. bflush (rdstrategy ops) dev s = (Inr (), s') \<and>
     (\<forall>k\<in>K. fst k = dev \<longrightarrow> rd_blk content (bdevs s') k = snd (disk_run ps (rd_blk content d)) k) \<and>
     (\<forall>k\<in>K. bview (rd_blk content) s' k = bview (rd_blk content) s k)"
proof -
  note i = binit_ok [of "rd_ok ops sectors K", OF assms(2,4)]
  note bd = disk_unit.rd_blockdev [OF assms(1)]
  have two: "2 \<le> length (bufs (binit d bs))" using assms(3) i(3) by simp
  obtain s1 where r: "bio_run (rdstrategy ops) ps (binit d bs) = (Inr (fst (disk_run ps (rd_blk content d))), s1)"
      "cache_ok (rd_ok ops sectors K) (rd_blk content) K s1" "idle s1"
      "\<forall>k\<in>K. bview (rd_blk content) s1 k = snd (disk_run ps (rd_blk content d)) k"
    using blockdev.bio_run_ok [OF bd i(1,2) two assms(5), of "rd_blk content d"] i(4) by auto
  have "\<forall>j<length (bufs s1). B_DELWRI \<in> b_flags (bufs s1 ! j) \<and> b_dev (bufs s1 ! j) = dev \<longrightarrow> \<not> busy s1 j"
    using r(3) by (simp add: idle_def)
  from blockdev.bflush_ok [OF bd r(2) this] r(1,4) assms(6) show ?thesis by auto
qed

text \<open>A disk with two partitions, the blocks of the first, and a pool of three buffers.\<close>

definition disk1 :: "(nat \<Rightarrow> u32 \<Rightarrow> u32 list) rdstate" where
  "disk1 = \<lparr>dflags = [\<lparr>df_opens = 1, df_start = [10, 20, 0, 0], df_len = [10, 10, 0, 0], df_blocks = 64\<rparr>],
     rmedia = \<lambda>root off. [off]\<rparr>"

definition pool3 :: "kbuf list" where
  "pool3 = replicate 3 \<lparr>b_flags = {}, b_bcount = 0, b_error = 0, b_dev = 0, b_data = [0], b_blkno = 0, b_resid = 0\<rparr>"

definition blocks1 :: "(int \<times> int) set" where
  "blocks1 = {(1, 0), (1, 1), (1, 2), (1, 3), (2, 0), (2, 1)}"

lemma disk1_ok: "disk_unit (mem_ops 1) (\<lambda>m. m) (\<lambda>root. UNIV) blocks1"
  "rd_ok (mem_ops 1) (\<lambda>root. UNIV) blocks1 disk1"
  "2 \<le> length pool3" "\<forall>b\<in>set pool3. b_resid b = 0"
proof -
  show "disk_unit (mem_ops 1) (\<lambda>m. m) (\<lambda>root. UNIV) blocks1"
    by unfold_locales (auto simp: mem_ops_def blocks1_def)
  show "rd_ok (mem_ops 1) (\<lambda>root. UNIV) blocks1 disk1"
    by (simp add: rd_ok_def blocks1_def rd_loc_def part_start_def disk1_def major_def minor_def mem_ops_def inj_on_def)
  show "2 \<le> length pool3" "\<forall>b\<in>set pool3. b_resid b = 0" by (simp_all add: pool3_def)
qed

definition trace1 :: "bio_op list" where
  "trace1 = [BWrite Delayed 1 0 [7], BWrite Delayed 1 1 [8], BReadAhead 2 0 1, BWrite Sync 1 2 [9],
     BRead 1 0, BRead 1 1, BRead 1 2, BRead 1 3, BBlkFlush 1 1, BWrite Async 1 0 [6], BRead 1 0]"

lemma trace1_blocks: "\<forall>p\<in>set trace1. op_blocks p \<subseteq> blocks1"
  by (simp add: trace1_def blocks1_def)

theorem cache_is_transparent_witness:
  "fst (bio_run (rdstrategy (mem_ops 1)) trace1 (binit disk1 pool3)) =
     Inr [None, None, Some [20], None, Some [7], Some [8], Some [9], Some [13], None, None, Some [6]]"
proof -
  have "fst (disk_run trace1 (rd_blk (\<lambda>m. m) disk1)) =
     [None, None, Some [20], None, Some [7], Some [8], Some [9], Some [13], None, None, Some [6]]"
    by code_simp
  then show ?thesis
    using cache_is_transparent [OF disk1_ok trace1_blocks] by auto
qed

theorem bflush_reaches_disk_witness:
  "\<exists>s'. bflush (rdstrategy (mem_ops 1)) 1 (snd (bio_run (rdstrategy (mem_ops 1)) trace1 (binit disk1 pool3))) = (Inr (), s') \<and>
     rd_blk (\<lambda>m. m) (bdevs s') (1, 1) = [8]"
proof -
  have L: "snd (disk_run trace1 (rd_blk (\<lambda>m. m) disk1)) (1, 1) = [8]" by code_simp
  have b: "(1, 1) \<in> blocks1" by (simp add: blocks1_def)
  have e: "bio_run (rdstrategy (mem_ops 1)) trace1 (binit disk1 pool3) =
     (fst (bio_run (rdstrategy (mem_ops 1)) trace1 (binit disk1 pool3)), snd (bio_run (rdstrategy (mem_ops 1)) trace1 (binit disk1 pool3)))"
    by simp
  from bflush_reaches_disk [OF disk1_ok trace1_blocks e, of 1] L b show ?thesis by fastforce
qed

section \<open>Two processes and one block\<close>

lemma cache_ok_wanted:
  "cache_ok okd blk K (s\<lparr>free_wanted := b\<rparr>) = cache_ok okd blk K s"
  "busy (s\<lparr>free_wanted := b\<rparr>) = busy s" "incore dev n (s\<lparr>free_wanted := b\<rparr>) = incore dev n s"
  by (simp_all add: cache_ok_def lists_ok_def keys_unique_def busy_def incore_def fun_eq_iff)

lemma incore_brelse:
  assumes c: "cache_ok okd blk K s" and i: "i < length (bufs s)"
  shows "incore dev b (brelse i s) = incore dev b s"
proof -
  have fl: "b_flags (bufs s ! i) \<inter> {B_ERROR, B_LOCKED} = {}"
    using cache_okD(1) [OF c i] by (auto simp: buf_ok_def)
  have "holds dev b (bufs (brelse i s) ! j) = holds dev b (bufs s ! j)" for j
    using i by (cases "j = i") (simp_all add: brelse_eff(1) [OF i fl] holds_def)
  then show ?thesis by (simp add: incore_def brelse_eff(2) [OF i fl])
qed

text \<open>C30. When every buffer is in use and two processes ask for the same block, both sleep in
\<open>getnewbuf\<close>; when two buffers are released both go on without a second look at the hash
chains, and the block ends up in two buffers, each held by one of the processes: what one
writes there the other does not see.\<close>

theorem getblk_race_duplicates:
  assumes "disk_unit ops content sectors K"
    and "cache_ok (rd_ok ops sectors K) (rd_blk content) K s" and "k \<in> K"
    and "\<forall>l<length (bufs s). busy s l" and "\<not> incore (fst k) (snd k) s"
    and "i < length (bufs s)" and "j < length (bufs s)" and "i \<noteq> j"
    and "clean_copy (rd_blk content) (bdevs s) (bufs s ! i)" and "clean_copy (rd_blk content) (bdevs s) (bufs s ! j)"
  shows "\<exists>s1. getblk (rdstrategy ops) (fst k) (snd k) s = (Inl (BSleep FreeChan), s1) \<and>
     getblk (rdstrategy ops) (fst k) (snd k) s1 = (Inl (BSleep FreeChan), s1) \<and>
     (\<exists>a b s3 s4. getblk_new (rdstrategy ops) (fst k) (snd k) (brelse j (brelse i s1)) = (Inr a, s3) \<and>
        getblk_new (rdstrategy ops) (fst k) (snd k) s3 = (Inr b, s4) \<and> a \<noteq> b \<and>
        holds (fst k) (snd k) (bufs s4 ! a) \<and> holds (fst k) (snd k) (bufs s4 ! b) \<and> busy s4 a \<and> busy s4 b)"
proof -
  let ?c = "cache_ok (rd_ok ops sectors K) (rd_blk content) K" and ?g = "getblk (rdstrategy ops) (fst k) (snd k)"
  note bd = disk_unit.rd_blockdev [OF assms(1)]
  define s1 where "s1 = s\<lparr>free_wanted := True\<rparr>"
  have c1: "?c s1" "\<forall>l<length (bufs s1). busy s1 l" "\<not> incore (fst k) (snd k) s1" "bufs s1 = bufs s" "bdevs s1 = bdevs s"
    using assms(2,4,5) by (simp_all add: s1_def cache_ok_wanted)
  have sleeps: "?g s = (Inl (BSleep FreeChan), s1)" "?g s1 = (Inl (BSleep FreeChan), s1)"
    using blockdev.getblk_all_busy [OF bd assms(2,4,5)] blockdev.getblk_all_busy [OF bd c1(1-3)]
    by (simp_all add: s1_def)
  define s2 where "s2 = brelse j (brelse i s1)"
  have i1: "i < length (bufs s1)" "busy s1 i" "clean_copy (rd_blk content) (bdevs s1) (bufs s1 ! i)"
    using assms(6,9) c1 by simp_all
  note r1 = blockdev.brelse_ok [OF bd c1(1) i1]
  have j1: "j < length (bufs (brelse i s1))" "busy (brelse i s1) j"
      "clean_copy (rd_blk content) (bdevs (brelse i s1)) (bufs (brelse i s1) ! j)"
    using r1(3,4) assms(7,8,10) c1 by (simp_all add: released_def busy_def)
  note r2 = blockdev.brelse_ok [OF bd r1(1) j1]
  have c2: "?c s2" "length (bufs s2) = length (bufs s)" "\<not> busy s2 i" "\<not> busy s2 j"
    using r2(1,3) r1(3) assms(6,8) c1(4) by (auto simp: s2_def released_def busy_def)
  have i2: "i < length (bufs s2)" using c2(2) assms(6) by simp
  have ni: "\<not> incore (fst k) (snd k) s2"
    using incore_brelse [OF r1(1) j1(1)] incore_brelse [OF c1(1) i1(1)] c1(3) by (simp add: s2_def)
  have "available s2 k"
    unfolding available_def
    using i2 c2(3) blockdev.lookup_None [OF bd c2(1) assms(3)] ni by (auto simp: incore_def)
  then obtain a s3 where a: "?g s2 = (Inr a, s3)" "grabbed (rd_ok ops sectors K) (rd_blk content) K a k s2 s3"
    using blockdev.getblk_ok [OF bd c2(1) assms(3)] by blast
  have an: "getblk_new (rdstrategy ops) (fst k) (snd k) s2 = (Inr a, s3)"
    using a(1) ni by (simp add: getblk_def incore_def)
  have g: "?c s3" "a < length (bufs s2)" "\<not> busy s2 a" "tracked (bufs s3 ! a)" "bkey (bufs s3 ! a) = k"
     "length (bufs s3) = length (bufs s2)" "\<forall>j<length (bufs s2). busy s3 j \<longleftrightarrow> j = a \<or> busy s2 j"
    using a(2) by (simp_all add: grabbed_def held_kept_def)
  obtain l where l: "l < length (bufs s3)" "\<not> busy s3 l"
    using g(2,6,7) c2 assms(6-8) by (cases "a = i") auto
  obtain b s4 where b: "getblk_new (rdstrategy ops) (fst k) (snd k) s3 = (Inr b, s4)"
     "b < length (bufs s3)" "\<not> busy s3 b" "held_kept s3 s4" "busy s4 b" "holds (fst k) (snd k) (bufs s4 ! b)"
    using blockdev.getblk_new_takes [OF bd g(1) assms(3) l] by (elim exE conjE) (rule that)
  have "busy s3 a" "a < length (bufs s3)" using g by simp_all
  then have "bufs s4 ! a = bufs s3 ! a" "busy s4 a" "a \<noteq> b"
    using b(3,4) by (auto simp: held_kept_def busy_def)
  moreover have "holds (fst k) (snd k) (bufs s3 ! a)"
    using g(4,5) blockdev.holds_iff [OF bd assms(3)] by simp
  ultimately have "\<exists>a b s3 s4. getblk_new (rdstrategy ops) (fst k) (snd k) s2 = (Inr a, s3) \<and>
        getblk_new (rdstrategy ops) (fst k) (snd k) s3 = (Inr b, s4) \<and> a \<noteq> b \<and>
        holds (fst k) (snd k) (bufs s4 ! a) \<and> holds (fst k) (snd k) (bufs s4 ! b) \<and> busy s4 a \<and> busy s4 b"
    using an b by (intro exI [of _ a] exI [of _ b] exI [of _ s3] exI [of _ s4]) simp
  then show ?thesis using sleeps unfolding s2_def by blast
qed

text \<open>A pool of two buffers, both in use by a process that holds two blocks of the second partition.\<close>

definition held2 :: "(nat \<Rightarrow> u32 \<Rightarrow> u32 list) rdstate bcache" where
  "held2 = snd (getblk (rdstrategy (mem_ops 1)) 2 1 (snd (getblk (rdstrategy (mem_ops 1)) 2 0 (binit disk1 (take 2 pool3)))))"

lemma held2_facts:
  "length (bufs held2) = 2" "list_all (\<lambda>b. b_flags b = {B_BUSY}) (bufs held2)" "\<not> incore 1 0 held2"
  by code_simp+

lemma held2_ok: "cache_ok (rd_ok (mem_ops 1) (\<lambda>root. UNIV) blocks1) (rd_blk (\<lambda>m. m)) blocks1 held2"
proof -
  let ?okd = "rd_ok (mem_ops 1) (\<lambda>root. UNIV) blocks1" and ?blk = "rd_blk (\<lambda>m :: nat \<Rightarrow> u32 \<Rightarrow> u32 list. m)"
  let ?s0 = "binit disk1 (take 2 pool3)"
  note bd = disk_unit.rd_blockdev [OF disk1_ok(1)]
  have r: "\<forall>b\<in>set (take 2 pool3). b_resid b = 0" by (simp add: pool3_def)
  have i0: "cache_ok ?okd ?blk blocks1 ?s0" "idle ?s0" "length (bufs ?s0) = length (take 2 pool3)"
    using binit_ok [of ?okd, OF disk1_ok(2) r] by blast+
  have k: "(2, 0) \<in> blocks1" "(2, 1) \<in> blocks1" by (simp_all add: blocks1_def)
  have n2: "length (bufs ?s0) = 2" using i0(3) by (simp add: pool3_def)
  then have "bufs ?s0 \<noteq> []" by auto
  from blockdev.getblk_ok [OF bd i0(1) k(1) idle_available [OF i0(2) this]]
  obtain i s1 where g: "getblk (rdstrategy (mem_ops 1)) 2 0 ?s0 = (Inr i, s1)" "grabbed ?okd ?blk blocks1 i (2, 0) ?s0 s1"
    by auto
  have s1: "cache_ok ?okd ?blk blocks1 s1" "bkey (bufs s1 ! i) = (2, 0)" "i < 2" "length (bufs s1) = 2"
      "\<forall>j<2. busy s1 j \<longleftrightarrow> j = i"
    using g(2) i0(2) n2 by (auto simp: grabbed_def held_kept_def idle_def)
  have "\<exists>j<length (bufs s1). \<not> busy s1 j"
    using s1(3-5) by (cases "i = 0") (auto intro: exI [of _ 0] exI [of _ 1])
  moreover have "\<not> (tracked (bufs s1 ! j) \<and> bkey (bufs s1 ! j) = (2, 1))" if "j < length (bufs s1)" "busy s1 j" for j
    using that s1 by auto
  ultimately have av: "available s1 (2, 1)" unfolding available_def by blast
  from blockdev.getblk_ok [OF bd s1(1) k(2) av]
  obtain j s2 where h: "getblk (rdstrategy (mem_ops 1)) 2 1 s1 = (Inr j, s2)" "grabbed ?okd ?blk blocks1 j (2, 1) s1 s2"
    by auto
  have "held2 = s2" using g(1) h(1) by (simp add: held2_def)
  with h(2) show ?thesis by (simp add: grabbed_def)
qed

theorem getblk_race_duplicates_witness:
  "\<exists>s1. getblk (rdstrategy (mem_ops 1)) 1 0 held2 = (Inl (BSleep FreeChan), s1) \<and>
     (\<exists>a b s3 s4. getblk_new (rdstrategy (mem_ops 1)) 1 0 (brelse 1 (brelse 0 s1)) = (Inr a, s3) \<and>
        getblk_new (rdstrategy (mem_ops 1)) 1 0 s3 = (Inr b, s4) \<and> a \<noteq> b \<and>
        holds 1 0 (bufs s4 ! a) \<and> holds 1 0 (bufs s4 ! b))"
proof -
  have fl: "b_flags (bufs held2 ! l) = {B_BUSY}" if "l < 2" for l
    using that held2_facts by (simp add: list_all_length)
  have bz: "\<forall>l<length (bufs held2). busy held2 l"
    using fl held2_facts(1) by (simp add: busy_def)
  have k: "(1, 0) \<in> blocks1" by (simp add: blocks1_def)
  have ni: "\<not> incore (fst (1, 0)) (snd (1, 0)) held2" using held2_facts(3) by simp
  have cl: "clean_copy (rd_blk (\<lambda>m. m)) (bdevs held2) (bufs held2 ! l)" if "l < 2" for l
    using fl [OF that] by (simp add: clean_copy_def)
  from getblk_race_duplicates [OF disk1_ok(1) held2_ok k bz ni, of 0 1] held2_facts(1) cl show ?thesis
    by auto
qed

section \<open>A disk that fails\<close>

text \<open>C31. When the physical device reports that a read failed, the driver still completes the
transfer without an error: \<^verbatim>\<open>bread\<close> returns the buffer marked valid, with whatever it holds, and
\<^verbatim>\<open>u_error\<close> stays clear.\<close>

theorem rd_read_error_lost:
  assumes "getblk (rdstrategy ops) dev n s = (Inr i, s1)" and "i < length (bufs s1)"
    and "b_dev (bufs s1 ! i) = dev" and "b_blkno (bufs s1 ! i) = n"
    and "b_flags (bufs s1 ! i) \<inter> {B_DONE, B_DELWRI, B_ERROR, B_ASYNC} = {}"
    and "major dev < NRDSK ops" and "part_start (bdevs s1) (major dev) (minor dev) = Some start"
    and "dk_read ops (major dev) (start + word_of_int n) (b_data (bufs s1 ! i)) DEV_BSIZE (rmedia (bdevs s1)) = (0, dat, m)"
  shows "\<exists>s2. bread (rdstrategy ops) dev n s = (Inr i, s2) \<and> B_DONE \<in> b_flags (bufs s2 ! i) \<and>
     B_ERROR \<notin> b_flags (bufs s2 ! i) \<and> b_data (bufs s2 ! i) = dat \<and> bu_error s2 = bu_error s1"
proof -
  let ?b = "bufs s1 ! i"
  let ?c = "?b\<lparr>b_flags := b_flags ?b \<union> {B_READ}, b_bcount := DEV_BSIZE\<rparr>"
  define x where "x = \<lparr>x_data = dat, x_failed = False, x_error = b_error ?b, x_resid = b_resid ?b, x_done = True\<rparr>"
  define u where "u = updbuf i (\<lambda>b. b\<lparr>b_flags := b_flags b \<union> {B_READ}, b_bcount := DEV_BSIZE\<rparr>) s1"
  have u: "bufs u = (bufs s1)[i := ?c]" "bdevs u = bdevs s1" "bu_error u = bu_error s1"
    by (simp_all add: u_def)
  have st: "rdstrategy ops ?c (bdevs s1) = Some (x, (bdevs s1)\<lparr>rmedia := m\<rparr>)"
    using assms(3-8) by (simp add: rdstrategy_def x_def not_le)
  define v where "v = updbuf i (xfer_end x) (u\<lparr>bdevs := (bdevs s1)\<lparr>rmedia := m\<rparr>\<rparr>)"
  have ds: "d_strategy (rdstrategy ops) i u = biodone i v"
    unfolding v_def using st assms(2) by (intro d_strategy_done) (simp_all add: u x_def)
  have v: "bufs v = (bufs s1)[i := xfer_end x ?c]" "i < length (bufs v)" "bu_error v = bu_error s1"
    using assms(2) by (simp_all add: v_def u)
  have "b_flags (bufs v ! i) \<inter> {B_DONE, B_ASYNC} = {}"
    using assms(2,5) by (auto simp: v(1) xfer_end_def x_def)
  from biodone_sync [OF v(2) this] obtain w where w: "biodone i v = (Inr (), w)"
      "bufs w = (bufs v)[i := (bufs v ! i)\<lparr>b_flags := insert B_DONE (b_flags (bufs v ! i)) - {B_WANTED}\<rparr>]"
      "bu_error w = bu_error v"
    by (elim exE conjE) (rule that)
  let ?d = "(xfer_end x ?c)\<lparr>b_flags := insert B_DONE (b_flags ?b \<union> {B_READ}) - {B_WANTED}\<rparr>"
  define s2 where "s2 = w\<lparr>ru_inblock := ru_inblock w + 1\<rparr>"
  have s2: "bufs s2 ! i = ?d" "bu_error s2 = bu_error s1"
    using assms(2) by (simp_all add: s2_def w(2,3) v xfer_end_def x_def)
  have "B_DONE \<in> b_flags ?d" "B_ERROR \<notin> b_flags ?d" "b_data ?d = dat"
    using assms(5) by (auto simp: xfer_end_def x_def)
  moreover from this have "biowait i s2 = (Inr (), s2)"
    by (simp add: biowait_def geterror_def s2(1))
  moreover have "bstart_read (rdstrategy ops) {B_READ} i s1 = (Inr (), s2)"
    using ds w(1) by (simp add: bstart_read_def u_def s2_def)
  moreover have "b_flags ?b \<inter> {B_DONE, B_DELWRI} = {}" using assms(5) by auto
  ultimately show ?thesis
    using assms(1) s2 by (intro exI [of _ s2]) (simp add: bread_def)
qed

definition bad_ops :: "(nat \<Rightarrow> u32 \<Rightarrow> u32 list) diskops" where
  "bad_ops = (mem_ops 1)\<lparr>dk_read := \<lambda>root off dat n m. (0, dat, m)\<rparr>"

theorem rd_read_error_lost_witness:
  "\<exists>s2. bread (rdstrategy bad_ops) 1 3 (binit disk1 pool3) = (Inr 2, s2) \<and>
     B_DONE \<in> b_flags (bufs s2 ! 2) \<and> B_ERROR \<notin> b_flags (bufs s2 ! 2) \<and>
     b_data (bufs s2 ! 2) = [0] \<and> bu_error s2 = 0"
proof -
  define s1 where "s1 = snd (getblk (rdstrategy bad_ops) 1 3 (binit disk1 pool3))"
  have "fst (getblk (rdstrategy bad_ops) 1 3 (binit disk1 pool3)) = Inr 2" by code_simp
  then have g: "getblk (rdstrategy bad_ops) 1 3 (binit disk1 pool3) = (Inr 2, s1)"
    by (simp add: s1_def prod_eq_iff)
  have f: "length (bufs s1) = 3" "bu_error s1 = 0" "part_start (bdevs s1) 0 (Suc 0) = Some 10"
    "bufs s1 ! 2 = \<lparr>b_flags = {B_BUSY}, b_bcount = 0, b_error = 0, b_dev = 1, b_data = [0], b_blkno = 3, b_resid = 0\<rparr>"
    unfolding s1_def by code_simp+
  have m: "major 1 = 0" "minor 1 = 1" by (simp_all add: major_def minor_def)
  have "\<exists>s2. bread (rdstrategy bad_ops) 1 3 (binit disk1 pool3) = (Inr 2, s2) \<and> B_DONE \<in> b_flags (bufs s2 ! 2) \<and>
     B_ERROR \<notin> b_flags (bufs s2 ! 2) \<and> b_data (bufs s2 ! 2) = [0] \<and> bu_error s2 = bu_error s1"
    by (rule rd_read_error_lost [OF g, of 10 _ "rmedia (bdevs s1)"])
      (simp_all add: f m bad_ops_def mem_ops_def)
  then show ?thesis using f(2) by simp
qed

section \<open>A boot record that cannot be read\<close>

text \<open>When the boot record cannot be read, \<open>read_mbr\<close> loses the buffer it took, which stays busy
on no free list, and puts the first buffer of the pool on a free list, whoever holds it: a
process that holds it and a process that takes it from the list then share it.\<close>

theorem read_mbr_loses_buffer:
  assumes "getnewbuf (rdstrategy ops) s = (Inr i, s1)" and "root < NRDSK ops" and "0 < i" and "i < length (bufs s1)"
    and "B_BUSY \<in> b_flags (bufs s1 ! i)" and "length (freeq s1) = 3" and "occ (freeq s1) i = 0"
    and "b_flags (bufs s1 ! 0) \<inter> {B_ERROR, B_LOCKED} = {}"
    and "dk_read ops root 0 (b_data (bufs s1 ! i)) 512 (rmedia (bdevs s1)) = (0, dat, m)"
  shows "\<exists>s2. read_mbr ops root s = (Inr None, s2) \<and> busy s2 i \<and> occ (freeq s2) i = 0 \<and>
     occ (freeq s2) 0 = occ (freeq s1) 0 + 1 \<and> \<not> busy s2 0"
proof -
  define u where "u = updbuf i (\<lambda>b. b\<lparr>b_data := dat\<rparr>) (set_media m s1)"
  have e: "read_mbr ops root s = (Inr None, brelse 0 u)"
    using assms(1,2,9) by (simp add: read_mbr_def u_def not_le)
  have u: "bufs u = (bufs s1)[i := (bufs s1 ! i)\<lparr>b_data := dat\<rparr>]" "freeq u = freeq s1"
    by (simp_all add: u_def set_media_def)
  have l: "0 < length (bufs u)" "b_flags (bufs u ! 0) \<inter> {B_ERROR, B_LOCKED} = {}"
    using assms(3,4,8) by (auto simp: u)
  note b = brelse_eff [OF l]
  have o: "occ (freeq (brelse 0 u)) j = occ (freeq s1) j + (if 0 = j then 1 else 0)" for j
    using freed_occ [OF b(4), of j] assms(6) by (simp add: u)
  have "bufs (brelse 0 u) ! i = (bufs s1 ! i)\<lparr>b_data := dat\<rparr>"
    using assms(3,4) by (simp add: b(1) u)
  with e o [of i] o [of 0] assms(3,5,7) l(1) show ?thesis
    by (auto simp: busy_def b(1))
qed

theorem read_mbr_loses_buffer_witness:
  "\<exists>s2. read_mbr bad_ops 0 (binit disk1 pool3) = (Inr None, s2) \<and> busy s2 2 \<and> occ (freeq s2) 2 = 0 \<and>
     occ (freeq s2) 0 = 2"
proof -
  define s1 where "s1 = snd (getnewbuf (rdstrategy bad_ops) (binit disk1 pool3))"
  have "fst (getnewbuf (rdstrategy bad_ops) (binit disk1 pool3)) = Inr 2" by code_simp
  then have g: "getnewbuf (rdstrategy bad_ops) (binit disk1 pool3) = (Inr 2, s1)"
    by (simp add: s1_def prod_eq_iff)
  have f: "length (bufs s1) = 3" "freeq s1 = [[], [], [1, 0]]" "b_flags (bufs s1 ! 2) = {B_BUSY}"
    "b_flags (bufs s1 ! 0) = {B_INVAL}" "b_data (bufs s1 ! 2) = [0]"
    unfolding s1_def by code_simp+
  have "\<exists>s2. read_mbr bad_ops 0 (binit disk1 pool3) = (Inr None, s2) \<and> busy s2 2 \<and> occ (freeq s2) 2 = 0 \<and>
     occ (freeq s2) 0 = occ (freeq s1) 0 + 1 \<and> \<not> busy s2 0"
    by (rule read_mbr_loses_buffer [OF g, of 0 "[0]" "rmedia (bdevs s1)"])
      (simp_all add: f occ_def bad_ops_def mem_ops_def)
  then show ?thesis by (auto simp: f occ_def)
qed

end
