(* ===== verification/Ufs_Alloc.thy ===== *)
theory Ufs_Alloc
  imports Rdisk
begin

text \<open>
  Disk block and inode allocation of the file system (sys/kernel/ufs_alloc.c, \<^verbatim>\<open>badblock\<close> of
  sys/kernel/ufs_subr.c, sys/include/fs.h) above the buffer cache. The super block holds up to
  \<^verbatim>\<open>NICFREE\<close> free blocks; the first of them, when it is not 0, is a free block that holds the
  next table. A block number is a 32-bit word (\<^verbatim>\<open>daddr_t\<close> is compared with unsigned fields).
\<close>

section \<open>Model\<close>

definition NICFREE :: nat where
  "NICFREE = 200"

definition NICINOD :: nat where
  "NICINOD = 32"

abbreviation (input) SUPERB :: int where "SUPERB \<equiv> 0"
abbreviation (input) ENOSPC :: int where "ENOSPC \<equiv> 28"

record fsblk =
  fs_magic1 :: u32
  fs_isize :: u32
  fs_fsize :: u32
  fs_swapsz :: u32
  fs_nfree :: int
  fs_free :: "u32 list"
  fs_ninode :: int
  fs_inode :: "u32 list"
  fs_flock :: int
  fs_fmod :: int
  fs_ilock :: int
  fs_ronly :: int
  fs_time :: u32
  fs_tfree :: u32
  fs_tinode :: u32
  fs_fsmnt :: "u32 list"
  fs_lasti :: u32
  fs_nbehind :: u32
  fs_flags :: u32
  fs_magic2 :: u32

text \<open>The super block as it lies in memory and on the disk, 256 words.\<close>

definition fs_words :: "fsblk \<Rightarrow> u32 list" where
  "fs_words f =
     [fs_magic1 f, fs_isize f, fs_fsize f, fs_swapsz f, word_of_int (fs_nfree f)] @ fs_free f @
     [word_of_int (fs_ninode f)] @ fs_inode f @
     [word_of_int (fs_flock f), word_of_int (fs_fmod f), word_of_int (fs_ilock f), word_of_int (fs_ronly f),
      fs_time f, fs_tfree f, fs_tinode f] @ fs_fsmnt f @
     [fs_lasti f, fs_nbehind f, fs_flags f, fs_magic2 f]"

text \<open>A \<^verbatim>\<open>struct fblk\<close> in a block: the count and the table; assigning one to or from the super block.\<close>

definition fblk_get :: "u32 list \<Rightarrow> fsblk \<Rightarrow> fsblk" where
  "fblk_get ws f = f\<lparr>fs_nfree := sint (ws ! 0), fs_free := take NICFREE (drop 1 ws)\<rparr>"

definition fblk_put :: "fsblk \<Rightarrow> u32 list \<Rightarrow> u32 list" where
  "fblk_put f ws = word_of_int (fs_nfree f) # fs_free f @ drop (NICFREE + 1) ws"

text \<open>
  The mounted file system: its device, its super block in core, the buffer cache (which holds
  \<^verbatim>\<open>u.u_error\<close>), the clock and the global \<^verbatim>\<open>rablock\<close>.
\<close>

record 'd ufs =
  u_dev :: int
  u_fs :: fsblk
  u_bio :: "'d bcache"
  u_time :: u32
  u_rablock :: u32

abbreviation updfs :: "(fsblk \<Rightarrow> fsblk) \<Rightarrow> 'd ufs \<Rightarrow> 'd ufs" where
  "updfs g s \<equiv> s\<lparr>u_fs := g (u_fs s)\<rparr>"

type_synonym ('a, 'd) ures = "(bstop + 'a) \<times> 'd ufs"

definition ubind :: "('a, 'd) ures \<Rightarrow> ('a \<Rightarrow> 'd ufs \<Rightarrow> ('b, 'd) ures) \<Rightarrow> ('b, 'd) ures" where
  "ubind r f = (case r of (Inl e, s) \<Rightarrow> (Inl e, s) | (Inr x, s) \<Rightarrow> f x s)"

lemma ubind_simps [simp]:
  "ubind (Inl e, s) f = (Inl e, s)" "ubind (Inr x, s) f = f x s"
  by (simp_all add: ubind_def)

text \<open>A call of the buffer cache from the file system.\<close>

definition bio :: "('d bcache \<Rightarrow> ('a, 'd) bres) \<Rightarrow> 'd ufs \<Rightarrow> ('a, 'd) ures" where
  "bio f s = (case f (u_bio s) of (r, c) \<Rightarrow> (r, s\<lparr>u_bio := c\<rparr>))"

definition badblock :: "fsblk \<Rightarrow> u32 \<Rightarrow> bool" where
  "badblock f bn \<longleftrightarrow> bn < fs_isize f \<or> bn \<ge> fs_fsize f"

text \<open>The loop that takes numbers off the table until one is in range; \<open>n\<close> is \<^verbatim>\<open>fs_nfree\<close>.\<close>

fun pick_free :: "fsblk \<Rightarrow> nat \<Rightarrow> (nat \<times> u32) option" where
  "pick_free f 0 = None"
| "pick_free f (Suc n) =
     (let bno = fs_free f ! n in
      if bno = 0 then None else if badblock f bno then pick_free f n else Some (n, bno))"

definition MNT_ASYNC :: "fsblk \<Rightarrow> bool" where
  "MNT_ASYNC f \<longleftrightarrow> fs_flags f AND 0x40 \<noteq> 0"

text \<open>
  The exit \<^verbatim>\<open>nospace\<close>. The process also writes a message and waits for five clock ticks of
  \<^verbatim>\<open>lbolt\<close> before it returns.
\<close>

definition nospace :: "'d ufs \<Rightarrow> ('a option, 'd) ures" where
  "nospace s =
     (Inr None, (updfs (\<lambda>f. f\<lparr>fs_nfree := 0, fs_tfree := 0\<rparr>) s)\<lparr>u_bio := (u_bio s)\<lparr>bu_error := ENOSPC\<rparr>\<rparr>)"

text \<open>Writing a filled buffer, delayed on a file system mounted asynchronously.\<close>

definition write_buf :: "'d strategy \<Rightarrow> nat \<Rightarrow> (u32 list \<Rightarrow> u32 list) \<Rightarrow> 'd ufs \<Rightarrow> (unit, 'd) ures" where
  "write_buf st i g s =
     bio (\<lambda>c. (if MNT_ASYNC (u_fs s) then bdwrite else bwrite) st i
               (updbuf i (\<lambda>b. b\<lparr>b_data := g (b_data b)\<rparr>) c)) s"

text \<open>The table is used up: the next one is read from the block just taken.\<close>

definition next_table :: "'d strategy \<Rightarrow> u32 \<Rightarrow> 'd ufs \<Rightarrow> (unit, 'd) ures" where
  "next_table st bno s =
     ubind (bio (bread st (u_dev s) (sint bno)) (updfs (\<lambda>f. f\<lparr>fs_flock := fs_flock f + 1\<rparr>) s)) (\<lambda>i s1.
       let b = bufs (u_bio s1) ! i;
           s2 = (if B_ERROR \<notin> b_flags b \<and> b_resid b = 0 then updfs (fblk_get (b_data b)) s1 else s1);
           s3 = s2\<lparr>u_bio := brelse i (u_bio s2)\<rparr> in
       ubind (bio (getblk st (u_dev s) SUPERB) s3) (\<lambda>j s4.
         let s5 = updfs (\<lambda>f. f\<lparr>fs_fmod := 0, fs_time := u_time s4\<rparr>) s4 in
         ubind (write_buf st j (\<lambda>_. fs_words (u_fs s5)) s5) (\<lambda>_ s6.
           (Inr (), updfs (\<lambda>f. f\<lparr>fs_flock := 0\<rparr>) (s6\<lparr>u_bio := bwakeup FlockChan (u_bio s6)\<rparr>)))))"

definition balloc :: "'d strategy \<Rightarrow> bool \<Rightarrow> 'd ufs \<Rightarrow> (nat option, 'd) ures" where
  "balloc st clrbuf s =
     (let f = u_fs s in
      if fs_flock f \<noteq> 0 then (Inl (BSleep FlockChan), s)
      else case (if fs_nfree f \<le> 0 \<or> fs_nfree f > int NICFREE then None else pick_free f (nat (fs_nfree f))) of
             None \<Rightarrow> nospace s
           | Some (n, bno) \<Rightarrow>
               let s1 = updfs (\<lambda>f. f\<lparr>fs_nfree := int n\<rparr>) s in
               ubind (if n = 0 then next_table st bno s1 else (Inr (), s1)) (\<lambda>_ s2.
                 if fs_nfree (u_fs s2) \<le> 0 then nospace s2
                 else ubind (bio (getblk st (u_dev s2) (sint bno)) s2) (\<lambda>i s3.
                   let s4 = s3\<lparr>u_bio := updbuf i (\<lambda>b. b\<lparr>b_resid := 0,
                              b_data := (if clrbuf then replicate 256 0 else b_data b)\<rparr>) (u_bio s3)\<rparr> in
                   (Inr (Some i), updfs (\<lambda>f. f\<lparr>fs_fmod := 1, fs_tfree := fs_tfree f - 1\<rparr>) s4))))"

text \<open>The table is full: it moves into the block that is being freed.\<close>

definition spill_table :: "'d strategy \<Rightarrow> u32 \<Rightarrow> 'd ufs \<Rightarrow> (unit, 'd) ures" where
  "spill_table st bno s =
     ubind (bio (getblk st (u_dev s) (sint bno)) (updfs (\<lambda>f. f\<lparr>fs_flock := fs_flock f + 1\<rparr>) s)) (\<lambda>i s1.
       let f = u_fs s1 in
       ubind (write_buf st i (fblk_put f) (updfs (\<lambda>f. f\<lparr>fs_nfree := 0\<rparr>) s1)) (\<lambda>_ s2.
         (Inr (), updfs (\<lambda>f. f\<lparr>fs_flock := 0\<rparr>) (s2\<lparr>u_bio := bwakeup FlockChan (u_bio s2)\<rparr>))))"

text \<open>\<^verbatim>\<open>free\<close>; a number that is out of range is only reported.\<close>

definition free_block :: "'d strategy \<Rightarrow> u32 \<Rightarrow> 'd ufs \<Rightarrow> (unit, 'd) ures" where
  "free_block st bno s =
     (if badblock (u_fs s) bno then (Inr (), s)
      else if fs_flock (u_fs s) \<noteq> 0 then (Inl (BSleep FlockChan), s)
      else
        let s1 = (if fs_nfree (u_fs s) \<le> 0
                  then updfs (\<lambda>f. f\<lparr>fs_nfree := 1, fs_free := (fs_free f)[0 := 0]\<rparr>) s else s) in
        ubind (if fs_nfree (u_fs s1) \<ge> int NICFREE then spill_table st bno s1 else (Inr (), s1)) (\<lambda>_ s2.
          (Inr (), updfs (\<lambda>f. f\<lparr>fs_free := (fs_free f)[nat (fs_nfree f) := bno],
                     fs_nfree := fs_nfree f + 1, fs_tfree := fs_tfree f + 1, fs_fmod := 1\<rparr>) s2)))"

definition ifree :: "u32 \<Rightarrow> 'd ufs \<Rightarrow> 'd ufs" where
  "ifree ino s =
     (let s1 = updfs (\<lambda>f. f\<lparr>fs_tinode := fs_tinode f + 1\<rparr>) s; f = u_fs s1 in
      if fs_ilock f \<noteq> 0 then s1
      else if fs_ninode f \<ge> int NICINOD
      then if fs_lasti f > ino then updfs (\<lambda>f. f\<lparr>fs_nbehind := fs_nbehind f + 1\<rparr>) s1 else s1
      else updfs (\<lambda>f. f\<lparr>fs_inode := (fs_inode f)[nat (fs_ninode f) := ino],
                     fs_ninode := fs_ninode f + 1, fs_fmod := 1\<rparr>) s1)"

end
