(* ===== verification/Ufs_Free.thy ===== *)
theory Ufs_Free
  imports Ufs_Alloc
begin

text \<open>
  The free list of a file system: the chain of tables in the super block and in free blocks
  represents the list of the free blocks in the order of their allocation; \<open>balloc\<close> takes its
  head and \<open>free_block\<close> adds to its front, whatever the tables do.
\<close>

section \<open>The chain of tables\<close>

definition tab_ok :: "(u32 \<Rightarrow> bool) \<Rightarrow> int \<Rightarrow> u32 list \<Rightarrow> bool" where
  "tab_ok good n fr \<longleftrightarrow> 1 \<le> n \<and> n \<le> int NICFREE \<and> length fr = NICFREE \<and>
     (\<forall>b\<in>set (drop 1 (take (nat n) fr)). good b)"

definition tab_blocks :: "int \<Rightarrow> u32 list \<Rightarrow> u32 list" where
  "tab_blocks n fr = rev (drop 1 (take (nat n) fr))"

inductive fchain :: "(u32 \<Rightarrow> u32 list) \<Rightarrow> (u32 \<Rightarrow> bool) \<Rightarrow> int \<Rightarrow> u32 list \<Rightarrow> u32 list \<Rightarrow> bool"
  for L :: "u32 \<Rightarrow> u32 list" and good :: "u32 \<Rightarrow> bool" where
  fchain_last: "tab_ok good n fr \<Longrightarrow> fr ! 0 = 0 \<Longrightarrow> fchain L good n fr (tab_blocks n fr)"
| fchain_more: "tab_ok good n fr \<Longrightarrow> good (fr ! 0) \<Longrightarrow>
    fchain L good (sint (L (fr ! 0) ! 0)) (take NICFREE (drop 1 (L (fr ! 0)))) bl \<Longrightarrow>
    fchain L good n fr (tab_blocks n fr @ fr ! 0 # bl)"

lemma fchain_tab: "fchain L good n fr bl \<Longrightarrow> tab_ok good n fr"
  by (erule fchain.cases) simp_all

lemma free_chain_cong:
  assumes "fchain L good n fr bl" and "\<forall>b\<in>set bl. L' b = L b"
  shows "fchain L' good n fr bl"
  using assms
proof (induction rule: fchain.induct)
  case (fchain_last n fr)
  then show ?case by (intro fchain.fchain_last)
next
  case (fchain_more n fr bl)
  then show ?case by (intro fchain.fchain_more) simp_all
qed

lemma fchain_good: "fchain L good n fr bl \<Longrightarrow> b \<in> set bl \<Longrightarrow> good b"
  by (induction rule: fchain.induct) (auto simp: tab_ok_def tab_blocks_def)

lemma tab_blocks_Suc:
  assumes "0 < n" and "n < length fr"
  shows "tab_blocks (int n + 1) fr = fr ! n # tab_blocks (int n) fr"
proof -
  have "nat (int n + 1) = Suc n" by simp
  with assms show ?thesis
    by (simp add: tab_blocks_def take_Suc_conv_app_nth)
qed

lemma tab_blocks_1 [simp]: "tab_blocks 1 fr = []"
  by (simp add: tab_blocks_def)

lemma tab_blocks_update:
  "m \<le> nat n \<Longrightarrow> tab_blocks (int m) (fr[nat n := b]) = tab_blocks (int m) fr"
  by (simp add: tab_blocks_def)

text \<open>Taking the last entry of a table with more than one, and adding one to a table that is not full.\<close>

lemma fchain_pop:
  assumes "fchain L good (int n + 1) fr bl" and "0 < n"
  shows "\<exists>bl'. bl = fr ! n # bl' \<and> fchain L good (int n) fr bl' \<and> good (fr ! n)"
  using assms(1)
proof (cases rule: fchain.cases)
  case fchain_last
  have l: "n < length fr" using fchain_last by (simp add: tab_ok_def NICFREE_def)
  have s: "set (drop 1 (take (nat (int n + 1)) fr)) = insert (fr ! n) (set (drop 1 (take n fr)))"
    using tab_blocks_Suc [OF assms(2) l] by (simp add: tab_blocks_def)
  have "tab_ok good (int n) fr" "good (fr ! n)" using fchain_last(2) assms(2) s by (simp_all add: tab_ok_def)
  with fchain_last show ?thesis
    using tab_blocks_Suc [OF assms(2) l] by (auto intro: fchain.fchain_last)
next
  case (fchain_more bl2)
  have l: "n < length fr" using fchain_more by (simp add: tab_ok_def NICFREE_def)
  have s: "set (drop 1 (take (nat (int n + 1)) fr)) = insert (fr ! n) (set (drop 1 (take n fr)))"
    using tab_blocks_Suc [OF assms(2) l] by (simp add: tab_blocks_def)
  have "tab_ok good (int n) fr" "good (fr ! n)" using fchain_more(2) assms(2) s by (simp_all add: tab_ok_def)
  with fchain_more show ?thesis
    using tab_blocks_Suc [OF assms(2) l] by (auto intro: fchain.fchain_more)
qed

lemma fchain_push:
  assumes "fchain L good (int n) fr bl" and "n < NICFREE" and "good b"
  shows "fchain L good (int n + 1) (fr[n := b]) (b # bl)"
proof -
  have t: "tab_ok good (int n) fr" by (rule fchain_tab [OF assms(1)])
  then have n: "0 < n" "n < length fr" using assms(2) by (simp_all add: tab_ok_def)
  have tb: "tab_blocks (int n + 1) (fr[n := b]) = b # tab_blocks (int n) fr"
    using tab_blocks_Suc [of n "fr[n := b]"] n by (simp add: tab_blocks_def)
  have s: "set (drop 1 (take (nat (int n + 1)) (fr[n := b]))) = insert b (set (drop 1 (take n fr)))"
    using tb by (metis list.set(2) nat_int set_rev tab_blocks_def)
  have t': "tab_ok good (int n + 1) (fr[n := b])"
    using t assms(2,3) s by (simp add: tab_ok_def)
  have z: "fr[n := b] ! 0 = fr ! 0" using n by simp
  from assms(1) show ?thesis
  proof (cases rule: fchain.cases)
    case fchain_last
    with fchain.fchain_last [OF t', of L] z tb show ?thesis by simp
  next
    case (fchain_more bl2)
    with fchain.fchain_more [OF t', of L bl2] z tb show ?thesis by simp
  qed
qed

text \<open>The chain with one entry left, and the chain that a full table starts in the block \<open>b\<close>.\<close>

lemma fchain_one:
  assumes "fchain L good 1 fr bl"
  shows "fr ! 0 = 0 \<and> bl = [] \<or>
    (\<exists>bl'. bl = fr ! 0 # bl' \<and> good (fr ! 0) \<and>
       fchain L good (sint (L (fr ! 0) ! 0)) (take NICFREE (drop 1 (L (fr ! 0)))) bl')"
  using assms by (cases rule: fchain.cases) auto

lemma fchain_spill:
  assumes "fchain L good n fr bl" and "good b" and "L' b = word_of_int n # fr @ ws"
    and "\<forall>c\<in>set bl. L' c = L c" and "n \<le> int NICFREE"
  shows "fchain L' good 1 (fr[0 := b]) (b # bl)"
proof -
  have t: "tab_ok good n fr" by (rule fchain_tab [OF assms(1)])
  have l: "length fr = NICFREE" "1 \<le> n" using t by (simp_all add: tab_ok_def)
  have "sint (word_of_int n :: u32) = n"
    using l(2) assms(5) by (simp add: signed_of_int signed_take_bit_int_eq_self NICFREE_def)
  then have "fchain L' good (sint (L' b ! 0)) (take NICFREE (drop 1 (L' b))) bl"
    using free_chain_cong [OF assms(1,4)] l(1) by (simp add: assms(3))
  moreover have "tab_ok good 1 (fr[0 := b])" "fr[0 := b] ! 0 = b"
    using l by (auto simp: tab_ok_def NICFREE_def)
  ultimately show ?thesis
    using fchain.fchain_more [of good 1 "fr[0 := b]" L' bl] assms(2) by simp
qed

section \<open>The invariant of the file system\<close>

definition fs_good :: "fsblk \<Rightarrow> u32 \<Rightarrow> bool" where
  "fs_good f b \<longleftrightarrow> \<not> badblock f b"

definition free_list :: "(u32 \<Rightarrow> u32 list) \<Rightarrow> fsblk \<Rightarrow> u32 list \<Rightarrow> bool" where
  "free_list L f bl \<longleftrightarrow>
     (fs_nfree f = 0 \<and> bl = [] \<and> length (fs_free f) = NICFREE) \<or> fchain L (fs_good f) (fs_nfree f) (fs_free f) bl"

definition fs_view :: "('d \<Rightarrow> int \<times> int \<Rightarrow> u32 list) \<Rightarrow> 'd ufs \<Rightarrow> u32 \<Rightarrow> u32 list" where
  "fs_view blk s b = bview blk (u_bio s) (u_dev s, sint b)"

definition fs_ok ::
    "('d \<Rightarrow> bool) \<Rightarrow> ('d \<Rightarrow> int \<times> int \<Rightarrow> u32 list) \<Rightarrow> (int \<times> int) set \<Rightarrow> u32 list \<Rightarrow> 'd ufs \<Rightarrow> bool" where
  "fs_ok okd blk K bl s \<longleftrightarrow>
     cache_ok okd blk K (u_bio s) \<and> free_list (fs_view blk s) (u_fs s) bl \<and> distinct bl \<and>
     fs_flock (u_fs s) = 0 \<and> unat (fs_tfree (u_fs s)) = length bl \<and> fs_isize (u_fs s) \<noteq> 0 \<and>
     (u_dev s, SUPERB) \<in> K \<and> (\<forall>b. fs_good (u_fs s) b \<longrightarrow> (u_dev s, sint b) \<in> K)"

lemma pick_free_good:
  "fs_good f (fs_free f ! n) \<Longrightarrow> fs_isize f \<noteq> 0 \<Longrightarrow> pick_free f (Suc n) = Some (n, fs_free f ! n)"
  by (auto simp: Let_def fs_good_def badblock_def word_gt_0)

lemma free_list_pick:
  assumes fl: "free_list L f bl" and iz: "fs_isize f \<noteq> 0"
  shows "(if fs_nfree f \<le> 0 \<or> fs_nfree f > int NICFREE then None else pick_free f (nat (fs_nfree f))) =
     (case bl of [] \<Rightarrow> None | b # _ \<Rightarrow> Some (nat (fs_nfree f) - 1, b))"
proof (cases "fs_nfree f = 0")
  case True
  with fl have "bl = []" by (auto simp: free_list_def dest: fchain_tab simp: tab_ok_def)
  with True show ?thesis by simp
next
  case False
  with fl have c: "fchain L (fs_good f) (fs_nfree f) (fs_free f) bl" by (simp add: free_list_def)
  have n: "1 \<le> fs_nfree f" "fs_nfree f \<le> int NICFREE" using fchain_tab [OF c] by (simp_all add: tab_ok_def)
  define m where "m = nat (fs_nfree f) - 1"
  have m: "fs_nfree f = int m + 1" "nat (fs_nfree f) = Suc m" using n by (simp_all add: m_def)
  show ?thesis
  proof (cases "m = 0")
    case True
    with fchain_one [of L "fs_good f" "fs_free f" bl] c m
    consider "fs_free f ! 0 = 0" "bl = []" | bl' where "bl = fs_free f ! 0 # bl'" "fs_good f (fs_free f ! 0)"
      by auto
    then show ?thesis
      using n m True pick_free_good [OF _ iz, of 0] by cases (auto simp: m(1))
  next
    case False
    then obtain bl' where "bl = fs_free f ! m # bl'" "fs_good f (fs_free f ! m)"
      using fchain_pop [of L "fs_good f" m "fs_free f" bl] c m by auto
    with n m pick_free_good [OF _ iz, of m] show ?thesis by (auto simp del: pick_free.simps)
  qed
qed

section \<open>The operations\<close>

lemma good_nonzero: "fs_good f b \<Longrightarrow> fs_isize f \<noteq> 0 \<Longrightarrow> b \<noteq> 0"
  by (auto simp: fs_good_def badblock_def word_gt_0)

lemma sint_eq_0: "sint (b :: u32) = 0 \<longleftrightarrow> b = 0"
  by (rule signed_eq_0_iff)

lemma free_list_good: "free_list L f bl \<Longrightarrow> b \<in> set bl \<Longrightarrow> fs_good f b"
  by (auto simp: free_list_def dest: fchain_good)

lemma free_list_cong:
  assumes "free_list L f bl" and "\<forall>b\<in>set bl. L' b = L b"
    and "fs_nfree f' = fs_nfree f" "fs_free f' = fs_free f" "fs_isize f' = fs_isize f" "fs_fsize f' = fs_fsize f"
  shows "free_list L' f' bl"
proof -
  have "fs_good f' = fs_good f" using assms(5,6) by (simp add: fs_good_def badblock_def fun_eq_iff)
  with assms show ?thesis by (auto simp: free_list_def intro: free_chain_cong)
qed

lemma tfree_less:
  assumes "distinct bl" and "\<forall>b\<in>set bl. b \<noteq> (0 :: u32)"
  shows "length bl < 2 ^ 32"
proof -
  have "card (set bl) < card (UNIV :: u32 set)"
    using assms(2) by (intro psubset_card_mono) auto
  then show ?thesis using assms(1) by (simp add: distinct_card card_word)
qed

lemma write_buf_put:
  "write_buf st i g s =
     bio (\<lambda>c. put_buf st (if MNT_ASYNC (u_fs s) then Delayed else Sync) i (g (b_data (bufs c ! i))) c) s"
  by (simp add: write_buf_def put_buf_def updbuf_def bio_def)

lemma cache_ok_bwakeup [simp]:
  "cache_ok okd blk K (bwakeup ch c) = cache_ok okd blk K c" "bview blk (bwakeup ch c) k = bview blk c k"
  "same_holds s (bwakeup ch c) = same_holds s c" "available (bwakeup ch c) k = available c k"
  by (simp_all add: bwakeup_def cache_ok_def lists_ok_def keys_unique_def busy_def bview_def same_holds_def
      held_kept_def available_def cong: option.case_cong)

lemma cache_ok_error [simp]:
  "cache_ok okd blk K (c\<lparr>bu_error := e\<rparr>) = cache_ok okd blk K c" "bview blk (c\<lparr>bu_error := e\<rparr>) k = bview blk c k"
  "same_holds s (c\<lparr>bu_error := e\<rparr>) = same_holds s c"
  by (simp_all add: cache_ok_def lists_ok_def keys_unique_def busy_def bview_def same_holds_def held_kept_def
      cong: option.case_cong)

text \<open>The blocks that the allocator may touch are in nobody's hands.\<close>

definition fs_avail :: "u32 list \<Rightarrow> 'd ufs \<Rightarrow> bool" where
  "fs_avail bl s \<longleftrightarrow> available (u_bio s) (u_dev s, SUPERB) \<and> (\<forall>b\<in>set bl. available (u_bio s) (u_dev s, sint b))"

context blockdev
begin

lemma next_table_ok:
  assumes inv: "cache_ok okd blk K (u_bio s)" and k: "(u_dev s, sint b) \<in> K" "(u_dev s, SUPERB) \<in> K"
    and av: "available (u_bio s) (u_dev s, sint b)" "available (u_bio s) (u_dev s, SUPERB)"
  shows "\<exists>s'. next_table st b s = (Inr (), s') \<and> cache_ok okd blk K (u_bio s') \<and>
     same_holds (u_bio s) (u_bio s') \<and> u_dev s' = u_dev s \<and>
     (\<forall>k\<in>K. k \<noteq> (u_dev s, SUPERB) \<longrightarrow> bview blk (u_bio s') k = bview blk (u_bio s) k) \<and>
     u_fs s' = (fblk_get (fs_view blk s b) (u_fs s))\<lparr>fs_flock := 0, fs_fmod := 0, fs_time := u_time s\<rparr>"
proof -
  obtain i c1 where r: "bread st (u_dev s) (sint b) (u_bio s) = (Inr i, c1)"
      "b_data (bufs c1 ! i) = fs_view blk s b" "buf_ok K (bufs c1 ! i)"
      "cache_ok okd blk K (brelse i c1)" "same_holds (u_bio s) (brelse i c1)"
      "\<forall>k\<in>K. bview blk (brelse i c1) k = bview blk (u_bio s) k"
    using read_and_release [OF inv k(1) av(1)] by (auto simp: fs_view_def)
  have av2: "available (brelse i c1) (u_dev s, SUPERB)"
    using av(2) same_holds_available [OF r(5)] by simp
  define m where "m = (if MNT_ASYNC (u_fs s) then Delayed else Sync)"
  obtain j c2 where g: "getblk st (u_dev s) SUPERB (brelse i c1) = (Inr j, c2)"
      "\<And>d. \<exists>c3. put_buf st m j d c2 = (Inr (), c3) \<and> cache_ok okd blk K c3 \<and> same_holds (brelse i c1) c3 \<and>
        (\<forall>k'\<in>K. bview blk c3 k' = (if k' = (u_dev s, SUPERB) then d else bview blk (brelse i c1) k'))"
    using fill_and_write [OF r(4) k(2) av2, of m] by auto
  define f1 where "f1 = (fblk_get (fs_view blk s b) ((u_fs s)\<lparr>fs_flock := fs_flock (u_fs s) + 1\<rparr>))\<lparr>fs_fmod := 0, fs_time := u_time s\<rparr>"
  have ma: "MNT_ASYNC f1 = MNT_ASYNC (u_fs s)" by (simp add: f1_def MNT_ASYNC_def fblk_get_def)
  obtain c3 where w: "put_buf st m j (fs_words f1) c2 = (Inr (), c3)" "cache_ok okd blk K c3"
      "same_holds (brelse i c1) c3"
      "\<forall>k'\<in>K. bview blk c3 k' = (if k' = (u_dev s, SUPERB) then fs_words f1 else bview blk (brelse i c1) k')"
    using g(2) by blast
  have no: "B_ERROR \<notin> b_flags (bufs c1 ! i)" "b_resid (bufs c1 ! i) = 0" using r(3) by (auto simp: buf_ok_def)
  let ?s' = "s\<lparr>u_bio := bwakeup FlockChan c3, u_fs := f1\<lparr>fs_flock := 0\<rparr>\<rparr>"
  have "next_table st b s = (Inr (), ?s')"
    using no w(1) ma
    by (simp add: next_table_def bio_def r(1,2) g(1) write_buf_put f1_def [symmetric] m_def [symmetric])
  moreover have "\<forall>k\<in>K. k \<noteq> (u_dev s, SUPERB) \<longrightarrow> bview blk c3 k = bview blk (u_bio s) k"
    using w(4) r(6) by simp
  ultimately show ?thesis
    using w(2) same_holds_trans [OF r(5) w(3)] by (intro exI [of _ ?s']) (simp add: f1_def fblk_get_def)
qed

lemma spill_table_ok:
  assumes inv: "cache_ok okd blk K (u_bio s)" and k: "(u_dev s, sint b) \<in> K"
    and av: "available (u_bio s) (u_dev s, sint b)"
  shows "\<exists>s' ws. spill_table st b s = (Inr (), s') \<and> cache_ok okd blk K (u_bio s') \<and>
     same_holds (u_bio s) (u_bio s') \<and> u_dev s' = u_dev s \<and>
     (\<forall>k\<in>K. bview blk (u_bio s') k =
        (if k = (u_dev s, sint b) then word_of_int (fs_nfree (u_fs s)) # fs_free (u_fs s) @ ws else bview blk (u_bio s) k)) \<and>
     u_fs s' = (u_fs s)\<lparr>fs_nfree := 0, fs_flock := 0\<rparr>"
proof -
  define m where "m = (if MNT_ASYNC (u_fs s) then Delayed else Sync)"
  obtain i c1 where g: "getblk st (u_dev s) (sint b) (u_bio s) = (Inr i, c1)"
      "\<And>d. \<exists>c3. put_buf st m i d c1 = (Inr (), c3) \<and> cache_ok okd blk K c3 \<and> same_holds (u_bio s) c3 \<and>
        (\<forall>k'\<in>K. bview blk c3 k' = (if k' = (u_dev s, sint b) then d else bview blk (u_bio s) k'))"
    using fill_and_write [OF inv k av, of m] by auto
  define d where "d = word_of_int (fs_nfree (u_fs s)) # fs_free (u_fs s) @ drop (NICFREE + 1) (b_data (bufs c1 ! i))"
  obtain c3 where w: "put_buf st m i d c1 = (Inr (), c3)" "cache_ok okd blk K c3" "same_holds (u_bio s) c3"
      "\<forall>k'\<in>K. bview blk c3 k' = (if k' = (u_dev s, sint b) then d else bview blk (u_bio s) k')"
    using g(2) by blast
  let ?s' = "s\<lparr>u_bio := bwakeup FlockChan c3, u_fs := (u_fs s)\<lparr>fs_nfree := 0, fs_flock := 0\<rparr>\<rparr>"
  have ma: "MNT_ASYNC (u_fs s\<lparr>fs_flock := x, fs_nfree := y\<rparr>) = MNT_ASYNC (u_fs s)" for x y
    by (simp add: MNT_ASYNC_def)
  have "spill_table st b s = (Inr (), ?s')"
    using w(1)
    by (simp add: spill_table_def bio_def g(1) write_buf_put ma fblk_put_def d_def m_def [symmetric])
  then show ?thesis
    using w by (intro exI [of _ ?s'] exI [of _ "drop (NICFREE + 1) (b_data (bufs c1 ! i))"]) (simp add: d_def)
qed

lemma balloc_full:
  assumes ok: "fs_ok okd blk K [] s"
  shows "\<exists>s'. balloc st clr s = (Inr None, s') \<and> fs_ok okd blk K [] s' \<and> bu_error (u_bio s') = ENOSPC \<and>
     fs_good (u_fs s') = fs_good (u_fs s) \<and> u_dev s' = u_dev s \<and>
     same_holds (u_bio s) (u_bio s') \<and> (\<forall>k\<in>K. bview blk (u_bio s') k = bview blk (u_bio s) k)"
proof -
  have fl: "free_list (fs_view blk s) (u_fs s) []" "fs_isize (u_fs s) \<noteq> 0" "fs_flock (u_fs s) = 0"
    using ok by (simp_all add: fs_ok_def)
  obtain s' where s': "(nospace s :: (nat option, 'd) ures) = (Inr None, s')" by (simp add: nospace_def)
  have e: "balloc st clr s = (Inr None, s')"
    using free_list_pick [OF fl(1,2)] fl(3) s' by (simp add: balloc_def)
  have l: "length (fs_free (u_fs s)) = NICFREE"
    using fl(1) by (auto simp: free_list_def tab_ok_def dest: fchain_tab)
  have "u_fs s' = (u_fs s)\<lparr>fs_nfree := 0, fs_tfree := 0\<rparr>" "u_bio s' = (u_bio s)\<lparr>bu_error := ENOSPC\<rparr>"
      "u_dev s' = u_dev s"
    using s' by (auto simp: nospace_def)
  then show ?thesis
    using e ok l by (auto simp: fs_ok_def free_list_def fs_good_def badblock_def fun_eq_iff)
qed

text \<open>The head of the list is taken off the table, and a new table is read when that was the last entry.\<close>

lemma advance_table_ok:
  assumes ok: "fs_ok okd blk K (b # bl) s" and av: "fs_avail (b # bl) s"
    and n_def: "n = nat (fs_nfree (u_fs s)) - 1"
  shows "\<exists>s2. (if n = 0 then next_table st b (updfs (\<lambda>f. f\<lparr>fs_nfree := int n\<rparr>) s)
          else (Inr (), updfs (\<lambda>f. f\<lparr>fs_nfree := int n\<rparr>) s)) = (Inr (), s2) \<and>
     cache_ok okd blk K (u_bio s2) \<and> same_holds (u_bio s) (u_bio s2) \<and> u_dev s2 = u_dev s \<and>
     (\<forall>k\<in>K. k \<noteq> (u_dev s, SUPERB) \<longrightarrow> bview blk (u_bio s2) k = bview blk (u_bio s) k) \<and>
     fchain (fs_view blk s) (fs_good (u_fs s)) (fs_nfree (u_fs s2)) (fs_free (u_fs s2)) bl \<and>
     fs_flock (u_fs s2) = 0 \<and> fs_tfree (u_fs s2) = fs_tfree (u_fs s) \<and>
     fs_isize (u_fs s2) = fs_isize (u_fs s) \<and> fs_fsize (u_fs s2) = fs_fsize (u_fs s)"
proof -
  let ?f = "u_fs s" and ?L = "fs_view blk s"
  have c: "fchain ?L (fs_good ?f) (fs_nfree ?f) (fs_free ?f) (b # bl)" and inv: "cache_ok okd blk K (u_bio s)"
    and fk: "fs_flock ?f = 0"
    using ok by (auto simp: fs_ok_def free_list_def)
  have n: "fs_nfree ?f = int n + 1"
  proof -
    have "1 \<le> fs_nfree ?f" using fchain_tab [OF c] by (simp add: tab_ok_def)
    then show ?thesis by (simp add: n_def of_nat_diff)
  qed
  show ?thesis
  proof (cases "n = 0")
    case False
    then obtain bl' where "b # bl = fs_free ?f ! n # bl'" "fchain ?L (fs_good ?f) (int n) (fs_free ?f) bl'"
      using fchain_pop [of ?L "fs_good ?f" n "fs_free ?f" "b # bl"] c n by auto
    then have "fchain ?L (fs_good ?f) (int n) (fs_free ?f) bl" by simp
    then show ?thesis
      using False inv fk by simp
  next
    case True
    have "fchain ?L (fs_good ?f) 1 (fs_free ?f) (b # bl)" using c n True by simp
    from fchain_one [OF this]
    have e: "b = fs_free ?f ! 0" "fchain ?L (fs_good ?f) (sint (?L b ! 0)) (take NICFREE (drop 1 (?L b))) bl"
      by auto
    define s1 where "s1 = updfs (\<lambda>f. f\<lparr>fs_nfree := 0\<rparr>) s"
    have v1: "fs_view blk s1 b = ?L b" by (simp add: s1_def fs_view_def)
    have g: "fs_good ?f b" by (rule fchain_good [OF c]) simp
    have k: "(u_dev s1, sint b) \<in> K" "(u_dev s1, SUPERB) \<in> K"
      using ok g by (simp_all add: fs_ok_def s1_def)
    have a: "available (u_bio s1) (u_dev s1, sint b)" "available (u_bio s1) (u_dev s1, SUPERB)"
      using av by (simp_all add: fs_avail_def s1_def)
    have i1: "cache_ok okd blk K (u_bio s1)" using inv by (simp add: s1_def)
    obtain s2 where s2: "next_table st b s1 = (Inr (), s2)" "cache_ok okd blk K (u_bio s2)"
       "same_holds (u_bio s1) (u_bio s2)" "u_dev s2 = u_dev s1"
       "\<forall>k\<in>K. k \<noteq> (u_dev s1, SUPERB) \<longrightarrow> bview blk (u_bio s2) k = bview blk (u_bio s1) k"
       "u_fs s2 = (fblk_get (?L b) (u_fs s1))\<lparr>fs_flock := 0, fs_fmod := 0, fs_time := u_time s1\<rparr>"
      using next_table_ok [OF i1 k a] unfolding v1 by blast
    then show ?thesis
      using True s2 e(2) by (intro exI [of _ s2]) (simp add: s1_def fblk_get_def)
  qed
qed

lemma balloc_takes:
  assumes ok: "fs_ok okd blk K (b # bl) s" and av: "fs_avail (b # bl) s"
  shows "\<exists>i s'. balloc st clr s = (Inr (Some i), s') \<and> fs_ok okd blk K bl s' \<and> u_dev s' = u_dev s \<and>
     fs_good (u_fs s') = fs_good (u_fs s) \<and>
     i < length (bufs (u_bio s)) \<and> \<not> busy (u_bio s) i \<and> held_kept (u_bio s) (u_bio s') \<and>
     (\<forall>j<length (bufs (u_bio s)). busy (u_bio s') j \<longleftrightarrow> j = i \<or> busy (u_bio s) j) \<and>
     tracked (bufs (u_bio s') ! i) \<and> bkey (bufs (u_bio s') ! i) = (u_dev s, sint b) \<and>
     (\<forall>k\<in>K. k \<noteq> (u_dev s, SUPERB) \<longrightarrow> k \<noteq> (u_dev s, sint b) \<longrightarrow> bview blk (u_bio s') k = bview blk (u_bio s) k) \<and>
     (clr \<longrightarrow> b_data (bufs (u_bio s') ! i) = replicate 256 0)"
proof -
  let ?f = "u_fs s" and ?L = "fs_view blk s" and ?k = "(u_dev s, sint b)"
  have fl: "free_list ?L ?f (b # bl)" "fs_isize ?f \<noteq> 0" "fs_flock ?f = 0" "distinct (b # bl)"
      "unat (fs_tfree ?f) = length (b # bl)" "(u_dev s, SUPERB) \<in> K"
      "\<And>b. fs_good ?f b \<Longrightarrow> (u_dev s, sint b) \<in> K"
    using ok by (simp_all add: fs_ok_def)
  have gd: "\<And>c. c \<in> set (b # bl) \<Longrightarrow> fs_good ?f c" by (rule free_list_good [OF fl(1)])
  define n where "n = nat (fs_nfree ?f) - 1"
  obtain s2 where s2: "(if n = 0 then next_table st b (updfs (\<lambda>f. f\<lparr>fs_nfree := int n\<rparr>) s)
          else (Inr (), updfs (\<lambda>f. f\<lparr>fs_nfree := int n\<rparr>) s)) = (Inr (), s2)"
     "cache_ok okd blk K (u_bio s2)" "same_holds (u_bio s) (u_bio s2)" "u_dev s2 = u_dev s"
     "\<forall>k\<in>K. k \<noteq> (u_dev s, SUPERB) \<longrightarrow> bview blk (u_bio s2) k = bview blk (u_bio s) k"
     "fchain ?L (fs_good ?f) (fs_nfree (u_fs s2)) (fs_free (u_fs s2)) bl"
     "fs_flock (u_fs s2) = 0" "fs_tfree (u_fs s2) = fs_tfree ?f" "fs_isize (u_fs s2) = fs_isize ?f"
     "fs_fsize (u_fs s2) = fs_fsize ?f"
    using advance_table_ok [OF ok av n_def] by (elim exE conjE) (rule that)
  have nf: "0 < fs_nfree (u_fs s2)" using fchain_tab [OF s2(6)] by (simp add: tab_ok_def)
  have kK: "?k \<in> K" using fl(7) gd by simp
  have av2: "available (u_bio s2) ?k"
    using av same_holds_available [OF s2(3)] by (simp add: fs_avail_def)
  obtain i c3 where g: "getblk st (u_dev s) (sint b) (u_bio s2) = (Inr i, c3)" "grabbed okd blk K i ?k (u_bio s2) c3"
    using getblk_ok [OF s2(2) kK av2] by auto
  note G = grabbedD [OF g(2)]
  let ?b = "bufs c3 ! i"
  define b' where "b' = ?b\<lparr>b_resid := 0, b_data := (if clr then replicate 256 0 else b_data ?b)\<rparr>"
  define c4 where "c4 = updbuf i (\<lambda>b. b\<lparr>b_resid := 0, b_data := (if clr then replicate 256 0 else b_data b)\<rparr>) c3"
  have c4: "bufs c4 = (bufs c3)[i := b']" "hashq c4 = hashq c3" "freeq c4 = freeq c3" "bdevs c4 = bdevs c3"
    by (simp_all add: c4_def b'_def)
  have b': "B_BUSY \<in> b_flags b'" "b_dev b' = b_dev ?b" "b_blkno b' = b_blkno ?b" "tracked b' = tracked ?b" "buf_ok K b'"
    using G(3) cache_okD(1) [OF G(1,2)] by (auto simp: b'_def busy_def tracked_def buf_ok_def bkey_def)
  note H = held_update_ok [OF G(1-3) c4 b']
  define s' where "s' = updfs (\<lambda>f. f\<lparr>fs_fmod := 1, fs_tfree := fs_tfree f - 1\<rparr>) (s2\<lparr>u_bio := c4\<rparr>)"
  have pick: "(if fs_nfree ?f \<le> 0 \<or> fs_nfree ?f > int NICFREE then None else pick_free ?f (nat (fs_nfree ?f))) = Some (n, b)"
    using free_list_pick [OF fl(1,2)] by (simp add: n_def)
  have e: "balloc st clr s = (Inr (Some i), s')"
    unfolding balloc_def Let_def pick option.case prod.case s2(1) using fl(3) nf g(1) s2(4)
    by (simp add: bio_def s'_def c4_def)
  have view: "\<forall>k\<in>K. k \<noteq> (u_dev s, SUPERB) \<longrightarrow> k \<noteq> ?k \<longrightarrow> bview blk c4 k = bview blk (u_bio s) k"
    using H(2) G(5,6) s2(5) by simp
  have hk: "held_kept (u_bio s) c4 \<and> i < length (bufs (u_bio s)) \<and> \<not> busy (u_bio s) i \<and>
     (\<forall>j<length (bufs (u_bio s)). busy c4 j \<longleftrightarrow> j = i \<or> busy (u_bio s) j)"
  proof -
    have n: "length (bufs c4) = length (bufs (u_bio s))" "length (bufs (u_bio s2)) = length (bufs (u_bio s))"
      "length (bufs c3) = length (bufs (u_bio s))" "i < length (bufs (u_bio s))" "\<not> busy (u_bio s) i"
      using g(2) s2(3) by (auto simp: grabbed_def held_kept_def same_holds_def c4(1))
    have bz: "busy c4 j \<longleftrightarrow> j = i \<or> busy (u_bio s) j" if "j < length (bufs (u_bio s))" for j
      using that g(2) s2(3) b'(1) n
      by (cases "j = i") (auto simp: grabbed_def same_holds_def busy_def c4(1))
    have "bufs c4 ! j = bufs (u_bio s) ! j" if "j < length (bufs (u_bio s))" "busy (u_bio s) j" for j
      using that g(2) s2(3) n
      by (cases "j = i") (auto simp: grabbed_def same_holds_def held_kept_def busy_def c4(1))
    with n bz show ?thesis by (simp add: held_kept_def)
  qed
  have same: "fs_view blk s' c = ?L c" if "c \<in> set bl" for c
  proof -
    have "c \<noteq> b" "fs_good ?f c" using fl(4) gd that by auto
    then have "(u_dev s, sint c) \<in> K" "(u_dev s, sint c) \<noteq> (u_dev s, SUPERB)" "(u_dev s, sint c) \<noteq> ?k"
      using fl(7) good_nonzero [OF _ fl(2)] sint_eq_0 by (auto simp: signed_word_eqI)
    with view show ?thesis by (simp add: fs_view_def s'_def s2(4))
  qed
  have gg: "fs_good (u_fs s') = fs_good ?f"
    using s2(9,10) by (simp add: s'_def fs_good_def badblock_def fun_eq_iff)
  then have "free_list (fs_view blk s') (u_fs s') bl"
    using free_chain_cong [OF s2(6)] same by (simp add: free_list_def s'_def)
  moreover have "unat (fs_tfree (u_fs s')) = length bl"
    using fl(5) s2(8) by (simp add: s'_def unat_minus_one unat_nonzero_iff)
  ultimately have "fs_ok okd blk K bl s'"
    using H(1) fl s2(4,7,9,10) by (simp add: fs_ok_def s'_def fs_good_def badblock_def)
  with e hk view gg show ?thesis
    using G(2,4,5) by (intro exI [of _ i] exI [of _ s']) (simp add: s'_def s2(4) c4(1) b'_def tracked_def bkey_def)
qed

lemma free_block_ok:
  assumes ok: "fs_ok okd blk K bl s" and b: "fs_good (u_fs s) b" "b \<notin> set bl"
    and av: "available (u_bio s) (u_dev s, sint b)"
  shows "\<exists>s'. free_block st b s = (Inr (), s') \<and> fs_ok okd blk K (b # bl) s' \<and> u_dev s' = u_dev s \<and>
     same_holds (u_bio s) (u_bio s') \<and> fs_isize (u_fs s') = fs_isize (u_fs s) \<and> fs_fsize (u_fs s') = fs_fsize (u_fs s) \<and>
     (\<forall>k\<in>K. k \<noteq> (u_dev s, sint b) \<longrightarrow> bview blk (u_bio s') k = bview blk (u_bio s) k)"
proof -
  let ?f = "u_fs s" and ?L = "fs_view blk s" and ?k = "(u_dev s, sint b)"
  have fl: "free_list ?L ?f bl" "fs_isize ?f \<noteq> 0" "fs_flock ?f = 0" "distinct bl" "cache_ok okd blk K (u_bio s)"
      "unat (fs_tfree ?f) = length bl" "(u_dev s, SUPERB) \<in> K" "\<And>b. fs_good ?f b \<Longrightarrow> (u_dev s, sint b) \<in> K"
    using ok by (simp_all add: fs_ok_def)
  have gd: "\<And>c. c \<in> set bl \<Longrightarrow> fs_good ?f c" by (rule free_list_good [OF fl(1)])
  have kK: "?k \<in> K" using fl(8) b(1) by simp
  define s1 where "s1 = (if fs_nfree ?f \<le> 0
     then updfs (\<lambda>f. f\<lparr>fs_nfree := 1, fs_free := (fs_free f)[0 := 0]\<rparr>) s else s)"
  have s1: "u_bio s1 = u_bio s" "u_dev s1 = u_dev s" "fs_flock (u_fs s1) = 0" "fs_tfree (u_fs s1) = fs_tfree ?f"
      "fs_isize (u_fs s1) = fs_isize ?f" "fs_fsize (u_fs s1) = fs_fsize ?f"
    using fl(3) by (simp_all add: s1_def)
  have c1: "fchain ?L (fs_good ?f) (fs_nfree (u_fs s1)) (fs_free (u_fs s1)) bl"
  proof (cases "fs_nfree ?f \<le> 0")
    case True
    with fl(1) have "bl = []" "length (fs_free ?f) = NICFREE"
      by (auto simp: free_list_def tab_ok_def dest: fchain_tab)
    moreover from this have "tab_ok (fs_good ?f) 1 ((fs_free ?f)[0 := 0])" "(fs_free ?f)[0 := 0] ! 0 = 0"
      by (auto simp: tab_ok_def NICFREE_def)
    ultimately show ?thesis
      using True fchain.fchain_last [of "fs_good ?f" 1 "(fs_free ?f)[0 := 0]" ?L] by (simp add: s1_def)
  next
    case False
    with fl(1) show ?thesis by (simp add: free_list_def s1_def)
  qed
  have n1: "1 \<le> fs_nfree (u_fs s1)" "fs_nfree (u_fs s1) \<le> int NICFREE"
    using fchain_tab [OF c1] by (simp_all add: tab_ok_def)
  have nb: "(u_dev s, sint c) \<in> K \<and> (u_dev s, sint c) \<noteq> ?k" if "c \<in> set bl" for c
    using that b(2) fl(8) gd by (auto dest: signed_word_eqI)
  have "\<exists>s2. (if fs_nfree (u_fs s1) \<ge> int NICFREE then spill_table st b s1 else (Inr (), s1)) = (Inr (), s2) \<and>
     cache_ok okd blk K (u_bio s2) \<and> same_holds (u_bio s) (u_bio s2) \<and> u_dev s2 = u_dev s \<and>
     (\<forall>k\<in>K. k \<noteq> ?k \<longrightarrow> bview blk (u_bio s2) k = bview blk (u_bio s) k) \<and>
     fchain (fs_view blk s2) (fs_good ?f) (fs_nfree (u_fs s2) + 1) ((fs_free (u_fs s2))[nat (fs_nfree (u_fs s2)) := b]) (b # bl) \<and>
     fs_flock (u_fs s2) = 0 \<and> fs_tfree (u_fs s2) = fs_tfree ?f \<and>
     fs_isize (u_fs s2) = fs_isize ?f \<and> fs_fsize (u_fs s2) = fs_fsize ?f"
  proof (cases "fs_nfree (u_fs s1) \<ge> int NICFREE")
    case False
    have "fchain ?L (fs_good ?f) (int (nat (fs_nfree (u_fs s1))) + 1) ((fs_free (u_fs s1))[nat (fs_nfree (u_fs s1)) := b]) (b # bl)"
      by (rule fchain_push) (use c1 n1 False b(1) in simp_all)
    moreover have "fs_view blk s1 = ?L" by (simp add: fs_view_def s1 fun_eq_iff)
    ultimately show ?thesis
      using False n1 s1 fl(5) by simp
  next
    case True
    have i1: "cache_ok okd blk K (u_bio s1)" "(u_dev s1, sint b) \<in> K" "available (u_bio s1) (u_dev s1, sint b)"
      using fl(5) kK av by (simp_all add: s1)
    obtain s2 ws where s2: "spill_table st b s1 = (Inr (), s2)" "cache_ok okd blk K (u_bio s2)"
        "same_holds (u_bio s1) (u_bio s2)" "u_dev s2 = u_dev s1"
        "\<forall>k\<in>K. bview blk (u_bio s2) k =
          (if k = (u_dev s1, sint b) then word_of_int (fs_nfree (u_fs s1)) # fs_free (u_fs s1) @ ws else bview blk (u_bio s1) k)"
        "u_fs s2 = (u_fs s1)\<lparr>fs_nfree := 0, fs_flock := 0\<rparr>"
      using spill_table_ok [OF i1] by blast
    have "fchain (fs_view blk s2) (fs_good ?f) 1 ((fs_free (u_fs s1))[0 := b]) (b # bl)"
    proof (rule fchain_spill [OF c1 b(1)])
      show "fs_view blk s2 b = word_of_int (fs_nfree (u_fs s1)) # fs_free (u_fs s1) @ ws"
        using s2(4,5) kK by (simp add: fs_view_def s1)
      show "\<forall>c\<in>set bl. fs_view blk s2 c = ?L c"
        using s2(4,5) nb by (simp add: fs_view_def s1)
    qed (use n1 in simp)
    then show ?thesis
      using True s2 s1 by (intro exI [of _ s2]) simp
  qed
  then obtain s2 where s2: "(if fs_nfree (u_fs s1) \<ge> int NICFREE then spill_table st b s1 else (Inr (), s1)) = (Inr (), s2)"
     "cache_ok okd blk K (u_bio s2)" "same_holds (u_bio s) (u_bio s2)" "u_dev s2 = u_dev s"
     "\<forall>k\<in>K. k \<noteq> ?k \<longrightarrow> bview blk (u_bio s2) k = bview blk (u_bio s) k"
     "fchain (fs_view blk s2) (fs_good ?f) (fs_nfree (u_fs s2) + 1) ((fs_free (u_fs s2))[nat (fs_nfree (u_fs s2)) := b]) (b # bl)"
     "fs_flock (u_fs s2) = 0" "fs_tfree (u_fs s2) = fs_tfree ?f"
     "fs_isize (u_fs s2) = fs_isize ?f" "fs_fsize (u_fs s2) = fs_fsize ?f"
    by (elim exE conjE) (rule that)
  define s' where "s' = updfs (\<lambda>f. f\<lparr>fs_free := (fs_free f)[nat (fs_nfree f) := b],
     fs_nfree := fs_nfree f + 1, fs_tfree := fs_tfree f + 1, fs_fmod := 1\<rparr>) s2"
  have e: "free_block st b s = (Inr (), s')"
    unfolding free_block_def Let_def s1_def [symmetric] s2(1) using b(1) fl(3)
    by (simp add: fs_good_def s'_def)
  have "length (b # bl) < 2 ^ 32"
    using b fl(2,4) gd good_nonzero by (intro tfree_less) auto
  then have "unat (fs_tfree (u_fs s')) = length (b # bl)"
    using fl(6) s2(8) unat_add_le [of "fs_tfree ?f" 1] by (simp add: s'_def)
  moreover have "fs_good (u_fs s') = fs_good ?f" "fs_view blk s' = fs_view blk s2"
    using s2(9,10) by (simp_all add: s'_def fs_good_def badblock_def fs_view_def fun_eq_iff)
  ultimately have "fs_ok okd blk K (b # bl) s'"
    using s2 fl b(2) by (simp add: fs_ok_def s'_def free_list_def)
  with e s2 show ?thesis by (intro exI [of _ s']) (simp add: s'_def)
qed

end

section \<open>Allocating and freeing\<close>

text \<open>C32. With a free list \<open>b # bl\<close> \<^verbatim>\<open>balloc\<close> returns a buffer of block \<open>b\<close>, held by the caller and
cleared if asked for, and leaves the free list \<open>bl\<close>, also when the table in the super block runs
out and the next one is read from \<open>b\<close>; every other block but the super block keeps its
contents. With an empty free list it fails with \<^verbatim>\<open>ENOSPC\<close> and changes no block. It never
sleeps, panics or faults while a buffer is free and nobody holds the blocks concerned.\<close>

theorem balloc_takes_head:
  assumes "disk_unit ops content sectors K" and "fs_ok (rd_ok ops sectors K) (rd_blk content) K bl s" and "fs_avail bl s"
  shows "(case bl of
       [] \<Rightarrow> \<exists>s'. balloc (rdstrategy ops) clr s = (Inr None, s') \<and> fs_ok (rd_ok ops sectors K) (rd_blk content) K [] s' \<and>
              bu_error (u_bio s') = ENOSPC \<and>
              (\<forall>k\<in>K. bview (rd_blk content) (u_bio s') k = bview (rd_blk content) (u_bio s) k)
     | b # bl' \<Rightarrow> \<exists>i s'. balloc (rdstrategy ops) clr s = (Inr (Some i), s') \<and>
              fs_ok (rd_ok ops sectors K) (rd_blk content) K bl' s' \<and>
              bkey (bufs (u_bio s') ! i) = (u_dev s, sint b) \<and> busy (u_bio s') i \<and> \<not> busy (u_bio s) i \<and>
              (clr \<longrightarrow> b_data (bufs (u_bio s') ! i) = replicate 256 0) \<and>
              (\<forall>k\<in>K. k \<noteq> (u_dev s, SUPERB) \<longrightarrow> k \<noteq> (u_dev s, sint b) \<longrightarrow>
                 bview (rd_blk content) (u_bio s') k = bview (rd_blk content) (u_bio s) k))"
proof (cases bl)
  case Nil
  with blockdev.balloc_full [OF disk_unit.rd_blockdev [OF assms(1)]] assms(2) show ?thesis by fastforce
next
  case (Cons b bl')
  from blockdev.balloc_takes [OF disk_unit.rd_blockdev [OF assms(1)] assms(2,3) [unfolded Cons], of clr]
  obtain i s' where r: "balloc (rdstrategy ops) clr s = (Inr (Some i), s')"
     "fs_ok (rd_ok ops sectors K) (rd_blk content) K bl' s'" "i < length (bufs (u_bio s))" "\<not> busy (u_bio s) i"
     "\<forall>j<length (bufs (u_bio s)). busy (u_bio s') j \<longleftrightarrow> j = i \<or> busy (u_bio s) j"
     "bkey (bufs (u_bio s') ! i) = (u_dev s, sint b)"
     "\<forall>k\<in>K. k \<noteq> (u_dev s, SUPERB) \<longrightarrow> k \<noteq> (u_dev s, sint b) \<longrightarrow>
        bview (rd_blk content) (u_bio s') k = bview (rd_blk content) (u_bio s) k"
     "clr \<longrightarrow> b_data (bufs (u_bio s') ! i) = replicate 256 0"
    by (elim exE conjE) (rule that, assumption+)
  then show ?thesis by (simp add: Cons)
qed

text \<open>C33. Freeing a block in range that is not free puts it at the front of the free list, also when
the table is empty or is full and moves into the block; no other block changes. So what
\<^verbatim>\<open>free\<close> returned last \<^verbatim>\<open>balloc\<close> gives out first.\<close>

theorem free_adds_front:
  assumes "disk_unit ops content sectors K" and "fs_ok (rd_ok ops sectors K) (rd_blk content) K bl s"
    and "\<not> badblock (u_fs s) b" and "b \<notin> set bl" and "available (u_bio s) (u_dev s, sint b)"
  shows "\<exists>s'. free_block (rdstrategy ops) b s = (Inr (), s') \<and>
     fs_ok (rd_ok ops sectors K) (rd_blk content) K (b # bl) s' \<and>
     (\<forall>k\<in>K. k \<noteq> (u_dev s, sint b) \<longrightarrow> bview (rd_blk content) (u_bio s') k = bview (rd_blk content) (u_bio s) k)"
proof -
  have "fs_good (u_fs s) b" using assms(3) by (simp add: fs_good_def)
  from blockdev.free_block_ok [OF disk_unit.rd_blockdev [OF assms(1)] assms(2) this assms(4,5)]
  show ?thesis by blast
qed

text \<open>
  The life of blocks: a client allocates a block and writes its buffer back, or frees a block
  that it owns.
\<close>

datatype fs_op = Alloc bool | Release u32

fun fs_step :: "'d strategy \<Rightarrow> fs_op \<Rightarrow> 'd ufs \<times> u32 list \<Rightarrow> bstop + ('d ufs \<times> u32 list)" where
  "fs_step st (Alloc clr) (s, own) =
     (case balloc st clr s of
        (Inl e, s1) \<Rightarrow> Inl e
      | (Inr None, s1) \<Rightarrow> Inr (s1, own)
      | (Inr (Some i), s1) \<Rightarrow>
          (case bio (bdwrite st i) s1 of
             (Inl e, s2) \<Rightarrow> Inl e
           | (Inr _, s2) \<Rightarrow> Inr (s2, word_of_int (b_blkno (bufs (u_bio s1) ! i)) # own)))"
| "fs_step st (Release b) (s, own) =
     (if b \<in> set own
      then case free_block st b s of (Inl e, s1) \<Rightarrow> Inl e | (Inr _, s1) \<Rightarrow> Inr (s1, remove1 b own)
      else Inr (s, own))"

fun fs_run :: "'d strategy \<Rightarrow> fs_op list \<Rightarrow> 'd ufs \<times> u32 list \<Rightarrow> bstop + ('d ufs \<times> u32 list)" where
  "fs_run st [] x = Inr x"
| "fs_run st (p # ps) x = (case fs_step st p x of Inl e \<Rightarrow> Inl e | Inr y \<Rightarrow> fs_run st ps y)"

definition fs_owned ::
    "('d \<Rightarrow> bool) \<Rightarrow> ('d \<Rightarrow> int \<times> int \<Rightarrow> u32 list) \<Rightarrow> (int \<times> int) set \<Rightarrow> u32 set \<Rightarrow> 'd ufs \<Rightarrow> u32 list \<Rightarrow> bool" where
  "fs_owned okd blk K B s own \<longleftrightarrow>
     (\<exists>bl. fs_ok okd blk K bl s \<and> distinct (own @ bl) \<and> set (own @ bl) = B) \<and>
     (\<forall>b\<in>B. fs_good (u_fs s) b) \<and> idle (u_bio s) \<and> bufs (u_bio s) \<noteq> []"

context blockdev
begin

lemma fs_step_ok:
  assumes own: "fs_owned okd blk K B s own"
  shows "\<exists>s' own'. fs_step st p (s, own) = Inr (s', own') \<and> fs_owned okd blk K B s' own'"
proof -
  obtain bl where bl: "fs_ok okd blk K bl s" "distinct (own @ bl)" "set (own @ bl) = B"
      and B: "\<forall>b\<in>B. fs_good (u_fs s) b" and id: "idle (u_bio s)" and ne: "bufs (u_bio s) \<noteq> []"
    using own by (auto simp: fs_owned_def)
  have av: "available (u_bio s) k" for k by (rule idle_available [OF id ne])
  show ?thesis
  proof (cases p)
    case (Alloc clr)
    show ?thesis
    proof (cases bl)
      case Nil
      obtain s' where r: "balloc st clr s = (Inr None, s')" "fs_ok okd blk K [] s'" "fs_good (u_fs s') = fs_good (u_fs s)"
          "same_holds (u_bio s) (u_bio s')"
        using balloc_full bl(1) Nil by blast
      have "idle (u_bio s')" "bufs (u_bio s') \<noteq> []"
        using id ne r(4) by (auto simp: idle_def same_holds_def held_kept_def)
      then have "fs_owned okd blk K B s' own"
        unfolding fs_owned_def using r(2,3) bl(2,3) B Nil by auto
      then show ?thesis using r(1) by (simp add: Alloc)
    next
      case (Cons b bl')
      have fa: "fs_avail (b # bl') s" using av by (simp add: fs_avail_def)
      obtain i s1 where r: "balloc st clr s = (Inr (Some i), s1)" "fs_ok okd blk K bl' s1" "u_dev s1 = u_dev s"
         "fs_good (u_fs s1) = fs_good (u_fs s)" "i < length (bufs (u_bio s))" "held_kept (u_bio s) (u_bio s1)"
         "\<forall>j<length (bufs (u_bio s)). busy (u_bio s1) j \<longleftrightarrow> j = i \<or> busy (u_bio s) j"
         "tracked (bufs (u_bio s1) ! i)" "bkey (bufs (u_bio s1) ! i) = (u_dev s, sint b)"
        using balloc_takes [OF bl(1) [unfolded Cons] fa, of clr] by (elim exE conjE) (rule that, assumption+)
      have h: "cache_ok okd blk K (u_bio s1)" "i < length (bufs (u_bio s1))" "busy (u_bio s1) i"
        using r(2,5,6,7) by (simp_all add: fs_ok_def held_kept_def)
      obtain c2 where w: "bdwrite st i (u_bio s1) = (Inr (), c2)" "cache_ok okd blk K c2" "released i (u_bio s1) c2"
          "\<forall>k\<in>K. bview blk c2 k = (if k = bkey (bufs (u_bio s1) ! i) then b_data (bufs (u_bio s1) ! i) else bview blk (u_bio s1) k)"
        using bdwrite_ok [OF h r(8)] by blast
      define s2 where "s2 = s1\<lparr>u_bio := c2\<rparr>"
      have "word_of_int (b_blkno (bufs (u_bio s1) ! i)) = b" using r(9) by (simp add: bkey_def)
      then have e: "fs_step st p (s, own) = Inr (s2, b # own)"
        using r(1) w(1) by (simp add: Alloc bio_def s2_def)
      have vw: "fs_view blk s2 c = fs_view blk s1 c" if "c \<in> set bl'" for c
      proof -
        have "c \<noteq> b" "fs_good (u_fs s) c" using bl(2,3) B that Cons by auto
        then have "(u_dev s, sint c) \<in> K" "sint c \<noteq> sint b"
          using bl(1) by (auto simp: fs_ok_def dest: signed_word_eqI)
        then show ?thesis using w(4) r(3,9) by (simp add: fs_view_def s2_def)
      qed
      have fl: "free_list (fs_view blk s1) (u_fs s1) bl'" using r(2) by (simp add: fs_ok_def)
      have "free_list (fs_view blk s2) (u_fs s1) bl'"
        by (rule free_list_cong [OF fl]) (use vw in simp_all)
      then have "free_list (fs_view blk s2) (u_fs s2) bl'" by (simp add: s2_def)
      then have ok2: "fs_ok okd blk K bl' s2" using r(2) w(2) by (simp add: fs_ok_def s2_def)
      have "idle c2" "bufs c2 \<noteq> []"
        using id ne w(3) r(6,7) by (auto simp: idle_def released_def held_kept_def busy_def)
      then have "fs_owned okd blk K B s2 (b # own)"
        unfolding fs_owned_def using ok2 bl(2,3) B r(4) Cons by (auto simp: s2_def)
      with e show ?thesis by blast
    qed
  next
    case (Release b)
    show ?thesis
    proof (cases "b \<in> set own")
      case False
      then show ?thesis using own by (simp add: Release)
    next
      case True
      then have g: "fs_good (u_fs s) b" "b \<notin> set bl" using B bl(2,3) by auto
      obtain s' where r: "free_block st b s = (Inr (), s')" "fs_ok okd blk K (b # bl) s'" "same_holds (u_bio s) (u_bio s')"
          "fs_isize (u_fs s') = fs_isize (u_fs s)" "fs_fsize (u_fs s') = fs_fsize (u_fs s)"
        using free_block_ok [OF bl(1) g av] by blast
      have "distinct (remove1 b own @ b # bl)" "set (remove1 b own @ b # bl) = B"
        using bl(2,3) True by (auto simp: set_remove1_eq)
      moreover have "fs_good (u_fs s') = fs_good (u_fs s)"
        using r(4,5) by (simp add: fs_good_def badblock_def fun_eq_iff)
      moreover have "idle (u_bio s')" "bufs (u_bio s') \<noteq> []"
        using id ne r(3) by (auto simp: idle_def same_holds_def held_kept_def)
      ultimately have "fs_owned okd blk K B s' (remove1 b own)"
        unfolding fs_owned_def using r(2) B by (intro conjI exI [of _ "b # bl"]) auto
      then show ?thesis using True r(1) by (simp add: Release)
    qed
  qed
qed

lemma fs_run_ok:
  "fs_owned okd blk K B s own \<Longrightarrow>
   \<exists>s' own'. fs_run st ps (s, own) = Inr (s', own') \<and> fs_owned okd blk K B s' own'"
proof (induction ps arbitrary: s own)
  case Nil
  then show ?case by auto
next
  case (Cons p ps)
  obtain s1 own1 where "fs_step st p (s, own) = Inr (s1, own1)" "fs_owned okd blk K B s1 own1"
    using fs_step_ok [OF Cons.prems] by blast
  with Cons.IH [of s1 own1] show ?case by auto
qed

end

text \<open>C34. Over any sequence of allocations and releases no call sleeps, panics or faults, and the
blocks in use and the blocks on the free list together stay the same set, each block exactly
once: no block is handed out twice and none is lost.\<close>

theorem blocks_never_shared:
  assumes "disk_unit ops content sectors K"
    and "fs_ok (rd_ok ops sectors K) (rd_blk content) K bl s" and "distinct (own @ bl)"
    and "\<forall>b\<in>set own. \<not> badblock (u_fs s) b" and "idle (u_bio s)" and "bufs (u_bio s) \<noteq> []"
  shows "\<exists>s' own' bl'. fs_run (rdstrategy ops) ps (s, own) = Inr (s', own') \<and>
     fs_ok (rd_ok ops sectors K) (rd_blk content) K bl' s' \<and> distinct (own' @ bl') \<and>
     set (own' @ bl') = set (own @ bl)"
proof -
  have "fs_good (u_fs s) b" if "b \<in> set (own @ bl)" for b
    using that assms(2,4) free_list_good by (auto simp: fs_ok_def fs_good_def)
  then have "fs_owned (rd_ok ops sectors K) (rd_blk content) K (set (own @ bl)) s own"
    unfolding fs_owned_def using assms(2,3,5,6) by blast
  from blockdev.fs_run_ok [OF disk_unit.rd_blockdev [OF assms(1)] this, of ps]
  show ?thesis by (auto simp: fs_owned_def)
qed

section \<open>A file system of twenty blocks\<close>

definition blocks20 :: "(int \<times> int) set" where
  "blocks20 = {k. fst k = 1 \<and> 0 \<le> snd k \<and> snd k < 20}"

definition disk20 :: "(nat \<Rightarrow> u32 \<Rightarrow> u32 list) rdstate" where
  "disk20 = \<lparr>dflags = [\<lparr>df_opens = 1, df_start = [10, 40, 0, 0], df_len = [30, 10, 0, 0], df_blocks = 64\<rparr>],
     rmedia = \<lambda>root off. [off]\<rparr>"

definition fs20 :: "(nat \<Rightarrow> u32 \<Rightarrow> u32 list) rdstate ufs" where
  "fs20 = \<lparr>u_dev = 1,
     u_fs = \<lparr>fs_magic1 = 0, fs_isize = 3, fs_fsize = 20, fs_swapsz = 0, fs_nfree = 4,
        fs_free = [0, 5, 6, 7] @ replicate 196 0, fs_ninode = 0, fs_inode = replicate 32 0, fs_flock = 0,
        fs_fmod = 0, fs_ilock = 0, fs_ronly = 0, fs_time = 0, fs_tfree = 3, fs_tinode = 0,
        fs_fsmnt = replicate 7 0, fs_lasti = 0, fs_nbehind = 0, fs_flags = 0, fs_magic2 = 0\<rparr>,
     u_bio = binit disk20
       (replicate 3 \<lparr>b_flags = {}, b_bcount = 0, b_error = 0, b_dev = 0, b_data = [0], b_blkno = 0, b_resid = 0\<rparr>),
     u_time = 0, u_rablock = 0\<rparr>"

lemma blocks20_unit: "disk_unit (mem_ops 1) (\<lambda>m. m) (\<lambda>root. UNIV) blocks20"
  by unfold_locales (auto simp: mem_ops_def blocks20_def)

lemma fs20_good: "fs_good (u_fs fs20) b \<Longrightarrow> (u_dev fs20, sint b) \<in> blocks20"
proof -
  assume "fs_good (u_fs fs20) b"
  then have b: "3 \<le> b" "b < 20" by (simp_all add: fs20_def fs_good_def badblock_def not_le not_less)
  then have "uint b < 20" by (simp add: word_less_def)
  moreover have "- (2 ^ 31) \<le> uint b" by (rule order_trans [OF _ uint_ge_0]) simp
  ultimately have "sint b = uint b" unfolding sint_uint
    by (intro signed_take_bit_int_eq_self) simp_all
  then show ?thesis using \<open>uint b < 20\<close> by (simp add: blocks20_def fs20_def)
qed

lemma disk20_ok: "rd_ok (mem_ops 1) (\<lambda>root. UNIV) blocks20 disk20"
proof -
  have loc: "rd_loc disk20 k = Some (0, 10 + word_of_int (snd k))" if "k \<in> blocks20" for k
    using that by (simp add: rd_loc_def part_start_def blocks20_def disk20_def major_def minor_def)
  have "inj_on (rd_loc disk20) blocks20"
  proof (rule inj_onI)
    fix x y assume xy: "x \<in> blocks20" "y \<in> blocks20" "rd_loc disk20 x = rd_loc disk20 y"
    then have e: "(word_of_int (snd x) :: u32) = word_of_int (snd y)" by (simp add: loc)
    have u: "uint (word_of_int n :: u32) = n" if "0 \<le> n" "n < 20" for n
      using that by (simp add: unsigned_of_int take_bit_int_eq_self)
    have "snd x = snd y" using arg_cong [OF e, of uint] u xy(1,2) by (simp add: blocks20_def)
    with xy show "x = y" by (simp add: blocks20_def prod_eq_iff)
  qed
  then show ?thesis by (simp add: rd_ok_def loc mem_ops_def)
qed

lemma fs20_ok:
  "fs_ok (rd_ok (mem_ops 1) (\<lambda>root. UNIV) blocks20) (rd_blk (\<lambda>m. m)) blocks20 [7, 6, 5] fs20"
  "idle (u_bio fs20)" "bufs (u_bio fs20) \<noteq> []" "length (bufs (u_bio fs20)) = 3"
proof -
  let ?okd = "rd_ok (mem_ops 1) (\<lambda>root. UNIV) blocks20"
  let ?bs = "replicate 3 \<lparr>b_flags = {}, b_bcount = 0, b_error = 0, b_dev = 0, b_data = [0], b_blkno = 0, b_resid = 0\<rparr>"
  let ?fr = "[0, 5, 6, 7] @ replicate 196 (0 :: u32)"
  have d: "u_bio fs20 = binit disk20 ?bs"
    by (simp add: fs20_def disk20_def)
  from binit_ok [of ?okd, OF disk20_ok, of ?bs]
  have i: "cache_ok ?okd (rd_blk (\<lambda>m. m)) blocks20 (u_bio fs20)" "idle (u_bio fs20)" "length (bufs (u_bio fs20)) = 3"
    unfolding d by auto
  have t4: "take (nat 4) ?fr = [0, 5, 6, 7]" by simp
  have "tab_ok (fs_good (u_fs fs20)) 4 ?fr"
    by (simp add: tab_ok_def t4 NICFREE_def fs20_def fs_good_def badblock_def)
  then have "fchain (fs_view (rd_blk (\<lambda>m. m)) fs20) (fs_good (u_fs fs20)) 4 ?fr (tab_blocks 4 ?fr)"
    by (rule fchain.fchain_last) simp
  moreover have "tab_blocks 4 ?fr = [7, 6, 5]" by (simp add: tab_blocks_def t4)
  moreover have "fs_nfree (u_fs fs20) = 4" "fs_free (u_fs fs20) = ?fr" by (simp_all add: fs20_def)
  ultimately have "free_list (fs_view (rd_blk (\<lambda>m. m)) fs20) (u_fs fs20) [7, 6, 5]"
    by (simp add: free_list_def)
  moreover have "(u_dev fs20, 0) \<in> blocks20" "fs_flock (u_fs fs20) = 0" "fs_isize (u_fs fs20) \<noteq> 0"
      "unat (fs_tfree (u_fs fs20)) = 3"
    by (simp_all add: fs20_def blocks20_def)
  ultimately show "fs_ok ?okd (rd_blk (\<lambda>m. m)) blocks20 [7, 6, 5] fs20"
    using i(1) fs20_good by (simp add: fs_ok_def)
  show "idle (u_bio fs20)" by (rule i(2))
  show "bufs (u_bio fs20) \<noteq> []" using i(3) by auto
  show "length (bufs (u_bio fs20)) = 3" by (rule i(3))
qed

theorem balloc_takes_head_witness:
  "\<exists>i s'. balloc (rdstrategy (mem_ops 1)) True fs20 = (Inr (Some i), s') \<and> bkey (bufs (u_bio s') ! i) = (1, 7) \<and>
     b_data (bufs (u_bio s') ! i) = replicate 256 0"
proof -
  have "fs_avail [7, 6, 5] fs20"
    using idle_available [OF fs20_ok(2,3)] by (simp add: fs_avail_def)
  from balloc_takes_head [OF blocks20_unit fs20_ok(1) this, of True] show ?thesis
    by (auto simp: fs20_def)
qed

theorem free_adds_front_witness:
  "\<exists>s'. free_block (rdstrategy (mem_ops 1)) 9 fs20 = (Inr (), s') \<and>
     fs_ok (rd_ok (mem_ops 1) (\<lambda>root. UNIV) blocks20) (rd_blk (\<lambda>m. m)) blocks20 [9, 7, 6, 5] s'"
proof -
  have "\<not> badblock (u_fs fs20) 9" by (simp add: fs20_def badblock_def)
  from free_adds_front [OF blocks20_unit fs20_ok(1) this] idle_available [OF fs20_ok(2,3)]
  show ?thesis by auto
qed

theorem blocks_never_shared_witness:
  "\<exists>s' own' bl'. fs_run (rdstrategy (mem_ops 1)) [Alloc False, Alloc True, Release 9, Release 7, Alloc False] (fs20, [9]) = Inr (s', own') \<and>
     distinct (own' @ bl') \<and> set (own' @ bl') = {5, 6, 7, 9}"
proof -
  have "distinct ([9] @ [7, 6, 5 :: u32])" "\<forall>b\<in>set [9]. \<not> badblock (u_fs fs20) b"
    by (simp_all add: fs20_def badblock_def)
  from blocks_never_shared [OF blocks20_unit fs20_ok(1) this fs20_ok(2,3),
      of "[Alloc False, Alloc True, Release 9, Release 7, Alloc False]"]
  show ?thesis by (elim exE conjE) (intro exI conjI, assumption+, auto)
qed

end
