(* ===== verification/Ufs_Bmap.thy ===== *)
theory Ufs_Bmap
  imports Ufs_Free
begin

text \<open>
  The blocks of a file (sys/kernel/ufs_bmap.c) and their release (\<^verbatim>\<open>itrunc\<close>, \<^verbatim>\<open>indirtrunc\<close>, \<^verbatim>\<open>trsingle\<close>
  and \<^verbatim>\<open>iupdat\<close> of sys/kernel/ufs_inode.c): four direct blocks and three trees of indirect blocks
  of depth one to three, all reached through the buffer cache. The inode is passed and
  returned; its device and file system are those of the state.
\<close>

section \<open>Inodes\<close>

abbreviation (input) EFBIG :: int where "EFBIG \<equiv> 27"

definition NADDR :: nat where "NADDR = 7"
definition NDADDR :: nat where "NDADDR = 4"
definition NINDIR :: nat where "NINDIR = 256"
definition INOPB :: nat where "INOPB = 16"

datatype iflag = ILOCKED | IUPD | IACC | IMOUNT | IWANT | ITEXT | ICHG | ISHLOCK | IEXLOCK | ILWAIT | IMOD | IRENAME | IPIPE | IRCOLL | IWCOLL

record inode =
  i_flag :: "iflag set"
  i_number :: u32
  i_mode :: "16 word"
  i_nlink :: "16 word"
  i_uid :: u32
  i_gid :: u32
  i_size :: u32
  i_addr :: "u32 list"
  i_flags :: u32
  i_atime :: u32
  i_mtime :: u32
  i_ctime :: u32

definition itod :: "u32 \<Rightarrow> u32" where
  "itod x = (x + word_of_nat INOPB - 1) div word_of_nat INOPB"

definition itoo :: "u32 \<Rightarrow> nat" where
  "itoo x = unat ((x + word_of_nat INOPB - 1) mod word_of_nat INOPB)"

text \<open>The 16 words of a \<^verbatim>\<open>struct dinode\<close>; \<open>r\<close> is the reserved word, which stays.\<close>

definition dinode_words :: "inode \<Rightarrow> u32 \<Rightarrow> u32 list" where
  "dinode_words ip r =
     [ucast (i_mode ip) OR push_bit 16 (ucast (i_nlink ip)), i_uid ip, i_gid ip, i_size ip] @ i_addr ip @
     [r, i_flags ip, i_atime ip, i_mtime ip, i_ctime ip]"

definition iupdat :: "'d strategy \<Rightarrow> u32 \<Rightarrow> u32 \<Rightarrow> bool \<Rightarrow> inode \<Rightarrow> 'd ufs \<Rightarrow> (inode, 'd) ures" where
  "iupdat st ta tm waitfor ip s =
     (if i_flag ip \<inter> {IUPD, IACC, ICHG, IMOD} = {} \<or> fs_ronly (u_fs s) \<noteq> 0 then (Inr ip, s)
      else ubind (bio (bread st (u_dev s) (sint (itod (i_number ip)))) s) (\<lambda>k s1.
        if B_ERROR \<in> b_flags (bufs (u_bio s1) ! k) then (Inr ip, s1\<lparr>u_bio := brelse k (u_bio s1)\<rparr>)
        else
          let ip1 = ip\<lparr>i_atime := (if IACC \<in> i_flag ip then ta else i_atime ip),
                       i_mtime := (if IUPD \<in> i_flag ip then tm else i_mtime ip),
                       i_ctime := (if ICHG \<in> i_flag ip then u_time s1 else i_ctime ip),
                       i_flag := i_flag ip - {IUPD, IACC, ICHG, IMOD}\<rparr>;
              ofs = 16 * itoo (i_number ip);
              put = (\<lambda>ws. take ofs ws @ dinode_words ip1 (ws ! (ofs + 11)) @ drop (ofs + 16) ws) in
          ubind (bio (\<lambda>c. (if waitfor \<and> \<not> MNT_ASYNC (u_fs s1) then bwrite else bdwrite) st k
                            (updbuf k (\<lambda>b. b\<lparr>b_data := put (b_data b)\<rparr>) c)) s1) (\<lambda>_ s2. (Inr ip1, s2))))"

section \<open>Finding a block\<close>

text \<open>
  The loop that counts the levels of indirection: \<open>nb\<close> is the number of blocks that a tree of the
  level holds. The result is \<^verbatim>\<open>j\<close>, 3 for the single indirect block and 1 for the triple one, and the
  number of the block within the tree.
\<close>

fun bmap_level :: "nat \<Rightarrow> int \<Rightarrow> int \<Rightarrow> (nat \<times> int) option" where
  "bmap_level 0 nb bn = None"
| "bmap_level (Suc j) nb bn =
     (let nb' = nb * 256 in if bn < nb' then Some (Suc j, bn) else bmap_level j nb' (bn - nb'))"

text \<open>
  The way through the indirect blocks; the first number says how many of them are still ahead, so
  that \<^verbatim>\<open>j\<close> is 3 when it is 1 and \<^verbatim>\<open>sh\<close> is 8 for each one after the current.
\<close>

fun bmap_walk :: "'d strategy \<Rightarrow> bool \<Rightarrow> bool \<Rightarrow> int \<Rightarrow> nat \<Rightarrow> u32 \<Rightarrow> u32 \<Rightarrow> 'd ufs \<Rightarrow> (int, 'd) ures" where
  "bmap_walk st wr sync bn 0 nb ra s = (Inr (sint nb), s\<lparr>u_rablock := ra\<rparr>)"
| "bmap_walk st wr sync bn (Suc n) nb ra s =
     ubind (bio (bread st (u_dev s) (sint nb)) s) (\<lambda>k s1.
       let b = bufs (u_bio s1) ! k;
           i = nat (bn div 256 ^ n mod 256);
           nb1 = b_data b ! i;
           ra1 = (if i < NINDIR - 1 then b_data b ! (i + 1) else ra);
           drop_it = (\<lambda>s. s\<lparr>u_bio := brelse k (u_bio s)\<rparr>) in
       if B_ERROR \<in> b_flags b \<or> b_resid b \<noteq> 0 then (Inr 0, drop_it s1)
       else if nb1 \<noteq> 0 then bmap_walk st wr sync bn n nb1 ra1 (drop_it s1)
       else if \<not> wr then (Inr (-1), drop_it s1)
       else ubind (balloc st True s1) (\<lambda>r s2.
         case r of
           None \<Rightarrow> (Inr (-1), drop_it s2)
         | Some m \<Rightarrow>
             let nb2 = word_of_int (b_blkno (bufs (u_bio s2) ! m)) in
             ubind (bio ((if \<not> MNT_ASYNC (u_fs s2) \<and> (0 < n \<or> sync) then bwrite else bdwrite) st m) s2) (\<lambda>_ s3.
               ubind (bio (\<lambda>c. bdwrite st k (updbuf k (\<lambda>b. b\<lparr>b_data := (b_data b)[i := nb2]\<rparr>) c)) s3) (\<lambda>_ s4.
                 bmap_walk st wr sync bn n nb2 ra1 s4))))"

text \<open>An entry of the inode: the block there, or a new one that is written and entered.\<close>

definition bmap_entry ::
    "'d strategy \<Rightarrow> bool \<Rightarrow> bool \<Rightarrow> bool \<Rightarrow> nat \<Rightarrow> inode \<Rightarrow> 'd ufs \<Rightarrow> ((u32 \<times> inode) option, 'd) ures" where
  "bmap_entry st wr clr now i ip s =
     (if i_addr ip ! i \<noteq> 0 then (Inr (Some (i_addr ip ! i, ip)), s)
      else if \<not> wr then (Inr None, s)
      else ubind (balloc st clr s) (\<lambda>r s1.
        case r of
          None \<Rightarrow> (Inr None, s1)
        | Some m \<Rightarrow>
            let nb = word_of_int (b_blkno (bufs (u_bio s1) ! m)) in
            ubind (bio ((if now then bwrite else bdwrite) st m) s1) (\<lambda>_ s2.
              (Inr (Some (nb, ip\<lparr>i_addr := (i_addr ip)[i := nb], i_flag := i_flag ip \<union> {IUPD, ICHG}\<rparr>)), s2))))"

definition bmap :: "'d strategy \<Rightarrow> int \<Rightarrow> bool \<Rightarrow> bool \<Rightarrow> bool \<Rightarrow> inode \<Rightarrow> 'd ufs \<Rightarrow> (int \<times> inode, 'd) ures" where
  "bmap st bn wr clr sync ip s =
     (if bn < 0 then (Inr (0, ip), s\<lparr>u_bio := (u_bio s)\<lparr>bu_error := EFBIG\<rparr>\<rparr>)
      else
        let s0 = s\<lparr>u_rablock := 0\<rparr> in
        if bn < int NADDR - 3 then
          ubind (bmap_entry st wr clr sync (nat bn) ip s0) (\<lambda>r s1.
            case r of
              None \<Rightarrow> (Inr (-1, ip), s1)
            | Some (nb, ip1) \<Rightarrow>
                (Inr (sint nb, ip1),
                 if nat bn < NADDR - 4 then s1\<lparr>u_rablock := i_addr ip1 ! (nat bn + 1)\<rparr> else s1))
        else
          case bmap_level 3 1 (bn - (int NADDR - 3)) of
            None \<Rightarrow> (Inr (0, ip), s0\<lparr>u_bio := (u_bio s0)\<lparr>bu_error := EFBIG\<rparr>\<rparr>)
          | Some (j, bn1) \<Rightarrow>
              ubind (bmap_entry st wr True (\<not> MNT_ASYNC (u_fs s0)) (NADDR - j) ip s0) (\<lambda>r s1.
                case r of
                  None \<Rightarrow> (Inr (-1, ip), s1)
                | Some (nb, ip1) \<Rightarrow>
                    ubind (bmap_walk st wr sync bn1 (4 - j) nb 0 s1) (\<lambda>d s2. (Inr (d, ip1), s2))))"

section \<open>Releasing blocks\<close>

fun each_block :: "(u32 \<Rightarrow> 'd ufs \<Rightarrow> (unit, 'd) ures) \<Rightarrow> u32 list \<Rightarrow> 'd ufs \<Rightarrow> (unit, 'd) ures" where
  "each_block f [] s = (Inr (), s)"
| "each_block f (nb # nbs) s =
     ubind (if nb \<noteq> 0 then f nb s else (Inr (), s)) (\<lambda>_ s1. each_block f nbs s1)"

text \<open>The blocks of a table from its end down to, but not including, entry \<open>lastn\<close>.\<close>

definition trsingle :: "'d strategy \<Rightarrow> u32 list \<Rightarrow> int \<Rightarrow> 'd ufs \<Rightarrow> (unit, 'd) ures" where
  "trsingle st blarray lastn s = each_block (free_block st) (rev (drop (nat (lastn + 1)) blarray)) s"

text \<open>
  \<open>level\<close> is 0, 1 or 2 for \<^verbatim>\<open>SINGLE\<close>, \<^verbatim>\<open>DOUBLE\<close> and \<^verbatim>\<open>TRIPLE\<close>. The copy of the table is held in a buffer of
  its own until the end, so that its words are those copied.
\<close>

fun indirtrunc :: "'d strategy \<Rightarrow> bool \<Rightarrow> nat \<Rightarrow> u32 \<Rightarrow> int \<Rightarrow> 'd ufs \<Rightarrow> (unit, 'd) ures" where
  "indirtrunc st sync level bn lastbn s =
     (let factor = int NINDIR ^ level; lastn = (if lastbn > 0 then lastbn div factor else lastbn) in
      ubind (bio (bread st (u_dev s) (sint bn)) s) (\<lambda>k s1.
        if B_ERROR \<in> b_flags (bufs (u_bio s1) ! k) then (Inr (), s1\<lparr>u_bio := brelse k (u_bio s1)\<rparr>)
        else ubind (bio (geteblk st) s1) (\<lambda>m s2.
          let ws = b_data (bufs (u_bio s2) ! k);
              s3 = s2\<lparr>u_bio := updbuf m (\<lambda>b. b\<lparr>b_data := ws\<rparr>) (u_bio s2)\<rparr>;
              n = nat (lastn + 1) in
          ubind (bio (\<lambda>c. (if sync then bwrite else bawrite) st k
                     (updbuf k (\<lambda>b. b\<lparr>b_data := take n ws @ replicate (NINDIR - n) 0\<rparr>) c)) s3) (\<lambda>_ s4.
            ubind (case level of
                     0 \<Rightarrow> trsingle st ws lastn s4
                   | Suc l \<Rightarrow>
                       ubind (each_block (\<lambda>nb s. ubind (indirtrunc st sync l nb (-1) s) (\<lambda>_. free_block st nb))
                                (rev (drop n ws)) s4) (\<lambda>_ s5.
                         if lastbn \<ge> 0 \<and> ws ! nat lastn \<noteq> 0
                         then indirtrunc st sync l (ws ! nat lastn) (lastbn mod factor) s5
                         else (Inr (), s5)))
              (\<lambda>_ s6. (Inr (), s6\<lparr>u_bio := brelse m (u_bio s6)\<rparr>))))))"

definition lblkno :: "u32 \<Rightarrow> u32" where "lblkno loc = drop_bit 10 loc"
definition blkoff :: "u32 \<Rightarrow> nat" where "blkoff loc = unat (loc AND 1023)"
definition MAXPIPSIZ :: u32 where "MAXPIPSIZ = word_of_nat NDADDR * 1024"

text \<open>Zeroing the bytes of a block from \<open>ofs\<close> on; a word lies in memory with its low byte first.\<close>

definition bzero_from :: "nat \<Rightarrow> u32 list \<Rightarrow> u32 list" where
  "bzero_from ofs ws =
     map (\<lambda>i. if 4 * i \<ge> ofs then 0 else if ofs < 4 * i + 4 then take_bit (8 * (ofs - 4 * i)) (ws ! i) else ws ! i)
       [0..<length ws]"

text \<open>
  \<open>itrunc_indirect\<close> is the loop over the three trees, from the triple one down; the Boolean is True when it
  reached a tree that is kept in part and so ends the work. \<open>lasti\<close> holds \<^verbatim>\<open>lastiblock\<close>, and \<open>tip\<close> the addresses of the copy of the inode.
\<close>

fun itrunc_indirect :: "'d strategy \<Rightarrow> bool \<Rightarrow> int list \<Rightarrow> u32 list \<Rightarrow> nat \<Rightarrow> 'd ufs \<Rightarrow> (bool, 'd) ures" where
  "itrunc_indirect st sync lasti tip 0 s = (Inr False, s)"
| "itrunc_indirect st sync lasti tip (Suc level) s =
     (let bn = tip ! (NDADDR + level); l = lasti ! level in
      ubind (if bn \<noteq> 0 then
               ubind (indirtrunc st sync level bn l s) (\<lambda>_ s1. if l < 0 then free_block st bn s1 else (Inr (), s1))
             else (Inr (), s)) (\<lambda>_ s2.
        if l \<ge> 0 then (Inr True, s2) else itrunc_indirect st sync lasti tip level s2))"

text \<open>The part of \<^verbatim>\<open>itrunc\<close> that shortens a file, up to the write of the inode; None when it gave up.\<close>

definition itrunc_shorten :: "'d strategy \<Rightarrow> bool \<Rightarrow> u32 \<Rightarrow> inode \<Rightarrow> 'd ufs \<Rightarrow> (inode option \<times> inode, 'd) ures" where
  "itrunc_shorten st sync len oip s =
     (let lastblock = sint (lblkno (len + 1023) - 1);
          l0 = lastblock - int NDADDR; l1 = l0 - int NINDIR; l2 = l1 - int NINDIR * int NINDIR;
          ofs = blkoff len in
      ubind (if ofs = 0 then (Inr (Some oip, oip), s)
             else ubind (bmap st (uint (lblkno len)) True True sync oip s) (\<lambda>(bn, oip1) s1.
               if bu_error (u_bio s1) \<noteq> 0 \<or> bn < 0 then (Inr (None, oip1), s1)
               else ubind (bio (bread st (u_dev s1) bn) s1) (\<lambda>k s2.
                 if B_ERROR \<in> b_flags (bufs (u_bio s2) ! k)
                 then (Inr (None, oip1), s2\<lparr>u_bio := brelse k ((u_bio s2)\<lparr>bu_error := EIO\<rparr>)\<rparr>)
                 else ubind (bio (\<lambda>c. bdwrite st k (updbuf k (\<lambda>b. b\<lparr>b_data := bzero_from ofs (b_data b)\<rparr>) c)) s2)
                        (\<lambda>_ s3. (Inr (Some oip1, oip1), s3))))) (\<lambda>(r, oip1) s4.
        case r of
          None \<Rightarrow> (Inr (None, oip1), s4)
        | Some _ \<Rightarrow>
            let tip = i_addr oip1;
                keep = (\<lambda>i. if i < NDADDR then int i \<le> lastblock else [l0, l1, l2] ! (i - NDADDR) \<ge> 0);
                oip2 = oip1\<lparr>i_size := len, i_addr := map (\<lambda>i. if keep i then tip ! i else 0) [0..<NADDR]\<rparr>;
                norm = map (\<lambda>l. if l < 0 then -1 else l) [l0, l1, l2] in
            ubind (itrunc_indirect st sync norm tip 3 s4) (\<lambda>stop s5.
              ubind (if stop then (Inr (), s5)
                     else each_block (free_block st) (rev (drop (nat (lastblock + 1)) (take NDADDR tip))) s5)
                (\<lambda>_ s6. (Inr (Some oip2, oip2), s6)))))"

definition itrunc :: "'d strategy \<Rightarrow> u32 \<Rightarrow> bool \<Rightarrow> inode \<Rightarrow> 'd ufs \<Rightarrow> (inode, 'd) ures" where
  "itrunc st len sync oip0 s =
     (let oip = (if IPIPE \<in> i_flag oip0 then oip0\<lparr>i_size := MAXPIPSIZ\<rparr> else oip0);
          updret = (\<lambda>ip s. iupdat st (u_time s) (u_time s) True (ip\<lparr>i_flag := i_flag ip \<union> {ICHG, IUPD}\<rparr>) s) in
      if IPIPE \<notin> i_flag oip \<and> i_size oip = len then updret oip s
      else if i_size oip < len then
        ubind (bmap st (uint (lblkno (len - 1))) True True sync oip s) (\<lambda>(bn, oip1) s1.
          if bu_error (u_bio s1) \<noteq> 0 \<or> bn < 0 then (Inr oip1, s1) else updret (oip1\<lparr>i_size := len\<rparr>) s1)
      else ubind (itrunc_shorten st sync len oip s) (\<lambda>(r, oip1) s1.
          case r of None \<Rightarrow> (Inr oip1, s1) | Some oip2 \<Rightarrow> updret oip2 s1))"

end
