(* ===== verification/Ufs_Tree.thy ===== *)
theory Ufs_Tree
  imports Ufs_Bmap
begin

text \<open>
  The tree of indirect blocks as a data structure: the block that it holds for a number, the
  blocks it consists of, and what one call of \<open>bmap_walk\<close> may do to it.
\<close>

section \<open>Lists of disjoint parts\<close>

lemma concat_parts:
  assumes "i < length ps"
  shows "\<exists>a b. concat ps = a @ ps ! i @ b \<and> (\<forall>q. concat (ps[i := q]) = a @ q @ b) \<and>
    (\<forall>j<length ps. j \<noteq> i \<longrightarrow> set (ps ! j) \<subseteq> set a \<union> set b)"
proof (intro exI conjI allI impI)
  show "concat ps = concat (take i ps) @ ps ! i @ concat (drop (Suc i) ps)"
    using assms by (metis concat.simps(2) concat_append id_take_nth_drop)
  show "concat (ps[i := q]) = concat (take i ps) @ q @ concat (drop (Suc i) ps)" for q
    using assms by (simp add: upd_conv_take_nth_drop)
  show "set (ps ! j) \<subseteq> set (concat (take i ps)) \<union> set (concat (drop (Suc i) ps))" if j: "j < length ps" "j \<noteq> i" for j
  proof (cases "j < i")
    case True
    then have "take i ps ! j \<in> set (take i ps)" using j assms by (intro nth_mem) simp
    then show ?thesis using True by auto
  next
    case False
    then have "drop (Suc i) ps ! (j - Suc i) \<in> set (drop (Suc i) ps)" using j by (intro nth_mem) simp
    moreover have "drop (Suc i) ps ! (j - Suc i) = ps ! j" using False j by simp
    ultimately show ?thesis by auto
  qed
qed

lemma distinct_concat_update:
  assumes "i < length ps" "distinct (concat ps)" "distinct q" "set q \<subseteq> set (ps ! i) \<union> U" "U \<inter> set (concat ps) = {}"
  shows "distinct (concat (ps[i := q]))"
proof -
  obtain a b where ab: "concat ps = a @ ps ! i @ b" "\<forall>q. concat (ps[i := q]) = a @ q @ b"
      "\<forall>j<length ps. j \<noteq> i \<longrightarrow> set (ps ! j) \<subseteq> set a \<union> set b"
    using concat_parts [OF assms(1)] by blast
  show ?thesis using assms(2-) unfolding ab(1) ab(2) [rule_format] by auto
qed

lemma set_concat_update:
  assumes "i < length ps" "set q = set (ps ! i) \<union> U"
  shows "set (concat (ps[i := q])) = set (concat ps) \<union> U"
proof -
  obtain a b where ab: "concat ps = a @ ps ! i @ b" "\<forall>q. concat (ps[i := q]) = a @ q @ b"
      "\<forall>j<length ps. j \<noteq> i \<longrightarrow> set (ps ! j) \<subseteq> set a \<union> set b"
    using concat_parts [OF assms(1)] by blast
  show ?thesis using assms(2) unfolding ab(1) ab(2) [rule_format] by auto
qed

lemma distinct_parts:
  assumes "distinct (concat ps)" "i < length ps" "j < length ps" "j \<noteq> i"
  shows "set (ps ! i) \<inter> set (ps ! j) = {}"
proof -
  obtain a b where ab: "concat ps = a @ ps ! i @ b" "\<forall>q. concat (ps[i := q]) = a @ q @ b"
      "\<forall>j<length ps. j \<noteq> i \<longrightarrow> set (ps ! j) \<subseteq> set a \<union> set b"
    using concat_parts [OF assms(2)] by blast
  show ?thesis using assms(1) ab(3) [rule_format, OF assms(3,4)] unfolding ab(1) by auto
qed

section \<open>Trees\<close>

fun tree_get :: "(u32 \<Rightarrow> u32 list) \<Rightarrow> nat \<Rightarrow> u32 \<Rightarrow> int \<Rightarrow> u32" where
  "tree_get L 0 nb bn = nb"
| "tree_get L (Suc n) nb bn =
     (let nb1 = L nb ! nat (bn div 256 ^ n mod 256) in if nb1 = 0 then 0 else tree_get L n nb1 bn)"

fun tree_blocks :: "(u32 \<Rightarrow> u32 list) \<Rightarrow> nat \<Rightarrow> u32 \<Rightarrow> u32 list" where
  "tree_blocks L 0 nb = [nb]"
| "tree_blocks L (Suc n) nb = nb # concat (map (\<lambda>b. if b = 0 then [] else tree_blocks L n b) (L nb))"

fun tree_full :: "(u32 \<Rightarrow> u32 list) \<Rightarrow> nat \<Rightarrow> u32 \<Rightarrow> bool" where
  "tree_full L 0 nb \<longleftrightarrow> True"
| "tree_full L (Suc n) nb \<longleftrightarrow> length (L nb) = 256 \<and> (\<forall>b\<in>set (L nb). b \<noteq> 0 \<longrightarrow> tree_full L n b)"

definition tree_ok :: "(u32 \<Rightarrow> bool) \<Rightarrow> (u32 \<Rightarrow> u32 list) \<Rightarrow> nat \<Rightarrow> u32 \<Rightarrow> bool" where
  "tree_ok good L n nb \<longleftrightarrow> distinct (tree_blocks L n nb) \<and> (\<forall>b\<in>set (tree_blocks L n nb). good b) \<and> tree_full L n nb"

abbreviation sub_parts :: "(u32 \<Rightarrow> u32 list) \<Rightarrow> nat \<Rightarrow> u32 list \<Rightarrow> u32 list list" where
  "sub_parts L n ws \<equiv> map (\<lambda>b. if b = 0 then [] else tree_blocks L n b) ws"

lemma tree_root: "nb \<in> set (tree_blocks L n nb)"
  by (cases n) auto

definition tree_index :: "nat \<Rightarrow> int \<Rightarrow> nat" where
  "tree_index n bn = nat (bn div 256 ^ n mod 256)"

lemma tree_index_less [simp]: "tree_index n bn < 256"
  by (simp add: tree_index_def nat_less_iff)

lemma tree_get_Suc:
  "tree_get L (Suc n) nb bn =
     (if L nb ! tree_index n bn = 0 then 0 else tree_get L n (L nb ! tree_index n bn) bn)"
  by (simp add: tree_index_def Let_def)

declare tree_get.simps(2) [simp del]

lemma tree_cong:
  assumes "\<forall>b\<in>set (tree_blocks L n nb). L' b = L b" "tree_full L n nb"
  shows "tree_blocks L' n nb = tree_blocks L n nb \<and> tree_get L' n nb bn = tree_get L n nb bn \<and> tree_full L' n nb"
  using assms
proof (induction n arbitrary: nb)
  case (Suc n)
  have r: "L' nb = L nb" "length (L nb) = 256" using Suc.prems by simp_all
  have sub: "tree_blocks L' n b = tree_blocks L n b \<and> tree_get L' n b bn = tree_get L n b bn \<and> tree_full L' n b"
    if "b \<in> set (L nb)" "b \<noteq> 0" for b
    using Suc that by auto
  have "sub_parts L' n (L nb) = sub_parts L n (L nb)"
    using sub by (intro map_cong) auto
  moreover have "tree_get L' (Suc n) nb bn = tree_get L (Suc n) nb bn"
    using sub [of "L nb ! tree_index n bn"] r by (simp add: tree_get_Suc)
  ultimately show ?case using r sub by (simp del: map_eq_conv)
qed simp

section \<open>One call\<close>

text \<open>
  What a call with block number \<open>bn\<close> and result \<open>r\<close> does to the tree at \<open>nb\<close> of depth \<open>n\<close>: it takes blocks
  from the front of the free list and adds them to the tree, touches no other block, changes
  the answer for no other number, and finds or adds the block of \<open>bn\<close> unless it fails.
\<close>

definition tree_step ::
    "(u32 \<Rightarrow> bool) \<Rightarrow> (u32 \<Rightarrow> u32 list) \<Rightarrow> (u32 \<Rightarrow> u32 list) \<Rightarrow> u32 list \<Rightarrow> u32 list \<Rightarrow> nat \<Rightarrow> u32 \<Rightarrow> int \<Rightarrow> int \<Rightarrow> bool" where
  "tree_step good L L' bl bl' n nb bn r \<longleftrightarrow>
     tree_ok good L' n nb \<and>
     (\<exists>used. bl = used @ bl' \<and> set (tree_blocks L' n nb) = set (tree_blocks L n nb) \<union> set used) \<and>
     (\<forall>c. good c \<and> c \<notin> set (tree_blocks L n nb) \<union> set bl \<longrightarrow> L' c = L c) \<and>
     (\<forall>bn'. bn' mod 256 ^ n \<noteq> bn mod 256 ^ n \<or> r = -1 \<longrightarrow> tree_get L' n nb bn' = tree_get L n nb bn') \<and>
     (r = -1 \<longrightarrow> tree_get L n nb bn = 0) \<and>
     (r \<noteq> -1 \<longrightarrow> tree_get L' n nb bn \<noteq> 0 \<and> r = sint (tree_get L' n nb bn) \<and>
        (tree_get L n nb bn \<noteq> 0 \<longrightarrow> tree_get L' n nb bn = tree_get L n nb bn))"

lemma index_split:
  assumes "tree_index n bn' = tree_index n bn" "bn' mod 256 ^ Suc n \<noteq> bn mod 256 ^ Suc n"
  shows "bn' mod 256 ^ n \<noteq> bn mod 256 ^ n"
proof
  assume e: "bn' mod 256 ^ n = bn mod 256 ^ n"
  have d: "x mod 256 ^ Suc n = 256 ^ n * (x div 256 ^ n mod 256) + x mod 256 ^ n" for x :: int
    by (metis mult.commute power_Suc zmod_zmult2_eq zero_le_numeral)
  have "bn' div 256 ^ n mod 256 = bn div 256 ^ n mod 256"
    using assms(1) by (simp add: tree_index_def nat_eq_iff split: if_splits)
  with d [of bn] d [of bn'] e assms(2) show False by simp
qed

section \<open>Tables of trees\<close>

text \<open>
  A list of entries \<open>(d, b)\<close>: a tree of depth \<open>d\<close> at block \<open>b\<close>, or nothing when \<open>b\<close> is 0. An
  indirect block is such a table and so is the list of addresses in an inode.
\<close>

definition forest :: "(u32 \<Rightarrow> u32 list) \<Rightarrow> (nat \<times> u32) list \<Rightarrow> u32 list list" where
  "forest L xs = map (\<lambda>(d, b). if b = 0 then [] else tree_blocks L d b) xs"

definition forest_ok :: "(u32 \<Rightarrow> bool) \<Rightarrow> (u32 \<Rightarrow> u32 list) \<Rightarrow> (nat \<times> u32) list \<Rightarrow> bool" where
  "forest_ok good L xs \<longleftrightarrow> distinct (concat (forest L xs)) \<and> (\<forall>b\<in>set (concat (forest L xs)). good b) \<and>
     (\<forall>(d, b)\<in>set xs. b \<noteq> 0 \<longrightarrow> tree_full L d b)"

lemma length_forest [simp]: "length (forest L xs) = length xs"
  by (simp add: forest_def)

lemma nth_forest: "i < length xs \<Longrightarrow> forest L xs ! i = (case xs ! i of (d, b) \<Rightarrow> if b = 0 then [] else tree_blocks L d b)"
  by (simp add: forest_def)

lemma forest_part: "i < length xs \<Longrightarrow> xs ! i = (d, b) \<Longrightarrow> b \<noteq> 0 \<Longrightarrow> set (tree_blocks L d b) \<subseteq> set (concat (forest L xs))"
  using nth_mem [of i "forest L xs"] by (auto simp: nth_forest)

lemma forest_full: "forest_ok good L xs \<Longrightarrow> i < length xs \<Longrightarrow> xs ! i = (d, b) \<Longrightarrow> b \<noteq> 0 \<Longrightarrow> tree_full L d b"
  using nth_mem [of i xs] by (auto simp: forest_ok_def)

lemma forest_tree:
  assumes "forest_ok good L xs" "i < length xs" "xs ! i = (d, b)" "b \<noteq> 0"
  shows "tree_ok good L d b"
proof -
  have "tree_blocks L d b \<in> set (forest L xs)" using nth_mem [of i "forest L xs"] assms by (simp add: nth_forest)
  then have "distinct (tree_blocks L d b)" using assms(1) by (auto simp: forest_ok_def distinct_concat_iff)
  then show ?thesis
    using assms(1) forest_part [OF assms(2-4)] forest_full [OF assms] by (auto simp: tree_ok_def forest_ok_def)
qed

lemma tree_forest:
  "tree_blocks L (Suc n) nb = nb # concat (forest L (map (Pair n) (L nb)))"
  "tree_ok good L (Suc n) nb \<longleftrightarrow> good nb \<and> length (L nb) = 256 \<and> nb \<notin> set (concat (forest L (map (Pair n) (L nb)))) \<and>
     forest_ok good L (map (Pair n) (L nb))"
  by (auto simp: forest_def tree_ok_def forest_ok_def comp_def)

text \<open>Entries whose blocks all keep their contents.\<close>

lemma forest_other:
  assumes "forest_ok good L xs" "j < length xs" "xs ! j = (d, b)" "b \<noteq> 0"
    and "\<forall>c\<in>set (concat (forest L xs)). c \<notin> X \<longrightarrow> L' c = L c" "X \<inter> set (tree_blocks L d b) = {}"
  shows "tree_blocks L' d b = tree_blocks L d b \<and> tree_get L' d b x = tree_get L d b x \<and> tree_full L' d b"
  by (rule tree_cong) (use forest_part [OF assms(2-4), of L] assms(5,6) forest_full [OF assms(1-4)] in blast)+

lemma forest_update:
  assumes ok: "forest_ok good L xs" and i: "i < length xs" "xs ! i = (d, b0)"
    and X: "X \<subseteq> (if b0 = 0 then {} else set (tree_blocks L d b0)) \<union> U" "U \<inter> set (concat (forest L xs)) = {}" "\<forall>u\<in>U. good u"
    and same: "\<forall>c\<in>set (concat (forest L xs)). c \<notin> X \<longrightarrow> L' c = L c"
    and b: "b \<noteq> 0" "tree_ok good L' d b" "set (tree_blocks L' d b) = (if b0 = 0 then {} else set (tree_blocks L d b0)) \<union> U"
  shows "forest_ok good L' (xs[i := (d, b)])"
    "set (concat (forest L' (xs[i := (d, b)]))) = set (concat (forest L xs)) \<union> U"
    "j < length xs \<Longrightarrow> j \<noteq> i \<Longrightarrow> xs ! j = (d', b') \<Longrightarrow> b' \<noteq> 0 \<Longrightarrow> tree_get L' d' b' x = tree_get L d' b' x"
proof -
  let ?q = "tree_blocks L' d b"
  have pi: "set (forest L xs ! i) = (if b0 = 0 then {} else set (tree_blocks L d b0))"
    using i by (simp add: nth_forest)
  have oth: "tree_blocks L' d' b' = tree_blocks L d' b' \<and> tree_get L' d' b' x = tree_get L d' b' x \<and> tree_full L' d' b'"
    if j: "j < length xs" "j \<noteq> i" "xs ! j = (d', b')" "b' \<noteq> 0" for j d' b' x
  proof (rule forest_other [OF ok j(1,3,4) same])
    have "set (forest L xs ! i) \<inter> set (forest L xs ! j) = {}"
      by (rule distinct_parts) (use ok i j in \<open>simp_all add: forest_ok_def\<close>)
    moreover have "forest L xs ! j = tree_blocks L d' b'" using j by (simp add: nth_forest)
    ultimately have d: "set (forest L xs ! i) \<inter> set (tree_blocks L d' b') = {}" by simp
    have "U \<inter> set (tree_blocks L d' b') = {}" using X(2) forest_part [OF j(1,3,4), of L] by (auto simp del: set_concat)
    with d X(1) [folded pi] show "X \<inter> set (tree_blocks L d' b') = {}" by auto
  qed
  then show "tree_get L' d' b' x = tree_get L d' b' x" if "j < length xs" "j \<noteq> i" "xs ! j = (d', b')" "b' \<noteq> 0"
    using that by blast
  have f: "forest L' (xs[i := (d, b)]) = (forest L xs)[i := ?q]"
  proof (rule nth_equalityI)
    fix j assume "j < length (forest L' (xs[i := (d, b)]))"
    then have j: "j < length xs" by simp
    show "forest L' (xs[i := (d, b)]) ! j = (forest L xs)[i := ?q] ! j"
      using oth [of j] j i b(1) by (cases "j = i"; cases "xs ! j") (simp_all add: nth_forest)
  qed simp
  show s: "set (concat (forest L' (xs[i := (d, b)]))) = set (concat (forest L xs)) \<union> U"
    unfolding f by (rule set_concat_update) (use i b(3) pi in simp_all)
  have "distinct (concat (forest L' (xs[i := (d, b)])))"
    unfolding f
    by (rule distinct_concat_update [of _ _ _ U])
      (use i ok b(2,3) pi X(2) in \<open>simp_all add: forest_ok_def tree_ok_def\<close>)
  moreover have "tree_full L' d' b'" if m: "(d', b') \<in> set (xs[i := (d, b)])" "b' \<noteq> 0" for d' b'
  proof -
    obtain j where j: "j < length xs" "xs[i := (d, b)] ! j = (d', b')" using m(1) by (auto simp: in_set_conv_nth)
    then show ?thesis using oth [of j d' b'] m(2) b(2) i by (cases "j = i") (auto simp: tree_ok_def)
  qed
  ultimately show "forest_ok good L' (xs[i := (d, b)])"
    unfolding forest_ok_def s using ok X(3) by (auto simp: forest_ok_def)
qed

lemma forest_step:
  assumes ok: "forest_ok good L xs" and i: "i < length xs" "xs ! i = (d, b)" "b \<noteq> 0"
    and bl: "\<forall>b\<in>set bl. good b" "set bl \<inter> set (concat (forest L xs)) = {}"
    and st: "tree_step good L L' bl bl' d b bn r"
  obtains used where "bl = used @ bl'" "set (concat (forest L' xs)) = set (concat (forest L xs)) \<union> set used"
    "forest_ok good L' xs" "\<forall>c. good c \<and> c \<notin> set (concat (forest L xs)) \<union> set bl \<longrightarrow> L' c = L c"
    "\<forall>j d' b' x. j < length xs \<and> j \<noteq> i \<and> xs ! j = (d', b') \<and> b' \<noteq> 0 \<longrightarrow> tree_get L' d' b' x = tree_get L d' b' x"
proof -
  obtain used where u: "bl = used @ bl'" "set (tree_blocks L' d b) = set (tree_blocks L d b) \<union> set used"
    using st by (auto simp: tree_step_def)
  have same: "\<forall>c. good c \<and> c \<notin> set (tree_blocks L d b) \<union> set bl \<longrightarrow> L' c = L c" and ok': "tree_ok good L' d b"
    using st by (simp_all add: tree_step_def)
  have P: "set (tree_blocks L d b) \<subseteq> set (concat (forest L xs))" by (rule forest_part [OF i])
  have xs: "xs[i := (d, b)] = xs" using i by (metis list_update_id)
  have "\<forall>c\<in>set (concat (forest L xs)). c \<notin> set (tree_blocks L d b) \<longrightarrow> L' c = L c"
    using same ok bl(2) by (auto simp: forest_ok_def)
  note F = forest_update [OF ok i(1,2) _ _ _ this i(3) ok', of "set used", unfolded xs]
  have X: "set (tree_blocks L d b) \<subseteq> (if b = 0 then {} else set (tree_blocks L d b)) \<union> set used"
      "set used \<inter> set (concat (forest L xs)) = {}" "\<forall>u\<in>set used. good u"
      "set (tree_blocks L' d b) = (if b = 0 then {} else set (tree_blocks L d b)) \<union> set used"
    using u bl i(3) by auto
  show thesis
  proof (rule that [OF u(1) F(2) [OF X] F(1) [OF X]])
    show "\<forall>c. good c \<and> c \<notin> set (concat (forest L xs)) \<union> set bl \<longrightarrow> L' c = L c" using same P by blast
    show "\<forall>j d' b' x. j < length xs \<and> j \<noteq> i \<and> xs ! j = (d', b') \<and> b' \<noteq> 0 \<longrightarrow> tree_get L' d' b' x = tree_get L d' b' x"
      using F(3) [OF X] by blast
  qed
qed

lemma fresh_tree:
  assumes "n = 0 \<or> length (L b) = 256 \<and> (\<forall>w\<in>set (L b). w = 0)"
  shows "tree_blocks L n b = [b]" "tree_full L n b" "0 < n \<Longrightarrow> tree_get L n b x = 0" "good b \<Longrightarrow> tree_ok good L n b"
proof -
  show b: "tree_blocks L n b = [b]" using assms by (cases n) simp_all
  show f: "tree_full L n b" using assms by (cases n) auto
  show "tree_get L n b x = 0" if "0 < n"
    using assms nth_mem [of "tree_index (n - 1) x" "L b"] that by (cases n) (auto simp: tree_get_Suc)
  show "tree_ok good L n b" if "good b" using b f that by (simp add: tree_ok_def)
qed

lemma forest_new:
  assumes ok: "forest_ok good L xs" and i: "i < length xs" "xs ! i = (d, 0)"
    and b: "good b" "b \<noteq> 0" "b \<notin> set (concat (forest L xs))" and fr: "d = 0 \<or> length (L1 b) = 256 \<and> (\<forall>w\<in>set (L1 b). w = 0)"
    and L1: "\<forall>c\<in>set (concat (forest L xs)). L1 c = L c"
  shows "forest_ok good L1 (xs[i := (d, b)])" "set (concat (forest L1 (xs[i := (d, b)]))) = insert b (set (concat (forest L xs)))"
    "j < length xs \<Longrightarrow> j \<noteq> i \<Longrightarrow> xs ! j = (d', b') \<Longrightarrow> b' \<noteq> 0 \<Longrightarrow> tree_get L1 d' b' x = tree_get L d' b' x"
  using forest_update [OF ok i, of "{}" "{b}" L1 b] fresh_tree(1,4) [of d L1 b, OF fr] b L1 by auto

section \<open>Steps in an indirect block\<close>

lemma tree_step_descend:
  assumes ok: "tree_ok good L (Suc n) nb" and bl: "\<forall>b\<in>set bl. good b" "set bl \<inter> set (tree_blocks L (Suc n) nb) = {}"
    and nb1: "nb1 = L nb ! tree_index n bn" "nb1 \<noteq> 0"
    and st: "tree_step good L L' bl bl' n nb1 bn r"
  shows "tree_step good L L' bl bl' (Suc n) nb bn r"
proof -
  let ?i = "tree_index n bn" and ?xs = "map (Pair n) (L nb)"
  note T = ok [unfolded tree_forest(2)]
  have i: "?i < length ?xs" "?xs ! ?i = (n, nb1)" using T nb1 by simp_all
  have bl2: "set bl \<inter> set (concat (forest L ?xs)) = {}" using bl(2) unfolding tree_forest(1) by auto
  obtain used where F: "bl = used @ bl'" "set (concat (forest L' ?xs)) = set (concat (forest L ?xs)) \<union> set used"
    "forest_ok good L' ?xs" "\<forall>c. good c \<and> c \<notin> set (concat (forest L ?xs)) \<union> set bl \<longrightarrow> L' c = L c"
    "\<forall>j d' b' x. j < length ?xs \<and> j \<noteq> ?i \<and> ?xs ! j = (d', b') \<and> b' \<noteq> 0 \<longrightarrow> tree_get L' d' b' x = tree_get L d' b' x"
    by (rule forest_step [OF _ i nb1(2) bl(1) bl2 st]) (use T in blast)
  have nbl: "nb \<notin> set bl" using bl(2) unfolding tree_forest(1) by auto
  have root: "L' nb = L nb" using F(4) T nbl by blast
  have "tree_ok good L' (Suc n) nb" unfolding tree_forest(2) root using T F nbl by auto
  moreover have "set (tree_blocks L' (Suc n) nb) = set (tree_blocks L (Suc n) nb) \<union> set used"
    unfolding tree_forest(1) root using F(2) by auto
  moreover have "tree_get L' (Suc n) nb bn' = tree_get L (Suc n) nb bn'"
    if "bn' mod 256 ^ Suc n \<noteq> bn mod 256 ^ Suc n \<or> r = -1" for bn'
  proof (cases "tree_index n bn' = ?i")
    case True
    have "bn' mod 256 ^ n \<noteq> bn mod 256 ^ n \<or> r = -1" using that index_split [OF True] by blast
    then have "tree_get L' n nb1 bn' = tree_get L n nb1 bn'" using st by (auto simp: tree_step_def)
    then show ?thesis using True nb1 root by (simp add: tree_get_Suc)
  next
    case False
    then show ?thesis
      using F(5) [rule_format, of "tree_index n bn'" n "L nb ! tree_index n bn'" bn'] T root by (simp add: tree_get_Suc)
  qed
  moreover have "tree_get L' (Suc n) nb bn = tree_get L' n nb1 bn" "tree_get L (Suc n) nb bn = tree_get L n nb1 bn"
    using nb1 root by (simp_all add: tree_get_Suc)
  moreover have "\<forall>c. good c \<and> c \<notin> set (tree_blocks L (Suc n) nb) \<union> set bl \<longrightarrow> L' c = L c"
    using F(4) unfolding tree_forest(1) by auto
  ultimately show ?thesis
    using st F(1) unfolding tree_step_def by (simp del: tree_blocks.simps)
qed

text \<open>A fresh block entered in the table at \<open>nb\<close>.\<close>

lemma tree_new:
  assumes ok: "tree_ok good L (Suc n) nb" and b: "good b" "b \<noteq> 0" "b \<notin> set (tree_blocks L (Suc n) nb)"
    and z: "L nb ! i = 0" "i < 256"
    and L1: "L1 nb = (L nb)[i := b]" "L1 b = replicate 256 0" "\<forall>c. good c \<and> c \<noteq> nb \<and> c \<noteq> b \<longrightarrow> L1 c = L c"
  shows "tree_ok good L1 (Suc n) nb" "set (tree_blocks L1 (Suc n) nb) = insert b (set (tree_blocks L (Suc n) nb))"
    "tree_index n x \<noteq> i \<or> 0 < n \<Longrightarrow> tree_get L1 (Suc n) nb x = tree_get L (Suc n) nb x"
proof -
  let ?xs = "map (Pair n) (L nb)"
  note T = ok [unfolded tree_forest(2)]
  have fr: "n = 0 \<or> length (L1 b) = 256 \<and> (\<forall>w\<in>set (L1 b). w = 0)" by (simp add: L1(2))
  have same: "\<forall>c\<in>set (concat (forest L ?xs)). L1 c = L c"
  proof
    fix c assume c: "c \<in> set (concat (forest L ?xs))"
    then have "good c" "c \<noteq> nb" using T by (auto simp: forest_ok_def simp del: set_concat)
    moreover have "c \<noteq> b" using c b(3) unfolding tree_forest(1) by (auto simp del: set_concat)
    ultimately show "L1 c = L c" using L1(3) by blast
  qed
  have i: "i < length ?xs" "?xs ! i = (n, 0)" using T z by simp_all
  have bf: "b \<notin> set (concat (forest L ?xs))" "b \<noteq> nb" using b(3) unfolding tree_forest(1) by auto
  have F: "forest_ok good L1 (?xs[i := (n, b)])" "set (concat (forest L1 (?xs[i := (n, b)]))) = insert b (set (concat (forest L ?xs)))"
      "\<And>j d' b' x. j < length ?xs \<Longrightarrow> j \<noteq> i \<Longrightarrow> ?xs ! j = (d', b') \<Longrightarrow> b' \<noteq> 0 \<Longrightarrow> tree_get L1 d' b' x = tree_get L d' b' x"
    using forest_new [of good L ?xs i n b L1, OF _ i b(1,2) bf(1) fr same] T by blast+
  have xs: "map (Pair n) (L1 nb) = ?xs[i := (n, b)]" by (simp add: L1(1) map_update)
  show "set (tree_blocks L1 (Suc n) nb) = insert b (set (tree_blocks L (Suc n) nb))"
    unfolding tree_forest(1) xs using F(2) by auto
  show "tree_ok good L1 (Suc n) nb" unfolding tree_forest(2) xs using T F(1,2) bf L1(1) by auto
  show "tree_get L1 (Suc n) nb x = tree_get L (Suc n) nb x" if "tree_index n x \<noteq> i \<or> 0 < n"
  proof (cases "tree_index n x = i")
    case True
    with that z T L1(1) fresh_tree(3) [of n L1 b, OF fr, of x] b(2) show ?thesis by (simp add: tree_get_Suc)
  next
    case False
    with L1(1) F(3) [of "tree_index n x"] T show ?thesis by (simp add: tree_get_Suc)
  qed
qed

lemma tree_step_new:
  assumes ok: "tree_ok good L (Suc n) nb" and bl: "distinct (b # bl)" "\<forall>c\<in>set (b # bl). good c"
      "set (b # bl) \<inter> set (tree_blocks L (Suc n) nb) = {}" and z: "L nb ! tree_index n bn = 0" "\<not> good 0"
    and L1: "L1 nb = (L nb)[tree_index n bn := b]" "L1 b = replicate 256 0"
      "\<forall>c. good c \<and> c \<noteq> nb \<and> c \<noteq> b \<longrightarrow> L1 c = L c"
    and st: "tree_step good L1 L' bl bl' (Suc n) nb bn r"
  shows "tree_step good L L' (b # bl) bl' (Suc n) nb bn r"
proof -
  have b: "good b" "b \<noteq> 0" "b \<notin> set (tree_blocks L (Suc n) nb)" using bl(2,3) z(2) by auto
  note N = tree_new [OF ok b z(1) tree_index_less L1]
  have len: "length (L nb) = 256" using ok by (simp add: tree_ok_def)
  have get: "tree_get L (Suc n) nb bn = 0" using z(1) by (simp add: tree_get_Suc)
  have r0: "0 < n" if "r = -1"
  proof (rule ccontr)
    assume "\<not> 0 < n"
    then have "tree_get L1 (Suc n) nb bn = b" using L1(1) len b(2) by (simp add: tree_get_Suc)
    with that st b(2) show False by (simp add: tree_step_def)
  qed
  have "tree_get L1 (Suc n) nb x = tree_get L (Suc n) nb x" if "x mod 256 ^ Suc n \<noteq> bn mod 256 ^ Suc n \<or> r = -1" for x
  proof (cases "tree_index n x = tree_index n bn")
    case True
    then have "0 < n" using that r0 index_split [OF True] by (cases "n = 0") auto
    then show ?thesis using N(3) by blast
  next
    case False
    then show ?thesis using N(3) by blast
  qed
  moreover obtain used where "bl = used @ bl'" "set (tree_blocks L' (Suc n) nb) = set (tree_blocks L1 (Suc n) nb) \<union> set used"
    using st by (auto simp: tree_step_def)
  then have "b # bl = (b # used) @ bl'"
      "set (tree_blocks L' (Suc n) nb) = set (tree_blocks L (Suc n) nb) \<union> set (b # used)"
    using N(2) by (auto simp del: tree_blocks.simps)
  moreover have "L' c = L c" if "good c" "c \<notin> set (tree_blocks L (Suc n) nb) \<union> set (b # bl)" for c
  proof -
    have "L' c = L1 c" using st that N(2) by (auto simp: tree_step_def simp del: tree_blocks.simps)
    moreover have "c \<noteq> nb" "c \<noteq> b" using that by auto
    ultimately show ?thesis using L1(3) that(1) by simp
  qed
  ultimately show ?thesis
    using st get unfolding tree_step_def by (simp del: tree_blocks.simps)
qed

section \<open>Views that agree on the blocks of the file system\<close>

lemma tree_ok_cong:
  assumes "tree_ok good L n nb" "\<forall>c. good c \<longrightarrow> L' c = L c"
  shows "tree_ok good L' n nb" "tree_blocks L' n nb = tree_blocks L n nb" "tree_get L' n nb x = tree_get L n nb x"
  using tree_cong [of L n nb L' x] assms by (auto simp: tree_ok_def)

lemma tree_step_cong:
  assumes "tree_step good L1 L' bl bl' n nb bn r" "tree_ok good L n nb" "\<forall>c. good c \<longrightarrow> L1 c = L c"
  shows "tree_step good L L' bl bl' n nb bn r"
  using assms tree_ok_cong [OF assms(2,3)] by (simp add: tree_step_def)

lemma tree_step_fail:
  assumes "tree_ok good L n nb" "tree_get L n nb bn = 0" "\<forall>c. good c \<longrightarrow> L' c = L c"
  shows "tree_step good L L' bl bl n nb bn (-1)"
  using assms tree_ok_cong [OF assms(1,3)] by (simp add: tree_step_def)

lemma tree_step_found:
  assumes "tree_ok good L n nb" "tree_get L n nb bn \<noteq> 0" "sint (tree_get L n nb bn) \<noteq> -1" "\<forall>c. good c \<longrightarrow> L' c = L c"
  shows "tree_step good L L' bl bl n nb bn (sint (tree_get L n nb bn))"
  using assms tree_ok_cong [OF assms(1,4)] by (simp add: tree_step_def)

lemma tree_child:
  assumes "tree_ok good L (Suc n) nb" "i < 256" "L nb ! i \<noteq> 0"
  shows "tree_ok good L n (L nb ! i)" "set (tree_blocks L n (L nb ! i)) \<subseteq> set (tree_blocks L (Suc n) nb)"
proof -
  note T = assms(1) [unfolded tree_forest(2)]
  have i: "i < length (map (Pair n) (L nb))" "map (Pair n) (L nb) ! i = (n, L nb ! i)" using T assms(2) by simp_all
  show "tree_ok good L n (L nb ! i)" using forest_tree [OF _ i assms(3)] T by blast
  show "set (tree_blocks L n (L nb ! i)) \<subseteq> set (tree_blocks L (Suc n) nb)"
    unfolding tree_forest(1) using forest_part [OF i assms(3), of L] by auto
qed

end
