(* ===== verification/Ufs_File.thy ===== *)
theory Ufs_File
  imports Ufs_Tree
begin

text \<open>
  \<open>bmap\<close> on a file system in good order: it finds the block of a file, or adds one from the free
  list, without touching any other block of the file or of another file.
\<close>

section \<open>States between calls\<close>

lemma fs_ok_same:
  assumes "fs_ok okd blk K bl s" "u_fs s' = u_fs s" "u_dev s' = u_dev s" "cache_ok okd blk K (u_bio s')"
    "\<forall>c\<in>set bl. fs_view blk s' c = fs_view blk s c"
  shows "fs_ok okd blk K bl s'"
proof -
  have "free_list (fs_view blk s') (u_fs s) bl"
    by (rule free_list_cong [of "fs_view blk s"]) (use assms(1,5) in \<open>simp_all add: fs_ok_def\<close>)
  then show ?thesis using assms(1-4) by (simp add: fs_ok_def)
qed

definition fs_idle ::
    "('d \<Rightarrow> bool) \<Rightarrow> ('d \<Rightarrow> int \<times> int \<Rightarrow> u32 list) \<Rightarrow> (int \<times> int) set \<Rightarrow> u32 list \<Rightarrow> 'd ufs \<Rightarrow> bool" where
  "fs_idle okd blk K bl s \<longleftrightarrow> fs_ok okd blk K bl s \<and> idle (u_bio s) \<and> 2 \<le> length (bufs (u_bio s))"

lemma fs_idle_avail: "fs_idle okd blk K bl s \<Longrightarrow> available (u_bio s) k"
  by (rule idle_available) (auto simp: fs_idle_def)

text \<open>Only buffer \<open>k\<close> is in use; it belongs to block \<open>nb\<close>.\<close>

definition holding :: "nat \<Rightarrow> u32 \<Rightarrow> 'd ufs \<Rightarrow> bool" where
  "holding k nb s \<longleftrightarrow> k < length (bufs (u_bio s)) \<and> (\<forall>j<length (bufs (u_bio s)). busy (u_bio s) j \<longleftrightarrow> j = k) \<and>
     tracked (bufs (u_bio s) ! k) \<and> bkey (bufs (u_bio s) ! k) = (u_dev s, sint nb) \<and> 2 \<le> length (bufs (u_bio s))"

text \<open>The same file system: the device and the range of its blocks.\<close>

definition same_fs :: "'d ufs \<Rightarrow> 'd ufs \<Rightarrow> bool" where
  "same_fs s s' \<longleftrightarrow> u_dev s' = u_dev s \<and> fs_good (u_fs s') = fs_good (u_fs s)"

lemma same_fs_simps [simp]: "same_fs s s"
  by (simp add: same_fs_def)

lemma same_fs_trans: "same_fs s t \<Longrightarrow> same_fs t u \<Longrightarrow> same_fs s u"
  by (simp add: same_fs_def)

lemma fs_okD:
  assumes "fs_ok okd blk K bl s"
  shows "cache_ok okd blk K (u_bio s)" "distinct bl" "(u_dev s, SUPERB) \<in> K" "\<not> fs_good (u_fs s) 0"
    "\<And>b. fs_good (u_fs s) b \<Longrightarrow> (u_dev s, sint b) \<in> K" "\<And>b. b \<in> set bl \<Longrightarrow> fs_good (u_fs s) b"
    "\<And>b c. sint b = sint (c :: u32) \<longleftrightarrow> b = c"
  using assms free_list_good [of "fs_view blk s" "u_fs s" bl]
  by (auto simp: fs_ok_def fs_good_def badblock_def word_neq_0_conv signed_word_eqI)

context blockdev
begin

lemma write_held_ok:
  assumes "cache_ok okd blk K s" "i < length (bufs s)" "busy s i" "tracked (bufs s ! i)"
  shows "\<exists>s'. (if now then bwrite else bdwrite) st i s = (Inr (), s') \<and> cache_ok okd blk K s' \<and> released i s s' \<and>
     (\<forall>k\<in>K. bview blk s' k = (if k = bkey (bufs s ! i) then b_data (bufs s ! i) else bview blk s k))"
proof (cases now)
  case True
  from bwrite_ok [OF assms empty_subsetI] obtain s' where "bwrite st i (setf i {} s) = (Inr (), s')" "cache_ok okd blk K s'"
      "released i s s'" "\<forall>k\<in>K. bview blk s' k = (if k = bkey (bufs s ! i) then b_data (bufs s ! i) else bview blk s k)"
    by blast
  with True show ?thesis by simp
next
  case False
  with bdwrite_ok [OF assms] show ?thesis by auto
qed

text \<open>Reading a block: the caller holds its buffer, and may give it back unchanged.\<close>

lemma fs_release_held:
  assumes ok: "fs_ok okd blk K bl s" and h: "holding k nb s" and t: "fs_good (u_fs s) nb" "b_data (bufs (u_bio s) ! k) = fs_view blk s nb"
  shows "fs_idle okd blk K bl (s\<lparr>u_bio := brelse k (u_bio s)\<rparr>)"
    "\<forall>c. fs_good (u_fs s) c \<longrightarrow> fs_view blk (s\<lparr>u_bio := brelse k (u_bio s)\<rparr>) c = fs_view blk s c"
proof -
  note D = fs_okD [OF ok] and H = h [unfolded holding_def]
  have k: "k < length (bufs (u_bio s))" "busy (u_bio s) k" "tracked (bufs (u_bio s) ! k)" using H by blast+
  have "clean_copy blk (bdevs (u_bio s)) (bufs (u_bio s) ! k)"
    using t H bview_tracked [OF D(1) k(1,3)] by (auto simp: clean_copy_def fs_view_def)
  note B = brelse_ok [OF D(1) k(1,2) this]
  have v: "fs_view blk (s\<lparr>u_bio := brelse k (u_bio s)\<rparr>) c = fs_view blk s c" if "fs_good (u_fs s) c" for c
    using B(2) D(5) [OF that] by (simp add: fs_view_def)
  then show "\<forall>c. fs_good (u_fs s) c \<longrightarrow> fs_view blk (s\<lparr>u_bio := brelse k (u_bio s)\<rparr>) c = fs_view blk s c" by blast
  have "fs_ok okd blk K bl (s\<lparr>u_bio := brelse k (u_bio s)\<rparr>)"
    by (rule fs_ok_same [OF ok]) (use B(1) v D(6) in simp_all)
  moreover have "idle (brelse k (u_bio s))" "2 \<le> length (bufs (brelse k (u_bio s)))"
    using B(3) H by (auto simp: released_def idle_def busy_def)
  ultimately show "fs_idle okd blk K bl (s\<lparr>u_bio := brelse k (u_bio s)\<rparr>)"
    by (simp add: fs_idle_def)
qed

lemma fs_read:
  assumes id: "fs_idle okd blk K bl s" and g: "fs_good (u_fs s) b"
  obtains k s1 where "bio (bread st (u_dev s) (sint b)) s = (Inr k, s1)" "fs_ok okd blk K bl s1" "holding k b s1"
    "b_data (bufs (u_bio s1) ! k) = fs_view blk s b" "B_ERROR \<notin> b_flags (bufs (u_bio s1) ! k)" "b_resid (bufs (u_bio s1) ! k) = 0"
    "u_fs s1 = u_fs s" "u_dev s1 = u_dev s" "\<forall>c. fs_good (u_fs s) c \<longrightarrow> fs_view blk s1 c = fs_view blk s c"
proof -
  note ok = id [unfolded fs_idle_def, THEN conjunct1]
  note D = fs_okD [OF ok]
  obtain k c1 where r: "bread st (u_dev s) (sint b) (u_bio s) = (Inr k, c1)"
      "grabbed okd blk K k (u_dev s, sint b) (u_bio s) c1" "b_data (bufs c1 ! k) = bview blk (u_bio s) (u_dev s, sint b)"
      "buf_ok K (bufs c1 ! k)"
    using read_and_release [OF D(1) D(5) [OF g] fs_idle_avail [OF id]] by auto
  define s1 where "s1 = s\<lparr>u_bio := c1\<rparr>"
  have v: "fs_view blk s1 c = fs_view blk s c" if "fs_good (u_fs s) c" for c
    using r(2) D(5) [OF that] by (simp add: fs_view_def s1_def grabbed_def)
  have "fs_ok okd blk K bl s1"
    by (rule fs_ok_same [OF ok]) (use r(2) v D(6) in \<open>simp_all add: s1_def grabbed_def\<close>)
  moreover have "holding k b s1"
    using r(2) id by (auto simp: holding_def s1_def grabbed_def held_kept_def fs_idle_def idle_def)
  ultimately show thesis
    using r v by (intro that [of k s1]) (simp_all add: s1_def bio_def fs_view_def buf_ok_def)
qed

text \<open>A new block, cleared and written while the caller may hold a table.\<close>

lemma fs_new_block:
  assumes ok: "fs_ok okd blk K (b # bl) s" and av: "fs_avail (b # bl) s"
  obtains m s2 s3 where "balloc st clr s = (Inr (Some m), s2)" "word_of_int (b_blkno (bufs (u_bio s2) ! m)) = b"
    "bio ((if now s2 then bwrite else bdwrite) st m) s2 = (Inr (), s3)" "fs_ok okd blk K bl s3" "same_fs s s3"
    "same_holds (u_bio s) (u_bio s3)" "clr \<longrightarrow> fs_view blk s3 b = replicate 256 0"
    "\<forall>c. fs_good (u_fs s) c \<longrightarrow> c \<noteq> b \<longrightarrow> fs_view blk s3 c = fs_view blk s c"
proof -
  note D = fs_okD [OF ok]
  from balloc_takes [OF ok av, of clr] obtain m s2 where r: "balloc st clr s = (Inr (Some m), s2)" "fs_ok okd blk K bl s2"
     "u_dev s2 = u_dev s" "fs_good (u_fs s2) = fs_good (u_fs s)" "m < length (bufs (u_bio s))" "\<not> busy (u_bio s) m"
     "held_kept (u_bio s) (u_bio s2)" "\<forall>j<length (bufs (u_bio s)). busy (u_bio s2) j \<longleftrightarrow> j = m \<or> busy (u_bio s) j"
     "tracked (bufs (u_bio s2) ! m)" "bkey (bufs (u_bio s2) ! m) = (u_dev s, sint b)"
     "\<forall>k\<in>K. k \<noteq> (u_dev s, SUPERB) \<longrightarrow> k \<noteq> (u_dev s, sint b) \<longrightarrow> bview blk (u_bio s2) k = bview blk (u_bio s) k"
     "clr \<longrightarrow> b_data (bufs (u_bio s2) ! m) = replicate 256 0"
    by (elim exE conjE) (rule that)
  have h: "cache_ok okd blk K (u_bio s2)" "m < length (bufs (u_bio s2))" "busy (u_bio s2) m"
    using r(2,5,7,8) by (simp_all add: fs_ok_def held_kept_def)
  obtain c3 where w: "(if now s2 then bwrite else bdwrite) st m (u_bio s2) = (Inr (), c3)" "cache_ok okd blk K c3" "released m (u_bio s2) c3"
      "\<forall>k\<in>K. bview blk c3 k = (if k = (u_dev s, sint b) then b_data (bufs (u_bio s2) ! m) else bview blk (u_bio s2) k)"
    using write_held_ok [OF h r(9), of "now s2"] r(10) by auto
  define s3 where "s3 = s2\<lparr>u_bio := c3\<rparr>"
  have gb: "fs_good (u_fs s) b" using D(6) by simp
  have v3: "fs_view blk s3 c = (if c = b then b_data (bufs (u_bio s2) ! m) else fs_view blk s2 c)" if "fs_good (u_fs s) c" for c
    using w(4) D(5) [OF that] D(7) r(3) by (auto simp: fs_view_def s3_def)
  have v2: "fs_view blk s2 c = fs_view blk s c" if "fs_good (u_fs s) c" "c \<noteq> b" for c
  proof -
    have "c \<noteq> 0" using that(1) D(4) by auto
    then have "(u_dev s, sint c) \<noteq> (u_dev s, SUPERB)" "(u_dev s, sint c) \<noteq> (u_dev s, sint b)"
      using D(7) that(2) by (simp_all add: sint_eq_0)
    then show ?thesis using r(3,11) D(5) [OF that(1)] by (simp add: fs_view_def)
  qed
  have "fs_ok okd blk K bl s3"
    by (rule fs_ok_same [OF r(2)]) (use w(2) v3 D(2,6) in \<open>auto simp: s3_def\<close>)
  moreover have "same_holds (u_bio s) c3"
    using r(5-8) w(3) unfolding same_holds_def released_def held_kept_def busy_def by metis
  moreover have "word_of_int (b_blkno (bufs (u_bio s2) ! m)) = b" using r(10) by (simp add: bkey_def)
  ultimately show thesis
    using r(1,3,4,12) w(1) v2 v3 gb by (intro that [of m s2 s3]) (simp_all add: s3_def bio_def same_fs_def)
qed

lemma holding_avail:
  assumes "holding k nb s" "nb \<noteq> 0" "nb \<notin> set bl"
  shows "fs_avail bl s"
proof -
  note H = assms(1) [unfolded holding_def]
  have "\<exists>j<length (bufs (u_bio s)). j \<noteq> k"
    using H by (cases "k = 0") (auto intro: exI [of _ 0] exI [of _ 1])
  then have "\<exists>j<length (bufs (u_bio s)). \<not> busy (u_bio s) j" using H by blast
  then have av: "available (u_bio s) (u_dev s, sint c)" if "c \<noteq> nb" for c
    unfolding available_def using H that by (auto dest: signed_word_eqI)
  have "c \<noteq> nb" if "c \<in> set bl" for c using assms(3) that by blast
  then show ?thesis using av [of 0] av assms(2) by (simp add: fs_avail_def)
qed

lemma holding_same:
  assumes "holding k nb s" "same_holds (u_bio s) (u_bio s')" "u_dev s' = u_dev s"
  shows "holding k nb s'" "bufs (u_bio s') ! k = bufs (u_bio s) ! k"
  using assms by (auto simp: holding_def same_holds_def held_kept_def)

text \<open>Entering a number in the table that the caller holds.\<close>

lemma fs_enter_held:
  assumes ok: "fs_ok okd blk K bl s" and h: "holding k nb s" and t: "nb \<notin> set bl" "fs_good (u_fs s) nb"
  obtains s' where "bio (\<lambda>c. bdwrite st k (updbuf k (\<lambda>b. b\<lparr>b_data := (b_data b)[i := x]\<rparr>) c)) s = (Inr (), s')"
    "fs_idle okd blk K bl s'" "same_fs s s'"
    "\<forall>c. fs_good (u_fs s) c \<longrightarrow> fs_view blk s' c = (if c = nb then (b_data (bufs (u_bio s) ! k))[i := x] else fs_view blk s c)"
proof -
  note D = fs_okD [OF ok] and H = h [unfolded holding_def]
  have k: "k < length (bufs (u_bio s))" "busy (u_bio s) k" "tracked (bufs (u_bio s) ! k)" using H by blast+
  define d where "d = (b_data (bufs (u_bio s) ! k))[i := x]"
  obtain c' where w: "put_buf st Delayed k d (u_bio s) = (Inr (), c')" "cache_ok okd blk K c'" "released k (u_bio s) c'"
     "\<forall>k'\<in>K. bview blk c' k' = (if k' = (u_dev s, sint nb) then d else bview blk (u_bio s) k')"
    using put_buf_ok [OF D(1) k, of Delayed d] H by auto
  define s' where "s' = s\<lparr>u_bio := c'\<rparr>"
  have v: "fs_view blk s' c = (if c = nb then d else fs_view blk s c)" if "fs_good (u_fs s) c" for c
    using w(4) D(5) [OF that] D(7) by (auto simp: fs_view_def s'_def)
  have "fs_ok okd blk K bl s'"
    by (rule fs_ok_same [OF ok]) (use w(2) v D(6) t(1) in \<open>auto simp: s'_def\<close>)
  moreover have "idle c'" "2 \<le> length (bufs c')" using w(3) H by (auto simp: released_def idle_def busy_def)
  moreover have "updbuf k (\<lambda>b. b\<lparr>b_data := (b_data b)[i := x]\<rparr>) (u_bio s) = updbuf k (\<lambda>b. b\<lparr>b_data := d\<rparr>) (u_bio s)"
    by (simp add: updbuf_def d_def)
  ultimately show thesis
    using w(1) v by (intro that [of s']) (simp_all add: s'_def bio_def fs_idle_def same_fs_def put_buf_def d_def)
qed

end

lemma good_not_minus_1: "fs_good f b \<Longrightarrow> sint b \<noteq> -1"
proof
  assume g: "fs_good f b" and "sint b = -1"
  then have "b = -1" using signed_word_eqI [of b "-1"] by simp
  with g show False by (simp add: fs_good_def badblock_def word_order.extremum)
qed

lemma bu_error_frame [simp]:
  "bu_error (updbuf i g c) = bu_error c" "bu_error (bwakeup ch c) = bu_error c" "bu_error (clrf i m c) = bu_error c"
  "bu_error (binsheadfree i q c) = bu_error c" "bu_error (binstailfree i q c) = bu_error c"
  by (simp_all add: updbuf_def bwakeup_def clrf_def binsheadfree_def binstailfree_def)

lemma bu_error_brelse [simp]: "bu_error (brelse k c) = bu_error c"
proof -
  define s1 where "s1 = (if B_WANTED \<in> b_flags (bufs c ! k) then bwakeup (BufChan k) c else c)"
  define s2 where "s2 = (if free_wanted s1 then bwakeup FreeChan (s1\<lparr>free_wanted := False\<rparr>) else s1)"
  define s3 where "s3 = (if B_ERROR \<in> b_flags (bufs s2 ! k)
                then if B_LOCKED \<in> b_flags (bufs s2 ! k) then clrf k {B_ERROR} s2
                     else updbuf k (\<lambda>b. b\<lparr>b_dev := NODEV\<rparr>) s2
                else s2)"
  have e: "bu_error s1 = bu_error c" "bu_error s2 = bu_error s1" "bu_error s3 = bu_error s2"
    by (simp_all add: s1_def s2_def s3_def)
  have "brelse k c = (let fl = b_flags (bufs s3 ! k);
          s4 = (if B_ERROR \<in> fl \<or> B_INVAL \<in> fl then binsheadfree k BQ_AGE s3
                else binstailfree k (if B_LOCKED \<in> fl then BQ_LOCKED
                                     else if B_AGE \<in> fl then BQ_AGE else BQ_LRU) s3) in
      clrf k {B_WANTED, B_BUSY, B_ASYNC, B_AGE} s4)"
    unfolding brelse_def s3_def s2_def s1_def Let_def by (rule refl)
  then show ?thesis using e by (simp add: Let_def)
qed

text \<open>What the walk promises, for the table at \<open>nb\<close>.\<close>

definition walk_ok ::
    "('d \<Rightarrow> bool) \<Rightarrow> ('d \<Rightarrow> int \<times> int \<Rightarrow> u32 list) \<Rightarrow> (int \<times> int) set \<Rightarrow> bool \<Rightarrow> u32 list \<Rightarrow> 'd ufs \<Rightarrow> nat \<Rightarrow> u32 \<Rightarrow> int \<Rightarrow>
     (int, 'd) ures \<Rightarrow> bool" where
  "walk_ok okd blk K wr bl s n nb bn w \<longleftrightarrow> (\<exists>r s' bl'. w = (Inr r, s') \<and> fs_idle okd blk K bl' s' \<and> same_fs s s' \<and>
    tree_step (fs_good (u_fs s)) (fs_view blk s) (fs_view blk s') bl bl' n nb bn r \<and>
    (wr \<and> r = -1 \<longrightarrow> bl' = [] \<and> bu_error (u_bio s') = ENOSPC) \<and>
    (\<not> wr \<longrightarrow> bl' = bl \<and> (\<forall>c. fs_good (u_fs s) c \<longrightarrow> fs_view blk s' c = fs_view blk s c)))"

context blockdev
begin

lemma walk_no_space:
  assumes ok: "fs_ok okd blk K [] s1" and h: "holding k nb s1" and g: "fs_good (u_fs s1) nb"
    and d: "b_data (bufs (u_bio s1) ! k) = fs_view blk s1 nb"
  obtains s2 s3 where "balloc st True s1 = (Inr None, s2)" "s3 = s2\<lparr>u_bio := brelse k (u_bio s2)\<rparr>" "fs_idle okd blk K [] s3"
    "bu_error (u_bio s3) = ENOSPC" "same_fs s1 s3" "\<forall>c. fs_good (u_fs s1) c \<longrightarrow> fs_view blk s3 c = fs_view blk s1 c"
proof -
  note D = fs_okD [OF ok]
  obtain s2 where F: "balloc st True s1 = (Inr None, s2)" "fs_ok okd blk K [] s2" "bu_error (u_bio s2) = ENOSPC"
      "fs_good (u_fs s2) = fs_good (u_fs s1)" "u_dev s2 = u_dev s1" "same_holds (u_bio s1) (u_bio s2)"
      "\<forall>k\<in>K. bview blk (u_bio s2) k = bview blk (u_bio s1) k"
    using balloc_full [OF ok, of True] by (elim exE conjE) (rule that)
  have v2: "\<forall>c. fs_good (u_fs s1) c \<longrightarrow> fs_view blk s2 c = fs_view blk s1 c"
    using F(5,7) D(5) by (simp add: fs_view_def)
  note h2 = holding_same [OF h F(6,5)]
  have "fs_good (u_fs s2) nb" "b_data (bufs (u_bio s2) ! k) = fs_view blk s2 nb"
    using F(4) g d v2 h2(2) by simp_all
  from fs_release_held [OF F(2) h2(1) this] show thesis
    using F(1,3-5) v2 by (intro that [of s2]) (simp_all add: same_fs_def)
qed

lemma walk_new_block:
  assumes ok: "fs_ok okd blk K (b # bl) s1" and h: "holding k nb s1" and g: "fs_good (u_fs s1) nb" "nb \<notin> set (b # bl)"
  obtains m s2 s3 s4 where "balloc st True s1 = (Inr (Some m), s2)" "word_of_int (b_blkno (bufs (u_bio s2) ! m)) = b"
    "bio ((if now s2 then bwrite else bdwrite) st m) s2 = (Inr (), s3)"
    "bio (\<lambda>c. bdwrite st k (updbuf k (\<lambda>x. x\<lparr>b_data := (b_data x)[i := b]\<rparr>) c)) s3 = (Inr (), s4)"
    "fs_idle okd blk K bl s4" "same_fs s1 s4" "fs_view blk s4 nb = (b_data (bufs (u_bio s1) ! k))[i := b]"
    "fs_view blk s4 b = replicate 256 0"
    "\<forall>c. fs_good (u_fs s1) c \<and> c \<noteq> nb \<and> c \<noteq> b \<longrightarrow> fs_view blk s4 c = fs_view blk s1 c"
proof -
  note D = fs_okD [OF ok]
  have av: "fs_avail (b # bl) s1" by (rule holding_avail [OF h _ g(2)]) (use g(1) D(4) in auto)
  obtain m s2 s3 where A: "balloc st True s1 = (Inr (Some m), s2)" "word_of_int (b_blkno (bufs (u_bio s2) ! m)) = b"
    "bio ((if now s2 then bwrite else bdwrite) st m) s2 = (Inr (), s3)" "fs_ok okd blk K bl s3" "same_fs s1 s3"
    "same_holds (u_bio s1) (u_bio s3)" "True \<longrightarrow> fs_view blk s3 b = replicate 256 0"
    "\<forall>c. fs_good (u_fs s1) c \<longrightarrow> c \<noteq> b \<longrightarrow> fs_view blk s3 c = fs_view blk s1 c"
    by (rule fs_new_block [OF ok av])
  have "u_dev s3 = u_dev s1" using A(5) by (simp add: same_fs_def)
  note h3 = holding_same [OF h A(6) this]
  have g3: "fs_good (u_fs s3) = fs_good (u_fs s1)" using A(5) by (simp add: same_fs_def)
  have "nb \<notin> set bl" "fs_good (u_fs s3) nb" using g g3 by simp_all
  then obtain s4 where E: "bio (\<lambda>c. bdwrite st k (updbuf k (\<lambda>x. x\<lparr>b_data := (b_data x)[i := b]\<rparr>) c)) s3 = (Inr (), s4)"
    "fs_idle okd blk K bl s4" "same_fs s3 s4"
    "\<forall>c. fs_good (u_fs s3) c \<longrightarrow> fs_view blk s4 c = (if c = nb then (b_data (bufs (u_bio s3) ! k))[i := b] else fs_view blk s3 c)"
    by (rule fs_enter_held [OF A(4) h3(1)])
  have "fs_good (u_fs s1) b" "b \<noteq> nb" using D(6) g(2) by auto
  with E(4) A(7,8) g(1) g3 h3(2)
  have "fs_view blk s4 nb = (b_data (bufs (u_bio s1) ! k))[i := b]" "fs_view blk s4 b = replicate 256 0"
    "\<forall>c. fs_good (u_fs s1) c \<and> c \<noteq> nb \<and> c \<noteq> b \<longrightarrow> fs_view blk s4 c = fs_view blk s1 c" by simp_all
  with A(1-3) E(1,2) same_fs_trans [OF A(5) E(3)] show thesis by (intro that)
qed

lemma bmap_walk_ok:
  assumes "fs_idle okd blk K bl s" "tree_ok (fs_good (u_fs s)) (fs_view blk s) n nb"
    "set bl \<inter> set (tree_blocks (fs_view blk s) n nb) = {}"
  shows "walk_ok okd blk K wr bl s n nb bn (bmap_walk st wr sync bn n nb ra s)"
  using assms
proof (induction n arbitrary: nb ra s bl)
  case 0
  have g: "fs_good (u_fs s) nb" using "0.prems"(2) by (simp add: tree_ok_def)
  then have "nb \<noteq> 0" using fs_okD(4) [of okd blk K bl s] "0.prems"(1) by (auto simp: fs_idle_def)
  moreover have v: "fs_view blk (s\<lparr>u_rablock := ra\<rparr>) = fs_view blk s" by (simp add: fs_view_def fun_eq_iff)
  ultimately have "tree_step (fs_good (u_fs s)) (fs_view blk s) (fs_view blk (s\<lparr>u_rablock := ra\<rparr>)) bl bl 0 nb bn (sint nb)"
    using tree_step_found [OF "0.prems"(2), of bn] good_not_minus_1 [OF g] by simp
  moreover have "fs_idle okd blk K bl (s\<lparr>u_rablock := ra\<rparr>)" using "0.prems"(1) v by (simp add: fs_idle_def fs_ok_def)
  ultimately show ?case
    using good_not_minus_1 [OF g] v unfolding walk_ok_def
    by (intro exI [of _ "sint nb"] exI [of _ "s\<lparr>u_rablock := ra\<rparr>"] exI [of _ bl]) (simp add: same_fs_def)
next
  case (Suc n)
  let ?g = "fs_good (u_fs s)" and ?L = "fs_view blk s" and ?i = "tree_index n bn"
  note ok = Suc.prems(1) [unfolded fs_idle_def, THEN conjunct1] and T = Suc.prems(2)
  note D = fs_okD [OF ok]
  have gnb: "?g nb" and len: "length (?L nb) = 256" using T by (simp_all add: tree_forest(2))
  have bg: "\<forall>b\<in>set bl. ?g b" using D(6) by blast
  obtain k s1 where R: "bio (bread st (u_dev s) (sint nb)) s = (Inr k, s1)" "fs_ok okd blk K bl s1" "holding k nb s1"
    "b_data (bufs (u_bio s1) ! k) = ?L nb" "B_ERROR \<notin> b_flags (bufs (u_bio s1) ! k)" "b_resid (bufs (u_bio s1) ! k) = 0"
    "u_fs s1 = u_fs s" "u_dev s1 = u_dev s" "\<forall>c. ?g c \<longrightarrow> fs_view blk s1 c = ?L c"
    by (rule fs_read [OF Suc.prems(1) gnb])
  have h1: "fs_good (u_fs s1) nb" "b_data (bufs (u_bio s1) ! k) = fs_view blk s1 nb" using gnb R(4,7,9) by simp_all
  have sf1: "same_fs s s1" using R(7,8) by (simp add: same_fs_def)
  define t where "t = s1\<lparr>u_bio := brelse k (u_bio s1)\<rparr>"
  have t: "fs_idle okd blk K bl t" "u_fs t = u_fs s" "same_fs s t" "\<forall>c. ?g c \<longrightarrow> fs_view blk t c = ?L c"
    using fs_release_held [OF R(2,3) h1] R(7-9) by (simp_all add: t_def same_fs_def)
  define ra1 where "ra1 = (if ?i < NINDIR - 1 then ?L nb ! (?i + 1) else ra)"
  have walk: "bmap_walk st wr sync bn (Suc n) nb ra s =
     (if ?L nb ! ?i \<noteq> 0 then bmap_walk st wr sync bn n (?L nb ! ?i) ra1 t
      else if \<not> wr then (Inr (-1), t)
      else ubind (balloc st True s1) (\<lambda>r s2.
         case r of
           None \<Rightarrow> (Inr (-1), s2\<lparr>u_bio := brelse k (u_bio s2)\<rparr>)
         | Some m \<Rightarrow>
             let nb2 = word_of_int (b_blkno (bufs (u_bio s2) ! m)) in
             ubind (bio ((if \<not> MNT_ASYNC (u_fs s2) \<and> (0 < n \<or> sync) then bwrite else bdwrite) st m) s2) (\<lambda>_ s3.
               ubind (bio (\<lambda>c. bdwrite st k (updbuf k (\<lambda>b. b\<lparr>b_data := (b_data b)[?i := nb2]\<rparr>) c)) s3) (\<lambda>_ s4.
                 bmap_walk st wr sync bn n nb2 ra1 s4))))"
    unfolding bmap_walk.simps R(1) ubind_simps Let_def tree_index_def [symmetric] R(4) t_def [symmetric] ra1_def [symmetric]
    using R(5,6) by (simp only: simp_thms if_False)
  consider (down) "?L nb ! ?i \<noteq> 0" | (hole) "?L nb ! ?i = 0" "\<not> wr" | (full) "?L nb ! ?i = 0" wr "bl = []"
    | (new) b bl1 where "?L nb ! ?i = 0" wr "bl = b # bl1" by (cases bl) auto
  then show ?case
  proof cases
    case down
    note C = tree_child [OF T tree_index_less down]
    note Ct = tree_ok_cong [OF C(1) t(4)]
    have "set bl \<inter> set (tree_blocks (fs_view blk t) n (?L nb ! ?i)) = {}"
      unfolding Ct(2) using C(2) Suc.prems(3) by blast
    from Suc.IH [OF t(1) Ct(1) [folded t(2)] this, of ra1]
    obtain r s' bl' where H: "bmap_walk st wr sync bn n (?L nb ! ?i) ra1 t = (Inr r, s')" "fs_idle okd blk K bl' s'" "same_fs t s'"
        "tree_step ?g (fs_view blk t) (fs_view blk s') bl bl' n (?L nb ! ?i) bn r"
        "wr \<and> r = -1 \<longrightarrow> bl' = [] \<and> bu_error (u_bio s') = ENOSPC"
        "\<not> wr \<longrightarrow> bl' = bl \<and> (\<forall>c. ?g c \<longrightarrow> fs_view blk s' c = fs_view blk t c)"
      unfolding walk_ok_def t(2) by (elim exE conjE) (rule that)
    have "tree_step ?g ?L (fs_view blk s') bl bl' (Suc n) nb bn r"
      by (rule tree_step_descend [OF T bg Suc.prems(3) refl down tree_step_cong [OF H(4) C(1) t(4)]])
    moreover have "bmap_walk st wr sync bn (Suc n) nb ra s = (Inr r, s')" unfolding walk using down H(1) by simp
    moreover have "\<not> wr \<longrightarrow> bl' = bl \<and> (\<forall>c. ?g c \<longrightarrow> fs_view blk s' c = ?L c)" using H(6) t(4) by simp
    ultimately show ?thesis using H(2,5) same_fs_trans [OF t(3) H(3)] unfolding walk_ok_def by blast
  next
    case hole
    have "tree_step ?g ?L (fs_view blk t) bl bl (Suc n) nb bn (-1)"
      by (rule tree_step_fail [OF T _ t(4)]) (simp add: tree_get_Suc hole)
    moreover have "bmap_walk st wr sync bn (Suc n) nb ra s = (Inr (-1), t)" unfolding walk using hole by simp
    ultimately show ?thesis using hole(2) t unfolding walk_ok_def by blast
  next
    case full
    obtain s2 s3 where F: "balloc st True s1 = (Inr None, s2)" "s3 = s2\<lparr>u_bio := brelse k (u_bio s2)\<rparr>" "fs_idle okd blk K [] s3"
        "bu_error (u_bio s3) = ENOSPC" "same_fs s1 s3" "\<forall>c. fs_good (u_fs s1) c \<longrightarrow> fs_view blk s3 c = fs_view blk s1 c"
      by (rule walk_no_space [OF R(2) [unfolded full(3)] R(3) h1])
    have "\<forall>c. ?g c \<longrightarrow> fs_view blk s3 c = ?L c" using F(6) R(7,9) by simp
    then have "tree_step ?g ?L (fs_view blk s3) [] [] (Suc n) nb bn (-1)"
      by (intro tree_step_fail T) (simp_all add: tree_get_Suc full(1))
    moreover have "bmap_walk st wr sync bn (Suc n) nb ra s = (Inr (-1), s3)" unfolding walk using full F(1,2) by simp
    ultimately show ?thesis using full(2,3) F(3,4) same_fs_trans [OF sf1 F(5)] unfolding walk_ok_def by blast
  next
    case new
    have nb: "nb \<notin> set (b # bl1)" using Suc.prems(3) tree_root [of nb ?L "Suc n"] new(3) by blast
    obtain m s2 s3 s4 where A: "balloc st True s1 = (Inr (Some m), s2)" "word_of_int (b_blkno (bufs (u_bio s2) ! m)) = b"
        "bio ((if \<not> MNT_ASYNC (u_fs s2) \<and> (0 < n \<or> sync) then bwrite else bdwrite) st m) s2 = (Inr (), s3)"
        "bio (\<lambda>c. bdwrite st k (updbuf k (\<lambda>x. x\<lparr>b_data := (b_data x)[?i := b]\<rparr>) c)) s3 = (Inr (), s4)"
        "fs_idle okd blk K bl1 s4" "same_fs s1 s4" "fs_view blk s4 nb = (b_data (bufs (u_bio s1) ! k))[?i := b]"
        "fs_view blk s4 b = replicate 256 0"
        "\<forall>c. fs_good (u_fs s1) c \<and> c \<noteq> nb \<and> c \<noteq> b \<longrightarrow> fs_view blk s4 c = fs_view blk s1 c"
      by (rule walk_new_block [OF R(2) [unfolded new(3)] R(3) h1(1) nb, of "\<lambda>s. \<not> MNT_ASYNC (u_fs s) \<and> (0 < n \<or> sync)"])
    have L4: "fs_view blk s4 nb = (?L nb)[?i := b]" "\<forall>c. ?g c \<and> c \<noteq> nb \<and> c \<noteq> b \<longrightarrow> fs_view blk s4 c = ?L c"
      using A(7,9) R(4,7,9) by simp_all
    have bd: "distinct (b # bl1)" "\<forall>c\<in>set (b # bl1). ?g c" "set (b # bl1) \<inter> set (tree_blocks ?L (Suc n) nb) = {}"
      using D(2) bg new(3) Suc.prems(3) by simp_all
    then have b: "?g b" "b \<noteq> 0" "b \<notin> set (tree_blocks ?L (Suc n) nb)" using D(4) by auto
    note N = tree_new [OF T b new(1) tree_index_less L4(1) A(8) L4(2)]
    have sf4: "same_fs s s4" by (rule same_fs_trans [OF sf1 A(6)])
    then have g4: "fs_good (u_fs s4) = ?g" by (simp add: same_fs_def)
    have fr: "n = 0 \<or> length (fs_view blk s4 b) = 256 \<and> (\<forall>w\<in>set (fs_view blk s4 b). w = 0)" by (simp add: A(8))
    have o4: "tree_ok ?g (fs_view blk s4) n b" by (rule fresh_tree(4)) (use fr b(1) in blast)+
    have d4: "set bl1 \<inter> set (tree_blocks (fs_view blk s4) n b) = {}"
      using fresh_tree(1) [of n "fs_view blk s4" b] fr bd(1) by simp
    obtain r s' bl' where H: "bmap_walk st wr sync bn n b ra1 s4 = (Inr r, s')" "fs_idle okd blk K bl' s'" "same_fs s4 s'"
        "tree_step ?g (fs_view blk s4) (fs_view blk s') bl1 bl' n b bn r" "wr \<and> r = -1 \<longrightarrow> bl' = [] \<and> bu_error (u_bio s') = ENOSPC"
      using Suc.IH [OF A(5), of b ra1, unfolded g4, OF o4 d4] unfolding walk_ok_def g4 by (elim exE conjE) (rule that)
    have ts: "tree_step ?g (fs_view blk s4) (fs_view blk s') bl1 bl' (Suc n) nb bn r"
      by (rule tree_step_descend [OF N(1) _ _ _ b(2) H(4)])
        (use bd N(2) L4(1) len in \<open>auto simp del: tree_blocks.simps\<close>)
    have "tree_step ?g ?L (fs_view blk s') bl bl' (Suc n) nb bn r"
      unfolding new(3) by (rule tree_step_new [OF T bd new(1) D(4) L4(1) A(8) L4(2) ts])
    moreover have "bmap_walk st wr sync bn (Suc n) nb ra s = (Inr r, s')"
      unfolding walk using new(1,2) A(1-4) H(1) by (simp add: Let_def)
    ultimately show ?thesis using new(2) H(2,5) same_fs_trans [OF sf4 H(3)] unfolding walk_ok_def by blast
  qed
qed

end

end
