(* ===== verification/Ufs_Map.thy ===== *)
theory Ufs_Map
  imports Ufs_File
begin

text \<open>
  The blocks of a file as \<open>bmap\<close> sees them: the seven addresses of the inode are a table of four
  blocks and three trees. The properties of \<open>bmap\<close>: reading is a lookup in that table, writing adds blocks from
  the free list at the place asked for and nowhere else.
\<close>

section \<open>Files\<close>

definition file_depth :: "nat \<Rightarrow> nat" where
  "file_depth i = (if i < NDADDR then 0 else i - 3)"

definition file_table :: "u32 list \<Rightarrow> (nat \<times> u32) list" where
  "file_table ad = map (\<lambda>i. (file_depth i, ad ! i)) [0..<NADDR]"

definition file_blocks :: "(u32 \<Rightarrow> u32 list) \<Rightarrow> u32 list \<Rightarrow> u32 list" where
  "file_blocks L ad = concat (forest L (file_table ad))"

definition file_ok :: "(u32 \<Rightarrow> bool) \<Rightarrow> (u32 \<Rightarrow> u32 list) \<Rightarrow> u32 list \<Rightarrow> bool" where
  "file_ok good L ad \<longleftrightarrow> length ad = NADDR \<and> forest_ok good L (file_table ad)"

text \<open>The entry and the number within its tree of a block of the file; None beyond the largest file.\<close>

definition file_slot :: "int \<Rightarrow> (nat \<times> int) option" where
  "file_slot bn =
     (if bn < 0 then None
      else if bn < 4 then Some (nat bn, 0)
      else if bn < 4 + 256 then Some (4, bn - 4)
      else if bn < 4 + 256 + 256 ^ 2 then Some (5, bn - (4 + 256))
      else if bn < 4 + 256 + 256 ^ 2 + 256 ^ 3 then Some (6, bn - (4 + 256 + 256 ^ 2))
      else None)"

definition file_get :: "(u32 \<Rightarrow> u32 list) \<Rightarrow> u32 list \<Rightarrow> int \<Rightarrow> u32" where
  "file_get L ad bn =
     (case file_slot bn of None \<Rightarrow> 0 | Some (e, x) \<Rightarrow> if ad ! e = 0 then 0 else tree_get L (file_depth e) (ad ! e) x)"

lemma bmap_level_slot:
  assumes "4 \<le> bn"
  shows "bmap_level 3 1 (bn - (int NADDR - 3)) = map_option (\<lambda>(e, x). (7 - e, x)) (file_slot bn)"
  using assms by (simp add: file_slot_def NADDR_def numeral_3_eq_3)

lemma file_slot_range:
  assumes "file_slot bn = Some (e, x)"
  shows "e < NADDR" "0 \<le> bn" "bn < 4 \<longleftrightarrow> e < NDADDR" "e < NDADDR \<Longrightarrow> e = nat bn"
  using assms by (auto simp: file_slot_def NADDR_def NDADDR_def split: if_splits)

lemma file_slot_other:
  assumes "file_slot bn = Some (e, x)" "file_slot bn' = Some (e, x')" "bn' \<noteq> bn"
  shows "x' mod 256 ^ file_depth e \<noteq> x mod 256 ^ file_depth e"
  using assms by (auto simp: file_slot_def file_depth_def NDADDR_def split: if_splits)

lemma file_table_nth [simp]: "length (file_table ad) = NADDR" "e < NADDR \<Longrightarrow> file_table ad ! e = (file_depth e, ad ! e)"
  by (simp_all add: file_table_def)

lemma file_table_update:
  "e < NADDR \<Longrightarrow> length ad = NADDR \<Longrightarrow> file_table (ad[e := b]) = (file_table ad)[e := (file_depth e, b)]"
  by (intro nth_equalityI) (auto simp: nth_list_update)

text \<open>What a call does to the file, in the manner of \<open>tree_step\<close>.\<close>

definition file_step ::
    "(u32 \<Rightarrow> bool) \<Rightarrow> (u32 \<Rightarrow> u32 list) \<Rightarrow> (u32 \<Rightarrow> u32 list) \<Rightarrow> u32 list \<Rightarrow> u32 list \<Rightarrow> u32 list \<Rightarrow> u32 list \<Rightarrow> int \<Rightarrow> int \<Rightarrow> bool" where
  "file_step good L L' ad ad' bl bl' bn r \<longleftrightarrow>
     file_ok good L' ad' \<and>
     (\<exists>used. bl = used @ bl' \<and> set (file_blocks L' ad') = set (file_blocks L ad) \<union> set used) \<and>
     (\<forall>c. good c \<and> c \<notin> set (file_blocks L ad) \<union> set bl \<longrightarrow> L' c = L c) \<and>
     (\<forall>bn'. bn' \<noteq> bn \<or> r = -1 \<longrightarrow> file_get L' ad' bn' = file_get L ad bn') \<and>
     (r = -1 \<longrightarrow> file_get L ad bn = 0) \<and>
     (r \<noteq> -1 \<longrightarrow> file_get L' ad' bn \<noteq> 0 \<and> r = sint (file_get L' ad' bn) \<and>
        (file_get L ad bn \<noteq> 0 \<longrightarrow> file_get L' ad' bn = file_get L ad bn))"

lemma file_step_descend:
  assumes ok: "file_ok good L ad" and sl: "file_slot bn = Some (e, x)" and nz: "ad ! e \<noteq> 0"
    and bl: "\<forall>b\<in>set bl. good b" "set bl \<inter> set (file_blocks L ad) = {}"
    and st: "tree_step good L L' bl bl' (file_depth e) (ad ! e) x r"
  shows "file_step good L L' ad ad bl bl' bn r"
proof -
  note F = ok [unfolded file_ok_def] and S = file_slot_range [OF sl]
  have e: "e < length (file_table ad)" "file_table ad ! e = (file_depth e, ad ! e)" using S(1) by simp_all
  obtain used where G: "bl = used @ bl'" "set (concat (forest L' (file_table ad))) = set (concat (forest L (file_table ad))) \<union> set used"
    "forest_ok good L' (file_table ad)" "\<forall>c. good c \<and> c \<notin> set (concat (forest L (file_table ad))) \<union> set bl \<longrightarrow> L' c = L c"
    "\<forall>j d' b' x. j < length (file_table ad) \<and> j \<noteq> e \<and> file_table ad ! j = (d', b') \<and> b' \<noteq> 0 \<longrightarrow> tree_get L' d' b' x = tree_get L d' b' x"
    by (rule forest_step [OF conjunct2 [OF F] e nz bl(1) bl(2) [unfolded file_blocks_def] st])
  have "file_get L' ad bn' = file_get L ad bn'" if b: "bn' \<noteq> bn \<or> r = -1" for bn'
  proof (cases "file_slot bn'")
    case (Some p)
    obtain e' x' where p: "p = (e', x')" by force
    show ?thesis
    proof (cases "e' = e")
      case True
      then have "x' mod 256 ^ file_depth e \<noteq> x mod 256 ^ file_depth e \<or> r = -1"
        using b file_slot_other [OF sl, of bn' x'] Some p by blast
      then show ?thesis using st Some p True by (auto simp: file_get_def tree_step_def)
    next
      case False
      then show ?thesis
        using G(5) [rule_format, of e' "file_depth e'" "ad ! e'" x'] file_slot_range(1) [of bn' e' x'] Some p
        by (auto simp: file_get_def)
    qed
  qed (simp add: file_get_def)
  moreover have "file_get L' ad bn = tree_get L' (file_depth e) (ad ! e) x" "file_get L ad bn = tree_get L (file_depth e) (ad ! e) x"
    using sl nz by (simp_all add: file_get_def)
  ultimately show ?thesis
    using st G F unfolding file_step_def file_ok_def file_blocks_def tree_step_def by auto
qed

lemma file_step_new:
  assumes ok: "file_ok good L ad" and sl: "file_slot bn = Some (e, x)" and z: "ad ! e = 0"
    and bl: "distinct (b # bl)" "\<forall>c\<in>set (b # bl). good c" "set (b # bl) \<inter> set (file_blocks L ad) = {}" and g0: "\<not> good 0"
    and L1: "file_depth e = 0 \<or> L1 b = replicate 256 0" "\<forall>c. good c \<and> c \<noteq> b \<longrightarrow> L1 c = L c"
  shows "file_ok good L1 (ad[e := b])" "set bl \<inter> set (file_blocks L1 (ad[e := b])) = {}"
    "file_step good L1 L' (ad[e := b]) ad' bl bl' bn r \<Longrightarrow> file_step good L L' ad ad' (b # bl) bl' bn r"
proof -
  note F = ok [unfolded file_ok_def] and S = file_slot_range [OF sl]
  have e: "e < length (file_table ad)" "file_table ad ! e = (file_depth e, 0)" using S(1) z by simp_all
  have b: "good b" "b \<noteq> 0" "b \<notin> set (concat (forest L (file_table ad)))" using bl g0 by (auto simp: file_blocks_def)
  have fr: "file_depth e = 0 \<or> length (L1 b) = 256 \<and> (\<forall>w\<in>set (L1 b). w = 0)" using L1(1) by auto
  have same: "\<forall>c\<in>set (concat (forest L (file_table ad))). L1 c = L c"
  proof
    fix c assume "c \<in> set (concat (forest L (file_table ad)))"
    then have "good c" "c \<noteq> b" using F b(3) by (auto simp: forest_ok_def simp del: set_concat)
    then show "L1 c = L c" using L1(2) by blast
  qed
  note N = forest_new [of good L "file_table ad" e "file_depth e" b L1, OF conjunct2 [OF F] e b fr same]
  have t: "file_table (ad[e := b]) = (file_table ad)[e := (file_depth e, b)]"
    by (rule file_table_update) (use S(1) F in simp_all)
  show "file_ok good L1 (ad[e := b])" using F N(1) by (simp add: file_ok_def t)
  have bs: "set (file_blocks L1 (ad[e := b])) = insert b (set (file_blocks L ad))"
    unfolding file_blocks_def t by (rule N(2))
  then show "set bl \<inter> set (file_blocks L1 (ad[e := b])) = {}" using bl(1,3) by auto
  have get: "file_get L ad bn = 0" using sl z by (simp add: file_get_def)
  have e7: "e < length ad" using S(1) F by simp
  assume st: "file_step good L1 L' (ad[e := b]) ad' bl bl' bn r"
  have d0: "0 < file_depth e" if "r = -1"
  proof (rule ccontr)
    assume "\<not> 0 < file_depth e"
    then have "file_get L1 (ad[e := b]) bn = b" using sl b(2) e7 by (simp add: file_get_def)
    with that st b(2) show False by (simp add: file_step_def)
  qed
  have oth: "file_get L1 (ad[e := b]) bn' = file_get L ad bn'" if q: "bn' \<noteq> bn \<or> r = -1" for bn'
  proof (cases "file_slot bn'")
    case (Some p)
    obtain e' x' where p: "p = (e', x')" by force
    show ?thesis
    proof (cases "e' = e")
      case True
      have "0 < file_depth e"
      proof (cases "bn' = bn")
        case False
        have "x' mod 256 ^ file_depth e \<noteq> x mod 256 ^ file_depth e"
          using file_slot_other [OF sl _ False] Some p True by blast
        then show ?thesis by (cases "file_depth e") auto
      qed (use q d0 in blast)
      then show ?thesis using fresh_tree(3) [of "file_depth e" L1 b, OF fr] Some p True z e7 by (simp add: file_get_def)
    next
      case False
      then show ?thesis
        using N(3) [of e' "file_depth e'" "ad ! e'" x'] file_slot_range(1) [of bn' e' x'] Some p by (auto simp: file_get_def)
    qed
  qed (simp add: file_get_def)
  obtain used where "bl = used @ bl'" "set (file_blocks L' ad') = set (file_blocks L1 (ad[e := b])) \<union> set used"
    using st by (auto simp: file_step_def)
  then have "b # bl = (b # used) @ bl'" "set (file_blocks L' ad') = set (file_blocks L ad) \<union> set (b # used)"
    using bs by auto
  moreover have "L' c = L c" if "good c" "c \<notin> set (file_blocks L ad) \<union> set (b # bl)" for c
    using st that bs L1(2) by (auto simp: file_step_def)
  ultimately show "file_step good L L' ad ad' (b # bl) bl' bn r"
    using st get oth unfolding file_step_def by simp
qed

section \<open>A call\<close>

lemma file_cong:
  assumes ok: "file_ok good L ad" and same: "\<forall>c. good c \<longrightarrow> L1 c = L c"
  shows "file_ok good L1 ad" "file_blocks L1 ad = file_blocks L ad" "file_get L1 ad bn = file_get L ad bn"
proof -
  note F = ok [unfolded file_ok_def]
  have t: "tree_ok good L1 (file_depth e) (ad ! e) \<and> tree_blocks L1 (file_depth e) (ad ! e) = tree_blocks L (file_depth e) (ad ! e) \<and>
      tree_get L1 (file_depth e) (ad ! e) x = tree_get L (file_depth e) (ad ! e) x" if "e < NADDR" "ad ! e \<noteq> 0" for e x
    using tree_ok_cong [OF forest_tree [of good L "file_table ad" e] same] F that by simp
  have f: "forest L1 (file_table ad) = forest L (file_table ad)"
    using t by (intro nth_equalityI) (simp_all add: nth_forest)
  then show "file_blocks L1 ad = file_blocks L ad" by (simp add: file_blocks_def)
  have "tree_full L1 d b" if "(d, b) \<in> set (file_table ad)" "b \<noteq> 0" for d b
    using that t by (auto simp: file_table_def tree_ok_def)
  then show "file_ok good L1 ad" using F f by (auto simp: file_ok_def forest_ok_def)
  show "file_get L1 ad bn = file_get L ad bn"
    using t file_slot_range(1) by (auto simp: file_get_def split: option.split)
qed

lemma file_step_cong:
  assumes "file_ok good L ad" "\<forall>c. good c \<longrightarrow> L1 c = L c" "file_step good L1 L' ad ad' bl bl' bn r"
  shows "file_step good L L' ad ad' bl bl' bn r"
  using assms file_cong [OF assms(1,2)] by (simp add: file_step_def)

lemma file_step_fail:
  assumes "file_ok good L ad" "file_get L ad bn = 0" "\<forall>c. good c \<longrightarrow> L' c = L c"
  shows "file_step good L L' ad ad bl bl bn (-1)"
  using assms file_cong [OF assms(1,3)] by (simp add: file_step_def)

text \<open>The inode apart from its addresses and the flags that say it has changed.\<close>

definition same_inode :: "inode \<Rightarrow> inode \<Rightarrow> bool" where
  "same_inode ip ip' \<longleftrightarrow> (\<exists>ad fl. ip' = ip\<lparr>i_addr := ad, i_flag := i_flag ip \<union> fl\<rparr> \<and> fl \<subseteq> {IUPD, ICHG})"

definition map_ok ::
    "('d \<Rightarrow> bool) \<Rightarrow> ('d \<Rightarrow> int \<times> int \<Rightarrow> u32 list) \<Rightarrow> (int \<times> int) set \<Rightarrow> bool \<Rightarrow> u32 list \<Rightarrow> inode \<Rightarrow> 'd ufs \<Rightarrow> int \<Rightarrow>
     (int \<times> inode, 'd) ures \<Rightarrow> bool" where
  "map_ok okd blk K wr bl ip s bn w \<longleftrightarrow> (\<exists>r ip' s' bl'. w = (Inr (r, ip'), s') \<and> fs_idle okd blk K bl' s' \<and> same_fs s s' \<and>
    same_inode ip ip' \<and> file_step (fs_good (u_fs s)) (fs_view blk s) (fs_view blk s') (i_addr ip) (i_addr ip') bl bl' bn r \<and>
    (wr \<and> r = -1 \<longrightarrow> bl' = [] \<and> bu_error (u_bio s') = ENOSPC) \<and>
    (\<not> wr \<longrightarrow> bl' = bl \<and> ip' = ip \<and> (\<forall>c. fs_good (u_fs s) c \<longrightarrow> fs_view blk s' c = fs_view blk s c)))"

context blockdev
begin

text \<open>The way from an entry of the inode on: nothing more for a direct block, the walk for a tree.\<close>

lemma map_from_entry:
  assumes id: "fs_idle okd blk K bl s" and ok: "file_ok (fs_good (u_fs s)) (fs_view blk s) (i_addr ip)"
    and bl: "set bl \<inter> set (file_blocks (fs_view blk s) (i_addr ip)) = {}"
    and sl: "file_slot bn = Some (e, x)" and nz: "i_addr ip ! e \<noteq> 0"
  shows "map_ok okd blk K wr bl ip s bn
    (ubind (bmap_walk st wr sync x (file_depth e) (i_addr ip ! e) ra s) (\<lambda>d s2. (Inr (d, ip), s2)))"
proof -
  let ?g = "fs_good (u_fs s)" and ?L = "fs_view blk s" and ?nb = "i_addr ip ! e"
  note F = ok [unfolded file_ok_def] and S = file_slot_range [OF sl]
  note D = fs_okD [OF id [unfolded fs_idle_def, THEN conjunct1]]
  have e: "e < length (file_table (i_addr ip))" "file_table (i_addr ip) ! e = (file_depth e, ?nb)" using S(1) by simp_all
  have T: "tree_ok ?g ?L (file_depth e) ?nb" by (rule forest_tree [OF conjunct2 [OF F] e nz])
  have "set bl \<inter> set (tree_blocks ?L (file_depth e) ?nb) = {}"
    using bl forest_part [OF e nz, of ?L] unfolding file_blocks_def by blast
  from bmap_walk_ok [OF id T this, of wr x sync ra]
  obtain r s' bl' where H: "bmap_walk st wr sync x (file_depth e) ?nb ra s = (Inr r, s')" "fs_idle okd blk K bl' s'" "same_fs s s'"
    "tree_step ?g ?L (fs_view blk s') bl bl' (file_depth e) ?nb x r"
    "wr \<and> r = -1 \<longrightarrow> bl' = [] \<and> bu_error (u_bio s') = ENOSPC"
    "\<not> wr \<longrightarrow> bl' = bl \<and> (\<forall>c. ?g c \<longrightarrow> fs_view blk s' c = ?L c)"
    unfolding walk_ok_def by (elim exE conjE) (rule that)
  have "file_step ?g ?L (fs_view blk s') (i_addr ip) (i_addr ip) bl bl' bn r"
    by (rule file_step_descend [OF ok sl nz _ bl H(4)]) (use D(6) in blast)
  moreover have "same_inode ip ip" unfolding same_inode_def by (intro exI [of _ "i_addr ip"] exI [of _ "{}"]) simp
  ultimately show ?thesis using H unfolding map_ok_def by (intro exI [of _ r] exI [of _ ip] exI [of _ s'] exI [of _ bl']) simp
qed

lemma map_entry_ok:
  assumes id: "fs_idle okd blk K bl s" and ok: "file_ok (fs_good (u_fs s)) (fs_view blk s) (i_addr ip)"
    and bl: "set bl \<inter> set (file_blocks (fs_view blk s) (i_addr ip)) = {}"
    and sl: "file_slot bn = Some (e, x)" and cl: "file_depth e = 0 \<or> clr"
  shows "map_ok okd blk K wr bl ip s bn
    (ubind (bmap_entry st wr clr now e ip s) (\<lambda>r s1. case r of None \<Rightarrow> (Inr (-1, ip), s1)
       | Some (nb, ip1) \<Rightarrow> ubind (bmap_walk st wr sync x (file_depth e) nb (ra ip1 s1) s1) (\<lambda>d s2. (Inr (d, ip1), s2))))"
proof -
  let ?g = "fs_good (u_fs s)" and ?L = "fs_view blk s" and ?ad = "i_addr ip"
  note I = id [unfolded fs_idle_def, THEN conjunct1]
  note D = fs_okD [OF I]
  have refl: "same_inode ip ip" unfolding same_inode_def by (intro exI [of _ "i_addr ip"] exI [of _ "{}"]) simp
  have none: "map_ok okd blk K wr bl ip s bn (Inr (-1, ip), s1)"
    if "?ad ! e = 0" "fs_idle okd blk K bl s1" "same_fs s s1" "\<forall>c. ?g c \<longrightarrow> fs_view blk s1 c = ?L c"
      "wr \<longrightarrow> bl = [] \<and> bu_error (u_bio s1) = ENOSPC" for s1
  proof -
    have "file_step ?g ?L (fs_view blk s1) ?ad ?ad bl bl bn (-1)"
      by (rule file_step_fail [OF ok _ that(4)]) (simp add: file_get_def sl that(1))
    with that refl show ?thesis unfolding map_ok_def
      by (intro exI [of _ "-1"] exI [of _ ip] exI [of _ s1] exI [of _ bl]) simp
  qed
  consider (found) "?ad ! e \<noteq> 0" | (hole) "?ad ! e = 0" "\<not> wr" | (full) "?ad ! e = 0" wr "bl = []"
    | (new) b bl1 where "?ad ! e = 0" wr "bl = b # bl1" by (cases bl) auto
  then show ?thesis
  proof cases
    case found
    then show ?thesis using map_from_entry [OF id ok bl sl] by (simp add: bmap_entry_def)
  next
    case hole
    then show ?thesis using none [of s] id by (simp add: bmap_entry_def)
  next
    case full
    obtain s1 where F: "balloc st clr s = (Inr None, s1)" "fs_ok okd blk K [] s1" "bu_error (u_bio s1) = ENOSPC"
        "fs_good (u_fs s1) = ?g" "u_dev s1 = u_dev s" "same_holds (u_bio s) (u_bio s1)"
        "\<forall>k\<in>K. bview blk (u_bio s1) k = bview blk (u_bio s) k"
      using balloc_full [OF I [unfolded full(3)], of clr] by (elim exE conjE) (rule that)
    have "fs_idle okd blk K [] s1" using id F(2,6) by (auto simp: fs_idle_def idle_def same_holds_def held_kept_def)
    then show ?thesis
      using full F none [of s1] D(5) by (simp add: bmap_entry_def same_fs_def fs_view_def)
  next
    case new
    have av: "fs_avail (b # bl1) s" using fs_idle_avail [OF id] by (simp add: fs_avail_def)
    obtain m s2 s3 where A: "balloc st clr s = (Inr (Some m), s2)" "word_of_int (b_blkno (bufs (u_bio s2) ! m)) = b"
      "bio ((if now then bwrite else bdwrite) st m) s2 = (Inr (), s3)" "fs_ok okd blk K bl1 s3" "same_fs s s3"
      "same_holds (u_bio s) (u_bio s3)" "clr \<longrightarrow> fs_view blk s3 b = replicate 256 0"
      "\<forall>c. ?g c \<longrightarrow> c \<noteq> b \<longrightarrow> fs_view blk s3 c = ?L c"
      by (rule fs_new_block [OF I [unfolded new(3)] av, of clr "\<lambda>_. now"])
    define ip1 where "ip1 = ip\<lparr>i_addr := ?ad[e := b], i_flag := i_flag ip \<union> {IUPD, ICHG}\<rparr>"
    have g3: "fs_good (u_fs s3) = ?g" using A(5) by (simp add: same_fs_def)
    have bd: "distinct (b # bl1)" "\<forall>c\<in>set (b # bl1). ?g c" "set (b # bl1) \<inter> set (file_blocks ?L ?ad) = {}"
      using D(2,6) bl new(3) by simp_all
    have L1: "file_depth e = 0 \<or> fs_view blk s3 b = replicate 256 0" "\<forall>c. ?g c \<and> c \<noteq> b \<longrightarrow> fs_view blk s3 c = ?L c"
      using A(7,8) cl by auto
    note N = file_step_new [OF ok sl new(1) bd D(4) L1]
    have id3: "fs_idle okd blk K bl1 s3" using id A(4,6) by (auto simp: fs_idle_def idle_def same_holds_def held_kept_def)
    have b: "?ad[e := b] ! e = b" "b \<noteq> 0"
      using file_slot_range(1) [OF sl] ok bd(2) D(4) by (auto simp: file_ok_def)
    have "map_ok okd blk K wr bl1 ip1 s3 bn
        (ubind (bmap_walk st wr sync x (file_depth e) b (ra ip1 s3) s3) (\<lambda>d s2. (Inr (d, ip1), s2)))"
      using map_from_entry [OF id3 _ _ sl, of ip1 wr sync "ra ip1 s3"] N(1,2) b by (simp add: g3 ip1_def)
    then obtain r ip' s' bl' where H: "ubind (bmap_walk st wr sync x (file_depth e) b (ra ip1 s3) s3) (\<lambda>d s2. (Inr (d, ip1), s2)) = (Inr (r, ip'), s')"
        "fs_idle okd blk K bl' s'" "same_fs s3 s'" "same_inode ip1 ip'"
        "file_step ?g (fs_view blk s3) (fs_view blk s') (i_addr ip1) (i_addr ip') bl1 bl' bn r"
        "wr \<and> r = -1 \<longrightarrow> bl' = [] \<and> bu_error (u_bio s') = ENOSPC"
      unfolding map_ok_def g3 by (elim exE conjE) (rule that)
    have "same_inode ip ip'"
    proof -
      obtain ad fl where "ip' = ip1\<lparr>i_addr := ad, i_flag := i_flag ip1 \<union> fl\<rparr>" "fl \<subseteq> {IUPD, ICHG}"
        using H(4) unfolding same_inode_def by blast
      then show ?thesis unfolding same_inode_def ip1_def
        by (intro exI [of _ ad] exI [of _ "{IUPD, ICHG} \<union> fl"]) (auto simp: Un_assoc)
    qed
    moreover have "file_step ?g ?L (fs_view blk s') ?ad (i_addr ip') bl bl' bn r"
      unfolding new(3) by (rule N(3)) (use H(5) in \<open>simp add: ip1_def\<close>)
    moreover have "ubind (bmap_entry st wr clr now e ip s) (\<lambda>r s1. case r of None \<Rightarrow> (Inr (-1, ip), s1)
       | Some (nb, ip1) \<Rightarrow> ubind (bmap_walk st wr sync x (file_depth e) nb (ra ip1 s1) s1) (\<lambda>d s2. (Inr (d, ip1), s2)))
       = (Inr (r, ip'), s')"
      using new(1,2) A(1-3) H(1) by (simp add: bmap_entry_def Let_def ip1_def)
    ultimately show ?thesis
      using new(2) H(2,6) same_fs_trans [OF A(5) H(3)] unfolding map_ok_def
      by (intro exI [of _ r] exI [of _ ip'] exI [of _ s'] exI [of _ bl']) simp
  qed
qed

lemma map_ok_rablock:
  "map_ok okd blk K wr bl ip (s\<lparr>u_rablock := ra\<rparr>) bn w = map_ok okd blk K wr bl ip s bn w"
proof -
  have "fs_view blk (s\<lparr>u_rablock := ra\<rparr>) = fs_view blk s" by (simp add: fs_view_def fun_eq_iff)
  then show ?thesis by (simp add: map_ok_def same_fs_def)
qed

lemma bmap_ok:
  assumes id: "fs_idle okd blk K bl s" and ok: "file_ok (fs_good (u_fs s)) (fs_view blk s) (i_addr ip)"
    and bl: "set bl \<inter> set (file_blocks (fs_view blk s) (i_addr ip)) = {}" and sl: "file_slot bn \<noteq> None"
  shows "map_ok okd blk K wr bl ip s bn (bmap st bn wr clr sync ip s)"
proof -
  obtain e x where ex: "file_slot bn = Some (e, x)" using sl by auto
  note S = file_slot_range [OF ex]
  define s0 where "s0 = s\<lparr>u_rablock := 0\<rparr>"
  have v: "fs_view blk s0 = fs_view blk s" "u_fs s0 = u_fs s" by (simp_all add: s0_def fs_view_def fun_eq_iff)
  have id0: "fs_idle okd blk K bl s0" using id v by (simp add: fs_idle_def fs_ok_def s0_def)
  note E = map_entry_ok [OF id0 ok [folded v] bl [folded v] ex]
  have "map_ok okd blk K wr bl ip s0 bn (bmap st bn wr clr sync ip s)"
  proof (cases "bn < 4")
    case True
    have e: "e = nat bn" "x = 0" "file_depth e = 0" using True ex S(2) by (auto simp: file_slot_def file_depth_def NDADDR_def)
    define ra where "ra = (\<lambda>(ip1 :: inode) (s1 :: 'd ufs). if nat bn < NADDR - 4 then i_addr ip1 ! (nat bn + 1) else u_rablock s1)"
    have r: "s1\<lparr>u_rablock := ra ip1 s1\<rparr> = (if nat bn < NADDR - 4 then s1\<lparr>u_rablock := i_addr ip1 ! (nat bn + 1)\<rparr> else s1)" for ip1 s1
      by (simp add: ra_def)
    note E' = E [where clr = clr and now = sync and ra = ra and sync = sync and wr = wr,
        unfolded e(3) bmap_walk.simps(1) ubind_simps r]
    have "bmap st bn wr clr sync ip s = ubind (bmap_entry st wr clr sync (nat bn) ip s0) (\<lambda>r s1.
            case r of
              None \<Rightarrow> (Inr (-1, ip), s1)
            | Some (nb, ip1) \<Rightarrow>
                (Inr (sint nb, ip1),
                 if nat bn < NADDR - 4 then s1\<lparr>u_rablock := i_addr ip1 ! (nat bn + 1)\<rparr> else s1))"
      using True S(2) by (simp add: bmap_def NADDR_def s0_def [symmetric] del: One_nat_def)
    with E' e(1) show ?thesis by simp
  next
    case False
    have lv: "bmap_level 3 1 (bn - (int NADDR - 3)) = Some (7 - e, x)" using False ex by (simp add: bmap_level_slot)
    have j: "4 - (7 - e) = file_depth e" "NADDR - (7 - e) = e" and g: "\<not> bn < 0" "\<not> bn < int NADDR - 3"
      using S(1,2,3) False by (auto simp: file_depth_def NADDR_def NDADDR_def)
    show ?thesis
      unfolding bmap_def Let_def s0_def [symmetric] lv option.case prod.case j if_not_P [OF g(1)] if_not_P [OF g(2)]
      by (rule E [where clr = True and ra = "\<lambda>_ _. 0"]) simp
  qed
  then show ?thesis by (simp add: s0_def map_ok_rablock)
qed

end

lemma bmap_too_big:
  assumes "file_slot bn = None" "fs_idle okd blk K bl s"
  shows "\<exists>s'. bmap st bn wr clr sync ip s = (Inr (0, ip), s') \<and> bu_error (u_bio s') = EFBIG \<and> fs_idle okd blk K bl s' \<and>
    fs_view blk s' = fs_view blk s"
proof -
  have "\<exists>ra. bmap st bn wr clr sync ip s = (Inr (0, ip), s\<lparr>u_bio := (u_bio s)\<lparr>bu_error := EFBIG\<rparr>, u_rablock := ra\<rparr>)"
  proof (cases "bn < 0")
    case True
    then show ?thesis by (intro exI [of _ "u_rablock s"]) (simp add: bmap_def)
  next
    case False
    then have "4 \<le> bn" using assms(1) by (auto simp: file_slot_def split: if_splits)
    then have "bmap_level 3 1 (bn - (int NADDR - 3)) = None" "\<not> bn < int NADDR - 3"
      using bmap_level_slot assms(1) by (simp_all add: NADDR_def)
    with False show ?thesis by (intro exI [of _ 0]) (simp add: bmap_def)
  qed
  then obtain ra where e: "bmap st bn wr clr sync ip s = (Inr (0, ip), s\<lparr>u_bio := (u_bio s)\<lparr>bu_error := EFBIG\<rparr>, u_rablock := ra\<rparr>)" by blast
  let ?s = "s\<lparr>u_bio := (u_bio s)\<lparr>bu_error := EFBIG\<rparr>, u_rablock := ra\<rparr>"
  have v: "fs_view blk ?s = fs_view blk s" by (simp add: fs_view_def fun_eq_iff)
  then have "fs_idle okd blk K bl ?s" using assms(2) by (simp add: fs_idle_def fs_ok_def idle_def busy_def)
  with e v show ?thesis by auto
qed

section \<open>Properties\<close>

text \<open>C39. For a file whose blocks are distinct, in range and not free, \<^verbatim>\<open>bmap\<close> for reading is a lookup in the
table of the inode: it returns the number of the block, or -1 for a hole, through up to three
indirect blocks, and 0 with \<^verbatim>\<open>EFBIG\<close> for a block number that is negative or beyond the largest file. It changes
neither the inode nor the contents of a block, and it never sleeps, panics or faults while nobody
holds a buffer.\<close>

theorem bmap_reads_file:
  assumes "disk_unit ops content sectors K" and "fs_idle (rd_ok ops sectors K) (rd_blk content) K bl s"
    and "file_ok (fs_good (u_fs s)) (fs_view (rd_blk content) s) (i_addr ip)"
    and "set bl \<inter> set (file_blocks (fs_view (rd_blk content) s) (i_addr ip)) = {}"
    and b: "b = file_get (fs_view (rd_blk content) s) (i_addr ip) bn"
  shows "\<exists>s'. bmap (rdstrategy ops) bn False clr sync ip s =
      (Inr (if file_slot bn = None then 0 else if b = 0 then -1 else sint b, ip), s') \<and>
    fs_idle (rd_ok ops sectors K) (rd_blk content) K bl s' \<and>
    (\<forall>c. fs_good (u_fs s) c \<longrightarrow> fs_view (rd_blk content) s' c = fs_view (rd_blk content) s c) \<and>
    (file_slot bn = None \<longrightarrow> bu_error (u_bio s') = EFBIG)"
proof (cases "file_slot bn = None")
  case True
  from bmap_too_big [OF True assms(2), of "rdstrategy ops" False clr sync ip] show ?thesis using True by auto
next
  case False
  from blockdev.bmap_ok [OF disk_unit.rd_blockdev [OF assms(1)] assms(2-4) False, of False clr sync]
  obtain r s' where H: "bmap (rdstrategy ops) bn False clr sync ip s = (Inr (r, ip), s')"
      "fs_idle (rd_ok ops sectors K) (rd_blk content) K bl s'"
      "file_step (fs_good (u_fs s)) (fs_view (rd_blk content) s) (fs_view (rd_blk content) s') (i_addr ip) (i_addr ip) bl bl bn r"
      "\<forall>c. fs_good (u_fs s) c \<longrightarrow> fs_view (rd_blk content) s' c = fs_view (rd_blk content) s c"
    unfolding map_ok_def by auto
  have "file_get (fs_view (rd_blk content) s') (i_addr ip) bn = b"
    unfolding b by (rule file_cong(3) [OF assms(3) H(4)])
  then have "r = (if b = 0 then -1 else sint b)" using H(3) b by (auto simp: file_step_def)
  with H False show ?thesis by auto
qed

text \<open>C40. For writing \<^verbatim>\<open>bmap\<close> either returns the block of the file at the place asked for, which it has taken from the front of
the free list together with the indirect blocks that were missing on the way, or it fails with \<^verbatim>\<open>ENOSPC\<close> when the free list
is used up. In both cases the file stays in good order, no block of it or of the free list is lost or shared, the blocks at
all other places of the file are the same as before, and no block outside the file and the free list changes.\<close>

theorem bmap_grows_file:
  assumes "disk_unit ops content sectors K" and "fs_idle (rd_ok ops sectors K) (rd_blk content) K bl s"
    and "file_ok (fs_good (u_fs s)) (fs_view (rd_blk content) s) (i_addr ip)"
    and "set bl \<inter> set (file_blocks (fs_view (rd_blk content) s) (i_addr ip)) = {}" and "file_slot bn \<noteq> None"
    and V: "V = fs_view (rd_blk content) s"
  shows "\<exists>r ip' s' bl' used V'. bmap (rdstrategy ops) bn True clr sync ip s = (Inr (r, ip'), s') \<and>
    fs_idle (rd_ok ops sectors K) (rd_blk content) K bl' s' \<and> V' = fs_view (rd_blk content) s' \<and>
    (r = -1 \<and> bu_error (u_bio s') = ENOSPC \<and> bl' = [] \<and> file_get V (i_addr ip) bn = 0 \<and> file_get V' (i_addr ip') bn = 0 \<or>
     r = sint (file_get V' (i_addr ip') bn) \<and> file_get V' (i_addr ip') bn \<noteq> 0 \<and>
       file_get V (i_addr ip) bn \<in> {0, file_get V' (i_addr ip') bn}) \<and>
    (\<forall>bn'. bn' \<noteq> bn \<longrightarrow> file_get V' (i_addr ip') bn' = file_get V (i_addr ip) bn') \<and>
    file_ok (fs_good (u_fs s')) V' (i_addr ip') \<and> bl = used @ bl' \<and>
    set (file_blocks V' (i_addr ip')) = set (file_blocks V (i_addr ip)) \<union> set used \<and>
    (\<forall>c. fs_good (u_fs s) c \<and> c \<notin> set (file_blocks V (i_addr ip)) \<union> set bl \<longrightarrow> V' c = V c)"
proof -
  from blockdev.bmap_ok [OF disk_unit.rd_blockdev [OF assms(1)] assms(2-5), of True clr sync, folded V]
  obtain r ip' s' bl' where H: "bmap (rdstrategy ops) bn True clr sync ip s = (Inr (r, ip'), s')"
      "fs_idle (rd_ok ops sectors K) (rd_blk content) K bl' s'" "same_fs s s'"
      "file_step (fs_good (u_fs s)) V (fs_view (rd_blk content) s') (i_addr ip) (i_addr ip') bl bl' bn r"
      "True \<and> r = -1 \<longrightarrow> bl' = [] \<and> bu_error (u_bio s') = ENOSPC"
    unfolding map_ok_def V [symmetric] by (elim exE conjE) (rule that)
  obtain used where u: "bl = used @ bl'"
      "set (file_blocks (fs_view (rd_blk content) s') (i_addr ip')) = set (file_blocks V (i_addr ip)) \<union> set used"
    using H(4) by (auto simp: file_step_def)
  have g: "fs_good (u_fs s') = fs_good (u_fs s)" using H(3) by (simp add: same_fs_def)
  note F = H(4) [unfolded file_step_def]
  show ?thesis
  proof (intro exI conjI)
    show "bmap (rdstrategy ops) bn True clr sync ip s = (Inr (r, ip'), s')" by (rule H(1))
    show "fs_idle (rd_ok ops sectors K) (rd_blk content) K bl' s'" by (rule H(2))
    show "bl = used @ bl'" by (rule u(1))
    show "r = -1 \<and> bu_error (u_bio s') = ENOSPC \<and> bl' = [] \<and> file_get V (i_addr ip) bn = 0 \<and>
          file_get (fs_view (rd_blk content) s') (i_addr ip') bn = 0 \<or>
        r = sint (file_get (fs_view (rd_blk content) s') (i_addr ip') bn) \<and>
          file_get (fs_view (rd_blk content) s') (i_addr ip') bn \<noteq> 0 \<and>
          file_get V (i_addr ip) bn \<in> {0, file_get (fs_view (rd_blk content) s') (i_addr ip') bn}"
      using F H(5) by (cases "r = -1") auto
  qed (use F u(2) g in auto)
qed

text \<open>A file with one block on the file system of twenty blocks.\<close>

definition file9 :: inode where
  "file9 = \<lparr>i_flag = {}, i_number = 5, i_mode = 0x8000, i_nlink = 1, i_uid = 5, i_gid = 20, i_size = 1024,
     i_addr = [9, 0, 0, 0, 0, 0, 0], i_flags = 0, i_atime = 0, i_mtime = 0, i_ctime = 0\<rparr>"

lemma file9_ok:
  "fs_idle (rd_ok (mem_ops 1) (\<lambda>root. UNIV) blocks20) (rd_blk (\<lambda>m. m)) blocks20 [7, 6, 5] fs20"
  "file_ok (fs_good (u_fs fs20)) (fs_view (rd_blk (\<lambda>m. m)) fs20) (i_addr file9)"
  "file_blocks (fs_view (rd_blk (\<lambda>m. m)) fs20) (i_addr file9) = [9]"
proof -
  show "fs_idle (rd_ok (mem_ops 1) (\<lambda>root. UNIV) blocks20) (rd_blk (\<lambda>m. m)) blocks20 [7, 6, 5] fs20"
    using fs20_ok(1,2,4) by (simp add: fs_idle_def)
  have t: "file_table (i_addr file9) = [(0, 9), (0, 0), (0, 0), (0, 0), (1, 0), (2, 0), (3, 0)]"
    by (simp add: file_table_def file9_def NADDR_def NDADDR_def file_depth_def upt_rec)
  have n: "length (i_addr file9) = NADDR" by (simp add: file9_def NADDR_def)
  have g: "fs_good (u_fs fs20) 9" by (simp add: fs20_def fs_good_def badblock_def)
  show "file_ok (fs_good (u_fs fs20)) (fs_view (rd_blk (\<lambda>m. m)) fs20) (i_addr file9)"
    unfolding file_ok_def t forest_ok_def forest_def using n g by simp
  show "file_blocks (fs_view (rd_blk (\<lambda>m. m)) fs20) (i_addr file9) = [9]"
    by (simp add: file_blocks_def t forest_def)
qed

theorem bmap_reads_file_witness:
  "\<exists>s'. bmap (rdstrategy (mem_ops 1)) 0 False False False file9 fs20 = (Inr (9, file9), s')"
proof -
  have "file_get (fs_view (rd_blk (\<lambda>m. m)) fs20) (i_addr file9) 0 = 9"
    by (simp add: file_get_def file_slot_def file9_def file_depth_def NDADDR_def)
  with bmap_reads_file [OF blocks20_unit file9_ok(1,2), of _ 0 False False] file9_ok(3)
  show ?thesis by (auto simp: file_slot_def)
qed

theorem bmap_grows_file_witness:
  "\<exists>r ip' s'. bmap (rdstrategy (mem_ops 1)) 300 True False False file9 fs20 = (Inr (r, ip'), s') \<and>
     file_get (fs_view (rd_blk (\<lambda>m. m)) s') (i_addr ip') 0 = 9"
proof -
  have "file_get (fs_view (rd_blk (\<lambda>m. m)) fs20) (i_addr file9) 0 = 9"
    by (simp add: file_get_def file_slot_def file9_def file_depth_def NDADDR_def)
  moreover have "file_slot 300 \<noteq> None" by (simp add: file_slot_def)
  ultimately show ?thesis
    using bmap_grows_file [OF blocks20_unit file9_ok(1,2) _ _ refl, of 300 False False] file9_ok(3) by fastforce
qed

end
