(* ===== verification/Prot.thy ===== *)
theory Prot
  imports Sig_Calls Sendsig "HOL-Library.Signed_Division"
begin

text \<open>
  Processes and protection: the identities of a process and the calls that read and change them
  (sys/kernel/kern_prot.c, sys/kernel/kern_prot2.c), \<^verbatim>\<open>suser\<close> of sys/kernel/ufs_fio.c, priorities,
  limits and usage (sys/kernel/kern_resource.c), and the copies between kernel and user memory
  of sys/pic32/machdep.c. A user id is an integer from 0 to \<open>2 ^ 32 - 1\<close>, a group id a word;
  user memory is a function from addresses to bytes.
\<close>

section \<open>Copies to and from user memory\<close>

type_synonym ubytes = "u32 \<Rightarrow> u8"

definition copyin :: "u32 \<Rightarrow> u32 \<Rightarrow> ubytes \<Rightarrow> int + u8 list" where
  "copyin src nbytes m =
     (if baduaddr src \<or> baduaddr (src + nbytes - 1) then Inl EFAULT
      else Inr (map (\<lambda>i. m (src + word_of_nat i)) [0..<unat nbytes]))"

definition copyout :: "u8 list \<Rightarrow> u32 \<Rightarrow> ubytes \<Rightarrow> int + ubytes" where
  "copyout bs dst m =
     (if baduaddr dst \<or> baduaddr (dst + word_of_nat (length bs) - 1) then Inl EFAULT
      else Inr (fold (\<lambda>i m. m(dst + word_of_nat i := bs ! i)) [0..<length bs] m))"

text \<open>A word lies in memory with its low byte first.\<close>

definition word_bytes :: "u32 \<Rightarrow> u8 list" where
  "word_bytes w = [ucast w, ucast (drop_bit 8 w), ucast (drop_bit 16 w), ucast (drop_bit 24 w)]"

definition bytes_word :: "u8 list \<Rightarrow> u32" where
  "bytes_word bs = foldr (\<lambda>b w. ucast b OR push_bit 8 w) bs 0"

fun bytes_words :: "u8 list \<Rightarrow> u32 list" where
  "bytes_words (a # b # c # d # bs) = bytes_word [a, b, c, d] # bytes_words bs"
| "bytes_words bs = []"

definition words_bytes :: "u32 list \<Rightarrow> u8 list" where
  "words_bytes ws = concat (map word_bytes ws)"

section \<open>Identities\<close>

definition NGROUPS :: nat where
  "NGROUPS = 16"

definition NOGROUP :: u32 where
  "NOGROUP = 65535"

record rlimit =
  rlim_cur :: int
  rlim_max :: int

text \<open>
  The protection part of the user area beside \<open>u_uid\<close>, \<open>u_error\<close>, \<open>u_rval\<close> and the usage counters of
  the kernel state and \<open>u_ruid\<close>, which the signal code reads.
\<close>

record ucred =
  ck :: kern
  cs :: usig
  u_svuid :: int
  u_rgid :: u32
  u_svgid :: u32
  u_groups :: "u32 list"
  u_rlimit :: "rlimit list"
  ub :: ubytes

abbreviation cerror :: "int \<Rightarrow> ucred \<Rightarrow> ucred" where
  "cerror e c \<equiv> c\<lparr>ck := (ck c)\<lparr>u_error := e\<rparr>\<rparr>"

abbreviation crval :: "int \<Rightarrow> ucred \<Rightarrow> ucred" where
  "crval r c \<equiv> c\<lparr>ck := (ck c)\<lparr>u_rval := r\<rparr>\<rparr>"

abbreviation curproc :: "ucred \<Rightarrow> proc" where
  "curproc c \<equiv> procs (ck c) (u_procp (ck c))"

definition suser :: "ucred \<Rightarrow> bool \<times> ucred" where
  "suser c = (if u_uid (ck c) = 0 then (True, c) else (False, cerror EPERM c))"

definition getpid :: "ucred \<Rightarrow> ucred" where
  "getpid c = crval (p_pid (curproc c)) c"

definition getppid :: "ucred \<Rightarrow> ucred" where
  "getppid c = crval (p_ppid (curproc c)) c"

definition getpgrp :: "int \<Rightarrow> ucred \<Rightarrow> ucred" where
  "getpgrp pid c =
     (case pfind (ck c) (if pid = 0 then p_pid (curproc c) else pid) of
        None \<Rightarrow> cerror ESRCH c
      | Some p \<Rightarrow> crval (p_pgrp (procs (ck c) p)) c)"

definition getuid :: "ucred \<Rightarrow> ucred" where
  "getuid c = crval (sint (word_of_int (u_ruid (cs c)) :: u32)) c"

definition geteuid :: "ucred \<Rightarrow> ucred" where
  "geteuid c = crval (sint (word_of_int (u_uid (ck c)) :: u32)) c"

definition getgid :: "ucred \<Rightarrow> ucred" where
  "getgid c = crval (sint (u_rgid c)) c"

definition getegid :: "ucred \<Rightarrow> ucred" where
  "getegid c = crval (sint (u_groups c ! 0)) c"

text \<open>The loop finds the end of the groups from the back.\<close>

fun ngroups :: "u32 list \<Rightarrow> nat \<Rightarrow> nat" where
  "ngroups gs 0 = 0"
| "ngroups gs (Suc n) = (if gs ! n \<noteq> NOGROUP then Suc n else ngroups gs n)"

definition getgroups :: "u32 \<Rightarrow> u32 \<Rightarrow> ucred \<Rightarrow> ucred" where
  "getgroups gidsetsize gidset c =
     (let n = ngroups (u_groups c) NGROUPS in
      if unat gidsetsize < n then cerror EINVAL c
      else case copyout (words_bytes (take n (u_groups c))) gidset (ub c) of
             Inl e \<Rightarrow> cerror e c
           | Inr m \<Rightarrow> crval (int n) (cerror 0 (c\<lparr>ub := m\<rparr>)))"

definition setpgrp :: "int \<Rightarrow> int \<Rightarrow> ucred \<Rightarrow> ucred kres option" where
  "setpgrp pid pgrp c =
     (let k = ck c in
      case pfind k (if pid = 0 then p_pid (curproc c) else pid) of
        None \<Rightarrow> Some (Inr (cerror ESRCH c))
      | Some p \<Rightarrow>
          let set_it = c\<lparr>ck := updproc p (\<lambda>x. x\<lparr>p_pgrp := short_of pgrp\<rparr>) k\<rparr> in
          if uid_of (procs k p) \<noteq> u_uid k \<and> u_uid k \<noteq> 0 then
            map_option (map_sum id (\<lambda>b. if b then set_it else cerror EPERM c)) (inferior k p)
          else Some (Inr set_it))"

text \<open>The product with the size of an entry cannot wrap: the count is at most \<^verbatim>\<open>NGROUPS\<close>.\<close>

definition setgroups :: "u32 \<Rightarrow> u32 \<Rightarrow> ucred \<Rightarrow> ucred" where
  "setgroups gidsetsize gidset c =
     (case suser c of
        (False, c1) \<Rightarrow> c1
      | (True, c1) \<Rightarrow>
          if gidsetsize > word_of_nat NGROUPS then cerror EINVAL c1
          else case copyin gidset (gidsetsize * 4) (ub c1) of
                 Inl e \<Rightarrow> cerror e c1
               | Inr bs \<Rightarrow> cerror 0 (c1\<lparr>u_groups :=
                   bytes_words bs @ replicate (NGROUPS - unat gidsetsize) NOGROUP\<rparr>))"

definition groupmember :: "u32 \<Rightarrow> ucred \<Rightarrow> bool" where
  "groupmember gid c \<longleftrightarrow> gid \<in> set (takeWhile (\<lambda>g. g \<noteq> NOGROUP) (u_groups c))"

definition setuid :: "u32 \<Rightarrow> ucred \<Rightarrow> ucred" where
  "setuid uid c =
     (case (if uint uid \<noteq> u_ruid (cs c) then suser c else (True, c)) of
        (False, c1) \<Rightarrow> c1
      | (True, c1) \<Rightarrow>
          let k = ck c1 in
          c1\<lparr>ck := (updproc (u_procp k) (\<lambda>x. x\<lparr>p_uid := short_of (uint uid)\<rparr>) k)\<lparr>u_uid := uint uid, u_error := 0\<rparr>,
             cs := (cs c1)\<lparr>u_ruid := uint uid\<rparr>, u_svuid := uint uid\<rparr>)"

definition seteuid :: "u32 \<Rightarrow> ucred \<Rightarrow> ucred" where
  "seteuid euid c =
     (case (if uint euid \<noteq> u_ruid (cs c) \<and> uint euid \<noteq> u_svuid c then suser c else (True, c)) of
        (False, c1) \<Rightarrow> c1
      | (True, c1) \<Rightarrow> c1\<lparr>ck := (ck c1)\<lparr>u_uid := uint euid, u_error := 0\<rparr>\<rparr>)"

definition setgid :: "u32 \<Rightarrow> ucred \<Rightarrow> ucred" where
  "setgid gid c =
     (case (if gid \<noteq> u_rgid c then suser c else (True, c)) of
        (False, c1) \<Rightarrow> c1
      | (True, c1) \<Rightarrow> cerror 0 (c1\<lparr>u_groups := (u_groups c1)[0 := gid], u_rgid := gid, u_svgid := gid\<rparr>))"

definition setegid :: "u32 \<Rightarrow> ucred \<Rightarrow> ucred" where
  "setegid egid c =
     (case (if egid \<noteq> u_rgid c \<and> egid \<noteq> u_svgid c then suser c else (True, c)) of
        (False, c1) \<Rightarrow> c1
      | (True, c1) \<Rightarrow> cerror 0 (c1\<lparr>u_groups := (u_groups c1)[0 := egid]\<rparr>))"

section \<open>Priorities, limits and usage\<close>

definition PRIO_MIN :: int where "PRIO_MIN = -20"
definition PRIO_MAX :: int where "PRIO_MAX = 20"

text \<open>\<^verbatim>\<open>PRIO_PROCESS\<close>, \<^verbatim>\<open>PRIO_PGRP\<close>, \<^verbatim>\<open>PRIO_USER\<close> are 0, 1 and 2; \<open>who\<close> is compared as a signed \<^verbatim>\<open>int\<close>.\<close>

definition prio_pgrp :: "int \<Rightarrow> ucred \<Rightarrow> int" where
  "prio_pgrp who c = (if who = 0 then p_pgrp (curproc c) else who)"

definition prio_user :: "int \<Rightarrow> ucred \<Rightarrow> int" where
  "prio_user who c = (if who = 0 then sint (word_of_int (u_uid (ck c)) :: u32) else who)"

definition prio_proc :: "int \<Rightarrow> ucred \<Rightarrow> nat option" where
  "prio_proc who c = (if who = 0 then Some (u_procp (ck c)) else pfind (ck c) who)"

definition getpriority :: "int \<Rightarrow> int \<Rightarrow> ucred \<Rightarrow> ucred" where
  "getpriority which who c =
     (let k = ck c;
          lowest = (\<lambda>P. fold (\<lambda>p low. if P (procs k p) \<and> p_nice (procs k p) < low then p_nice (procs k p) else low)
                             (allproc k) (PRIO_MAX + 1));
          done = (\<lambda>low. if low = PRIO_MAX + 1 then cerror ESRCH c else crval low c) in
      if which = 0 then
        done (case prio_proc who c of None \<Rightarrow> PRIO_MAX + 1 | Some p \<Rightarrow> p_nice (procs k p))
      else if which = 1 then done (lowest (\<lambda>x. p_pgrp x = prio_pgrp who c))
      else if which = 2 then done (lowest (\<lambda>x. p_uid x = prio_user who c))
      else cerror EINVAL c)"

definition donice :: "nat \<Rightarrow> int \<Rightarrow> ucred \<Rightarrow> ucred" where
  "donice p n c =
     (let k = ck c; x = procs k p in
      if u_uid k \<noteq> 0 \<and> u_ruid (cs c) \<noteq> 0 \<and> u_uid k \<noteq> uid_of x \<and> u_ruid (cs c) \<noteq> uid_of x then cerror EPERM c
      else
        let n1 = (if n > PRIO_MAX then PRIO_MAX else n);
            n2 = (if n1 < PRIO_MIN then PRIO_MIN else n1) in
        case (if n2 < p_nice x then suser c else (True, c)) of
          (False, c1) \<Rightarrow> cerror EACCES c1
        | (True, c1) \<Rightarrow> c1\<lparr>ck := updproc p (\<lambda>x. x\<lparr>p_nice := n2\<rparr>) (ck c1)\<rparr>)"

text \<open>The loops over \<^verbatim>\<open>allproc\<close> with \<^verbatim>\<open>found\<close>.\<close>

fun donice_loop :: "(proc \<Rightarrow> bool) \<Rightarrow> int \<Rightarrow> nat list \<Rightarrow> nat \<Rightarrow> ucred \<Rightarrow> nat \<times> ucred" where
  "donice_loop P n [] found c = (found, c)"
| "donice_loop P n (p # ps) found c =
     (if P (procs (ck c) p) then donice_loop P n ps (Suc found) (donice p n c)
      else donice_loop P n ps found c)"

definition setpriority :: "int \<Rightarrow> int \<Rightarrow> int \<Rightarrow> ucred \<Rightarrow> ucred" where
  "setpriority which who prio c =
     (let ret = (\<lambda>(found, c1). if found = 0 then cerror ESRCH c1 else c1) in
      if which = 0 then
        ret (case prio_proc who c of None \<Rightarrow> (0, c) | Some p \<Rightarrow> (1, donice p prio c))
      else if which = 1 then
        ret (donice_loop (\<lambda>x. p_pgrp x = prio_pgrp who c) prio (allproc (ck c)) 0 c)
      else if which = 2 then
        ret (donice_loop (\<lambda>x. p_uid x = prio_user who c) prio (allproc (ck c)) 0 c)
      else cerror EINVAL c)"

definition RLIM_NLIMITS :: nat where "RLIM_NLIMITS = 6"
definition RLIM_INFINITY :: int where "RLIM_INFINITY = 0x7fffffff"
definition HZ :: int where "HZ = 200"

text \<open>The processor time of \<^verbatim>\<open>RLIMIT_CPU\<close> (0) is kept in ticks; the product is one of 32-bit \<^verbatim>\<open>long\<close>s.\<close>

definition cpu_ticks :: "int \<Rightarrow> int" where
  "cpu_ticks v = (if v \<ge> RLIM_INFINITY sdiv HZ then RLIM_INFINITY else sint (word_of_int (v * HZ) :: u32))"

definition cpu_secs :: "int \<Rightarrow> int" where
  "cpu_secs v = (if v \<noteq> RLIM_INFINITY then v sdiv HZ else v)"

definition setrlimit :: "u32 \<Rightarrow> u32 \<Rightarrow> ucred \<Rightarrow> ucred" where
  "setrlimit which lim c =
     (if which \<ge> word_of_nat RLIM_NLIMITS then cerror EINVAL c
      else case copyin lim 8 (ub c) of
             Inl e \<Rightarrow> cerror e c
           | Inr bs \<Rightarrow>
               let c1 = cerror 0 c; ws = bytes_words bs;
                   cur = sint (ws ! 0); mx = sint (ws ! 1);
                   alim = (if which = 0 then \<lparr>rlim_cur = cpu_ticks cur, rlim_max = cpu_ticks mx\<rparr>
                           else \<lparr>rlim_cur = cur, rlim_max = mx\<rparr>);
                   old = u_rlimit c1 ! unat which in
               case (if rlim_cur alim > rlim_max old \<or> rlim_max alim > rlim_max old then suser c1 else (True, c1)) of
                 (False, c2) \<Rightarrow> c2
               | (True, c2) \<Rightarrow> c2\<lparr>u_rlimit := (u_rlimit c2)[unat which := alim]\<rparr>)"

definition getrlimit :: "u32 \<Rightarrow> u32 \<Rightarrow> ucred \<Rightarrow> ucred" where
  "getrlimit which rlp c =
     (if which \<ge> word_of_nat RLIM_NLIMITS then cerror EINVAL c
      else
        let l = u_rlimit c ! unat which;
            cur = (if which = 0 then cpu_secs (rlim_cur l) else rlim_cur l);
            mx = (if which = 0 then cpu_secs (rlim_max l) else rlim_max l) in
        case copyout (words_bytes [word_of_int cur, word_of_int mx]) rlp (ub c) of
          Inl e \<Rightarrow> cerror e c
        | Inr m \<Rightarrow> cerror 0 (c\<lparr>ub := m\<rparr>))"

definition usechz :: int where "usechz = (1000000 + HZ - 1) div HZ"

text \<open>The words of \<^verbatim>\<open>struct rusage\<close> in their order; those the kernel does not count are 0.\<close>

definition rucvt :: "k_rusage \<Rightarrow> u32 list" where
  "rucvt r =
     [word_of_int (sint (ru_utime r) sdiv HZ), word_of_int ((sint (ru_utime r) smod HZ) * usechz),
      word_of_int (sint (ru_stime r) sdiv HZ), word_of_int ((sint (ru_stime r) smod HZ) * usechz)] @
     replicate 6 0 @
     [ru_nswap r, ru_inblock r, ru_oublock r, ru_msgsnd r, ru_msgrcv r, ru_nsignals r, ru_nvcsw r, ru_nivcsw r]"

definition getrusage :: "int \<Rightarrow> u32 \<Rightarrow> ucred \<Rightarrow> ucred" where
  "getrusage who rusage c =
     (case (if who = 0 then Some (u_ru (ck c)) else if who = -1 then Some (u_cru (ck c)) else None) of
        None \<Rightarrow> cerror EINVAL c
      | Some r \<Rightarrow>
          (case copyout (words_bytes (rucvt r)) rusage (ub c) of
             Inl e \<Rightarrow> cerror e c
           | Inr m \<Rightarrow> cerror 0 (c\<lparr>ub := m\<rparr>)))"

end
