(* ===== verification/Prot_Safe.thy ===== *)
theory Prot_Safe
  imports Prot
begin

text \<open>
  Properties of the protection calls: an unprivileged process gains neither identities nor limits
  nor priority by any sequence of calls, limits read back as they were set, and the identity
  that the signal code looks at is not the one that the calls set.
\<close>

section \<open>Sequences of calls that a process without privilege makes\<close>

text \<open>
  A kind of calls with a relation between the state before and after that is reflexive and
  transitive and that every call keeps as long as the caller has no privilege.
\<close>

locale confined_calls =
  fixes call :: "'op \<Rightarrow> 's \<Rightarrow> 's"
    and plain :: "'s \<Rightarrow> bool"
    and within :: "'s \<Rightarrow> 's \<Rightarrow> bool"
  assumes within_refl: "within s s"
    and within_trans: "within s t \<Longrightarrow> within t w \<Longrightarrow> within s w"
    and stays_plain: "plain s \<Longrightarrow> within s t \<Longrightarrow> plain t"
    and call_within: "plain s \<Longrightarrow> within s (call op s)"
begin

lemma run_within: "plain s \<Longrightarrow> within s (fold call ops s)"
proof (induction ops arbitrary: s)
  case Nil
  show ?case by (simp add: within_refl)
next
  case (Cons op ops)
  have "within s (call op s)" by (rule call_within [OF Cons.prems])
  with Cons.IH [OF stays_plain [OF Cons.prems this]] show ?case
    by (auto intro: within_trans)
qed

end

section \<open>Identities\<close>

datatype cred_op = SetUid u32 | SetEUid u32 | SetGid u32 | SetEGid u32 | SetGroups u32 u32
  | GetGroups u32 u32

fun cred_call :: "cred_op \<Rightarrow> ucred \<Rightarrow> ucred" where
  "cred_call (SetUid u) c = setuid u c"
| "cred_call (SetEUid u) c = seteuid u c"
| "cred_call (SetGid g) c = setgid g c"
| "cred_call (SetEGid g) c = setegid g c"
| "cred_call (SetGroups n a) c = setgroups n a c"
| "cred_call (GetGroups n a) c = getgroups n a c"

definition uids :: "ucred \<Rightarrow> int set" where
  "uids c = {u_uid (ck c), u_ruid (cs c), u_svuid c}"

definition gids :: "ucred \<Rightarrow> u32 set" where
  "gids c = {u_groups c ! 0, u_rgid c, u_svgid c}"

definition ids_within :: "ucred \<Rightarrow> ucred \<Rightarrow> bool" where
  "ids_within c c' \<longleftrightarrow> uids c' \<subseteq> uids c \<and>
     (u_groups c \<noteq> [] \<longrightarrow> gids c' \<subseteq> gids c) \<and> length (u_groups c') = length (u_groups c) \<and> tl (u_groups c') = tl (u_groups c) \<and>
     u_procp (ck c') = u_procp (ck c) \<and> (\<forall>p. p \<noteq> u_procp (ck c) \<longrightarrow> procs (ck c') p = procs (ck c) p) \<and>
     p_uid (curproc c') \<in> insert (p_uid (curproc c)) (short_of ` uids c)"

lemma suser_cases:
  "suser c = (b, c1) \<longleftrightarrow> b = (u_uid (ck c) = 0) \<and> c1 = (if b then c else cerror EPERM c)"
  by (auto simp: suser_def)

lemma ids_within_trans:
  assumes "ids_within a b" "ids_within b c"
  shows "ids_within a c"
  using assms unfolding ids_within_def by (auto 0 4)

lemma tl_upd_0 [simp]: "tl (xs[0 := x]) = tl xs"
  by (cases xs) auto

lemma ids_within_call:
  assumes "0 \<notin> uids c"
  shows "ids_within c (cred_call op c)"
proof (cases op)
  case (SetUid u)
  then show ?thesis using assms by (auto simp: ids_within_def setuid_def suser_def uids_def gids_def Let_def)
next
  case (SetEUid u)
  then show ?thesis using assms by (auto simp: ids_within_def seteuid_def suser_def uids_def gids_def)
next
  case (SetGid g)
  then show ?thesis using assms
    by (auto simp: ids_within_def setgid_def suser_def uids_def gids_def nth_list_update)
next
  case (SetEGid g)
  then show ?thesis using assms
    by (auto simp: ids_within_def setegid_def suser_def uids_def gids_def nth_list_update)
next
  case (SetGroups n a)
  then show ?thesis using assms by (auto simp: ids_within_def setgroups_def suser_def uids_def gids_def)
next
  case (GetGroups n a)
  then show ?thesis using assms
    by (auto simp: ids_within_def getgroups_def uids_def gids_def Let_def split: sum.split)
qed

interpretation ids: confined_calls cred_call "\<lambda>c. 0 \<notin> uids c" ids_within
proof unfold_locales
  show "ids_within c c" for c by (simp add: ids_within_def)
  show "ids_within a c" if "ids_within a b" "ids_within b c" for a b c
    using that by (rule ids_within_trans)
  show "0 \<notin> uids b" if "0 \<notin> uids a" "ids_within a b" for a b
    using that by (auto simp: ids_within_def)
  show "ids_within c (cred_call op c)" if "0 \<notin> uids c" for op c
    using that by (rule ids_within_call)
qed

section \<open>Priorities and limits\<close>

datatype res_op = SetPriority int int int | SetRlimit u32 u32 | GetPriority int int | GetRlimit u32 u32

fun res_call :: "res_op \<Rightarrow> ucred \<Rightarrow> ucred" where
  "res_call (SetPriority a b n) c = setpriority a b n c"
| "res_call (SetRlimit i a) c = setrlimit i a c"
| "res_call (GetPriority a b) c = getpriority a b c"
| "res_call (GetRlimit i a) c = getrlimit i a c"

definition limit_within :: "rlimit \<Rightarrow> rlimit \<Rightarrow> bool" where
  "limit_within l l' \<longleftrightarrow> rlim_max l' \<le> rlim_max l \<and> rlim_cur l' \<le> max (rlim_cur l) (rlim_max l)"

definition foreign :: "ucred \<Rightarrow> proc \<Rightarrow> bool" where
  "foreign c x \<longleftrightarrow> u_ruid (cs c) \<noteq> 0 \<and> uid_of x \<noteq> u_uid (ck c) \<and> uid_of x \<noteq> u_ruid (cs c)"

definition res_within :: "ucred \<Rightarrow> ucred \<Rightarrow> bool" where
  "res_within c c' \<longleftrightarrow> u_uid (ck c') = u_uid (ck c) \<and> u_ruid (cs c') = u_ruid (cs c) \<and>
     list_all2 limit_within (u_rlimit c) (u_rlimit c') \<and>
     (\<forall>p. let x = procs (ck c) p; x' = procs (ck c') p in
        (\<exists>n\<ge>p_nice x. x' = x\<lparr>p_nice := n\<rparr> \<and> n \<le> max (p_nice x) PRIO_MAX \<and> (foreign c x \<longrightarrow> n = p_nice x)))"

lemma limit_within_refl [simp]: "limit_within l l"
  by (simp add: limit_within_def)

lemma limit_within_trans: "limit_within a b \<Longrightarrow> limit_within b c \<Longrightarrow> limit_within a c"
  unfolding limit_within_def by linarith

lemma nice_self [simp]: "x\<lparr>p_nice := p_nice x\<rparr> = (x :: proc)"
  by simp

lemma res_within_refl: "res_within c c"
  unfolding res_within_def Let_def
  by (auto intro: list_all2_refl exI [of _ "p_nice x" for x])

lemma uid_of_nice [simp]: "uid_of (x\<lparr>p_nice := n\<rparr>) = uid_of x"
  by (simp add: uid_of_def)

lemma res_within_trans:
  assumes "res_within a b" "res_within b c"
  shows "res_within a c"
proof -
  have "list_all2 limit_within (u_rlimit a) (u_rlimit c)"
    using assms by (auto simp: res_within_def intro: list_all2_trans [OF limit_within_trans])
  moreover have "\<exists>n\<ge>p_nice x. x'' = x\<lparr>p_nice := n\<rparr> \<and> n \<le> max (p_nice x) PRIO_MAX \<and> (foreign a x \<longrightarrow> n = p_nice x)"
    if x: "x = procs (ck a) p" and x'': "x'' = procs (ck c) p" for p x x''
  proof -
    obtain n where n: "n \<ge> p_nice x" "procs (ck b) p = x\<lparr>p_nice := n\<rparr>" "n \<le> max (p_nice x) PRIO_MAX"
      "foreign a x \<longrightarrow> n = p_nice x"
      using assms(1) x by (auto simp: res_within_def Let_def)
    obtain m where m: "m \<ge> p_nice (procs (ck b) p)" "x'' = procs (ck b) p\<lparr>p_nice := m\<rparr>"
      "m \<le> max (p_nice (procs (ck b) p)) PRIO_MAX" "foreign b (procs (ck b) p) \<longrightarrow> m = p_nice (procs (ck b) p)"
      using assms(2) x'' by (auto simp: res_within_def Let_def)
    have "foreign b (procs (ck b) p) = foreign a x"
      using assms(1) n(2) by (simp add: foreign_def res_within_def)
    then show ?thesis using n m by (intro exI [of _ m]) auto
  qed
  ultimately show ?thesis using assms by (simp add: res_within_def Let_def)
qed

lemma res_within_frame:
  assumes "u_uid (ck c') = u_uid (ck c)" "cs c' = cs c" "procs (ck c') = procs (ck c)" "u_rlimit c' = u_rlimit c"
  shows "res_within c c'"
  using res_within_refl [of c] assms by (simp add: res_within_def)

lemma donice_within:
  assumes "u_uid (ck c) \<noteq> 0"
  shows "res_within c (donice p n c)"
proof -
  define n2 where "n2 = (if (if n > PRIO_MAX then PRIO_MAX else n) < PRIO_MIN then PRIO_MIN
                          else (if n > PRIO_MAX then PRIO_MAX else n))"
  have b: "n2 \<le> PRIO_MAX" by (simp add: n2_def PRIO_MAX_def PRIO_MIN_def)
  have d: "donice p n c =
     (if foreign c (procs (ck c) p) then cerror EPERM c
      else if n2 < p_nice (procs (ck c) p) then cerror EACCES c
      else c\<lparr>ck := updproc p (\<lambda>x. x\<lparr>p_nice := n2\<rparr>) (ck c)\<rparr>)"
    using assms by (auto simp: donice_def suser_def Let_def n2_def foreign_def)
  show ?thesis
  proof (cases "foreign c (procs (ck c) p) \<or> n2 < p_nice (procs (ck c) p)")
    case True
    then show ?thesis unfolding d by (auto intro: res_within_frame)
  next
    case False
    then show ?thesis unfolding d using b by (auto simp: res_within_def Let_def intro: list_all2_refl exI [of _ n2])
  qed
qed

lemma donice_loop_within:
  assumes "u_uid (ck c) \<noteq> 0"
  shows "res_within c (snd (donice_loop P n ps f c))"
  using assms
proof (induction ps arbitrary: f c)
  case Nil
  then show ?case by (simp add: res_within_refl)
next
  case (Cons p ps)
  have w: "res_within c (donice p n c)" by (rule donice_within [OF Cons.prems])
  then have "u_uid (ck (donice p n c)) \<noteq> 0" using Cons.prems by (simp add: res_within_def)
  with Cons w show ?case by (auto intro: res_within_trans)
qed

lemma setpriority_within:
  assumes "u_uid (ck c) \<noteq> 0"
  shows "res_within c (setpriority a b n c)"
proof -
  have fin: "res_within c (cerror e c1)" if "res_within c c1" for e c1
    by (rule res_within_trans [OF that]) (rule res_within_frame; simp)
  have lp: "res_within c (case donice_loop P n ps f c of (found, c1) \<Rightarrow> if found = 0 then cerror ESRCH c1 else c1)" for P ps f
    using donice_loop_within [OF assms, of P n ps f] fin by (cases "donice_loop P n ps f c") auto
  show ?thesis
    unfolding setpriority_def Let_def
    using lp fin [OF res_within_refl] donice_within [OF assms] by (auto split: option.split)
qed

lemma setrlimit_within:
  assumes "u_uid (ck c) \<noteq> 0"
  shows "res_within c (setrlimit i a c)"
proof -
  have upd: "list_all2 limit_within ls (ls[j := l])"
    if "rlim_cur l \<le> rlim_max (ls ! j)" "rlim_max l \<le> rlim_max (ls ! j)" for ls j and l :: rlimit
    using that by (cases "j < length ls") (auto simp: list_all2_conv_all_nth nth_list_update limit_within_def list_update_beyond)
  show ?thesis using assms res_within_refl [of c]
    by (auto simp: setrlimit_def suser_def res_within_def Let_def not_less upd split: sum.split)
qed

interpretation res: confined_calls res_call "\<lambda>c. u_uid (ck c) \<noteq> 0" res_within
proof unfold_locales
  show "res_within c c" for c by (rule res_within_refl)
  show "res_within a c" if "res_within a b" "res_within b c" for a b c
    using that by (rule res_within_trans)
  show "u_uid (ck b) \<noteq> 0" if "u_uid (ck a) \<noteq> 0" "res_within a b" for a b
    using that by (simp add: res_within_def)
  show "res_within c (res_call op c)" if "u_uid (ck c) \<noteq> 0" for op c
  proof (cases op)
    case (GetPriority a b)
    then show ?thesis by (auto simp: getpriority_def Let_def intro: res_within_frame)
  next
    case (GetRlimit i a)
    then show ?thesis by (auto simp: getrlimit_def Let_def intro: res_within_frame split: sum.split)
  qed (use that in \<open>simp_all add: setpriority_within setrlimit_within\<close>)
qed

section \<open>Limits in user memory\<close>

lemma bytes_word_bytes [simp]: "bytes_word (word_bytes w) = w"
proof (rule bit_word_eqI)
  fix n
  assume "n < LENGTH(32)"
  then have "n < 8 \<or> 8 \<le> n \<and> n < 16 \<or> 16 \<le> n \<and> n < 24 \<or> 24 \<le> n \<and> n < 32" by auto
  then show "bit (bytes_word (word_bytes w)) n = bit w n"
    by (auto simp: bytes_word_def word_bytes_def bit_or_iff bit_push_bit_iff bit_ucast_iff bit_drop_bit_eq
        dest: bit_imp_le_length)
qed

lemma words_bytes_simps:
  "words_bytes [] = []" "words_bytes (w # ws) = word_bytes w @ words_bytes ws"
  by (simp_all add: words_bytes_def)

lemma bytes_words_bytes [simp]: "bytes_words (words_bytes ws) = ws"
proof (induction ws)
  case (Cons w ws)
  have "bytes_words (word_bytes w @ bs) = bytes_word (word_bytes w) # bytes_words bs" for bs
    by (simp add: word_bytes_def)
  with Cons show ?case by (simp add: words_bytes_simps)
qed (simp add: words_bytes_simps)

lemma copyout_copyin:
  assumes "length bs < 2 ^ 32" "\<not> baduaddr a" "\<not> baduaddr (a + word_of_nat (length bs) - 1)"
  obtains m' where "copyout bs a m = Inr m'" "copyin a (word_of_nat (length bs)) m' = Inr bs"
proof -
  let ?g = "\<lambda>i. a + word_of_nat i :: u32"
  define m' where "m' = fold (\<lambda>i m. m(?g i := bs ! i)) [0..<length bs] m"
  have inj: "inj_on ?g {0..<length bs}"
  proof (rule inj_onI)
    fix x y assume "x \<in> {0..<length bs}" "y \<in> {0..<length bs}" "?g x = ?g y"
    then have "unat (word_of_nat x :: u32) = unat (word_of_nat y :: u32)" "x < 2 ^ 32" "y < 2 ^ 32"
      using assms(1) by simp_all
    then show "x = y" by (simp add: unat_of_nat)
  qed
  have "m' (?g i) = bs ! i" if "i < length bs" for i
    unfolding m'_def by (rule fold_upd_at) (use inj that in auto)
  then have "map (\<lambda>i. m' (?g i)) [0..<length bs] = bs"
    by (intro nth_equalityI) auto
  then have "copyin a (word_of_nat (length bs)) m' = Inr bs"
    using assms by (simp add: copyin_def unat_of_nat)
  moreover have "copyout bs a m = Inr m'" using assms by (simp add: copyout_def m'_def)
  ultimately show thesis using that by blast
qed

lemma cpu_secs_ticks:
  assumes "0 \<le> v" "v < 2 ^ 31"
  shows "cpu_secs (cpu_ticks v) = (if v \<ge> RLIM_INFINITY div HZ then RLIM_INFINITY else v)"
proof -
  have d: "RLIM_INFINITY sdiv HZ = RLIM_INFINITY div HZ"
    by (simp add: RLIM_INFINITY_def HZ_def signed_divide_int_def)
  show ?thesis
  proof (cases "v \<ge> RLIM_INFINITY div HZ")
    case True
    then show ?thesis by (simp add: cpu_ticks_def cpu_secs_def d)
  next
    case False
    then have v: "v * HZ < RLIM_INFINITY" by (simp add: RLIM_INFINITY_def HZ_def)
    have "sint (word_of_int (v * HZ) :: u32) = v * HZ"
      unfolding sint_sbintrunc' using v assms(1)
      by (intro signed_take_bit_int_eq_self) (simp_all add: RLIM_INFINITY_def HZ_def)
    then have "cpu_ticks v = v * HZ" using False by (simp add: cpu_ticks_def d)
    moreover have "(v * HZ) sdiv HZ = v"
      using assms(1) by (cases "v = 0") (simp_all add: signed_divide_int_def HZ_def sgn_if)
    ultimately show ?thesis using False v by (simp add: cpu_secs_def)
  qed
qed

section \<open>Properties\<close>

text \<open>C35. A process none of whose user ids (effective, real, saved) is that of the super-user never
gets another one by any sequence of \<^verbatim>\<open>setuid\<close>, \<^verbatim>\<open>seteuid\<close>, \<^verbatim>\<open>setgid\<close>, \<^verbatim>\<open>setegid\<close>, \<^verbatim>\<open>setgroups\<close> and
\<^verbatim>\<open>getgroups\<close>: its user ids stay among the three it has, its group ids among its effective, real and saved one, its
other groups stay as they are, and no other process is touched.\<close>

theorem ids_never_escalate:
  assumes "u_uid (ck c) \<noteq> 0" "u_ruid (cs c) \<noteq> 0" "u_svuid c \<noteq> 0" "length (u_groups c) = NGROUPS"
    and d: "d = fold cred_call ops c"
  shows "u_uid (ck d) \<noteq> 0 \<and>
    {u_uid (ck d), u_ruid (cs d), u_svuid d} \<subseteq> {u_uid (ck c), u_ruid (cs c), u_svuid c} \<and>
    {u_groups d ! 0, u_rgid d, u_svgid d} \<subseteq> {u_groups c ! 0, u_rgid c, u_svgid c} \<and>
    tl (u_groups d) = tl (u_groups c) \<and>
    (\<forall>p. p \<noteq> u_procp (ck c) \<longrightarrow> procs (ck d) p = procs (ck c) p)"
proof -
  have "0 \<notin> uids c" using assms by (simp add: uids_def)
  from ids.run_within [OF this, of ops] have w: "ids_within c d" by (simp add: d)
  have g: "u_groups c \<noteq> []" using assms(4) by (auto simp: NGROUPS_def)
  have u: "{u_uid (ck d), u_ruid (cs d), u_svuid d} \<subseteq> {u_uid (ck c), u_ruid (cs c), u_svuid c}"
    using w by (simp add: ids_within_def uids_def)
  then have "u_uid (ck d) \<noteq> 0" using assms(1-3) by auto
  with w u g show ?thesis by (simp add: ids_within_def gids_def)
qed

text \<open>C36. A process whose effective user id is not that of the super-user never raises a hard limit, never sets a soft
limit above the hard one it had, never lowers the nice value of a process, and leaves the entries of the processes of
other users alone (when its real id is not that of the super-user either), over any sequence of the calls
of kern_resource.c; nothing else in the process table changes and no nice value is set above 20.\<close>

theorem limits_never_raised:
  assumes "u_uid (ck c) \<noteq> 0" and d: "d = fold res_call ops c"
  shows "length (u_rlimit d) = length (u_rlimit c) \<and>
    (\<forall>i<length (u_rlimit c). rlim_max (u_rlimit d ! i) \<le> rlim_max (u_rlimit c ! i) \<and>
       rlim_cur (u_rlimit d ! i) \<le> max (rlim_cur (u_rlimit c ! i)) (rlim_max (u_rlimit c ! i))) \<and>
    (\<forall>p. \<exists>n\<ge>p_nice (procs (ck c) p). procs (ck d) p = (procs (ck c) p)\<lparr>p_nice := n\<rparr> \<and>
       n \<le> max (p_nice (procs (ck c) p)) 20 \<and>
       (u_ruid (cs c) \<noteq> 0 \<and> uid_of (procs (ck c) p) \<notin> {u_uid (ck c), u_ruid (cs c)} \<longrightarrow>
          n = p_nice (procs (ck c) p)))"
proof -
  have w: "res_within c d" unfolding d by (rule res.run_within [OF assms(1)])
  then have l: "list_all2 limit_within (u_rlimit c) (u_rlimit d)" by (simp add: res_within_def)
  have "\<forall>p. \<exists>n\<ge>p_nice (procs (ck c) p). procs (ck d) p = (procs (ck c) p)\<lparr>p_nice := n\<rparr> \<and>
       n \<le> max (p_nice (procs (ck c) p)) 20 \<and>
       (u_ruid (cs c) \<noteq> 0 \<and> uid_of (procs (ck c) p) \<notin> {u_uid (ck c), u_ruid (cs c)} \<longrightarrow>
          n = p_nice (procs (ck c) p))"
    using w by (simp add: res_within_def Let_def foreign_def PRIO_MAX_def)
  then show ?thesis
    using list_all2_nthD [OF l] list_all2_lengthD [OF l] by (auto simp: limit_within_def)
qed

text \<open>C37. What a successful \<^verbatim>\<open>setrlimit\<close> took from user memory is what \<^verbatim>\<open>getrlimit\<close> puts there later,
every value of the two 32-bit words for the limits other than processor time. A processor time is kept in
clock ticks: one that is not negative reads back as it was set if it is below
\<open>RLIM_INFINITY div HZ\<close> seconds, and as unlimited otherwise.\<close>

theorem rlimit_roundtrip:
  assumes "unat i < RLIM_NLIMITS" "length (u_rlimit c) = RLIM_NLIMITS"
    and "copyin lim 8 (ub c) = Inr (words_bytes [cur, mx])" and "u_error (ck (setrlimit i lim c)) = 0"
    and "i = 0 \<Longrightarrow> 0 \<le> sint cur \<and> 0 \<le> sint mx" and "\<not> baduaddr rlp" "\<not> baduaddr (rlp + 7)"
    and seen_def: "seen = (\<lambda>w. if i = 0 \<and> sint w \<ge> RLIM_INFINITY div HZ then word_of_int RLIM_INFINITY else w)"
  shows "copyin rlp 8 (ub (getrlimit i rlp (setrlimit i lim c))) = Inr (words_bytes [seen cur, seen mx]) \<and>
    u_error (ck (getrlimit i rlp (setrlimit i lim c))) = 0"
proof -
  have i: "\<not> word_of_nat RLIM_NLIMITS \<le> i" using assms(1) by (simp add: word_le_nat_alt RLIM_NLIMITS_def)
  define c1 where "c1 = setrlimit i lim c"
  have c1: "u_rlimit c1 ! unat i =
      (if i = 0 then \<lparr>rlim_cur = cpu_ticks (sint cur), rlim_max = cpu_ticks (sint mx)\<rparr>
       else \<lparr>rlim_cur = sint cur, rlim_max = sint mx\<rparr>)"
    using assms(1-4) i
    by (auto simp: c1_def setrlimit_def suser_def Let_def split: if_splits)
  let ?bs = "words_bytes [seen cur, seen mx]"
  have len: "length ?bs = 8" by (simp add: words_bytes_simps word_bytes_def)
  obtain m where m: "copyout ?bs rlp (ub c1) = Inr m" "copyin rlp 8 m = Inr ?bs"
    by (rule copyout_copyin [of ?bs rlp "ub c1"]) (use len assms(6,7) in \<open>simp_all add: add.commute\<close>)
  have secs: "word_of_int (cpu_secs (cpu_ticks (sint w))) = seen w" if "i = 0" "0 \<le> sint w" for w
    using cpu_secs_ticks [OF that(2)] sint_lt [of w] that(1) by (simp add: seen_def)
  have s: "word_of_int (if i = 0 then cpu_secs (rlim_cur l) else rlim_cur l) = seen cur"
      "word_of_int (if i = 0 then cpu_secs (rlim_max l) else rlim_max l) = seen mx" if "l = u_rlimit c1 ! unat i" for l
    using that c1 assms(5) secs by (auto simp: seen_def)
  have "getrlimit i rlp c1 = cerror 0 (c1\<lparr>ub := m\<rparr>)"
    unfolding getrlimit_def Let_def s [OF refl] using m(1) i by simp
  then show ?thesis using m(2) by (simp add: c1_def)
qed

text \<open>C38. The permission check of the signal code looks at \<^verbatim>\<open>p_uid\<close>, a \<^verbatim>\<open>short\<close> that \<^verbatim>\<open>seteuid\<close> does not
set: a process with the entry of the super-user that gives up its privilege by
\<^verbatim>\<open>seteuid\<close> may still signal every process, and a user whose id is a multiple of 65536 may
after a \<^verbatim>\<open>setuid\<close> to his own id.\<close>

theorem stale_uid_signals_all:
  shows "(p_uid (curproc c) = 0 \<longrightarrow> uint e \<in> {u_ruid (cs c), u_svuid c} \<longrightarrow>
      (let d = seteuid e c in u_uid (ck d) = uint e \<and> cansignal ruid (cs d) q sig (ck d) = Some (Inr True))) \<and>
    (uint e = u_ruid (cs c) \<longrightarrow> 65536 dvd uint e \<longrightarrow>
      (let d = setuid e c in u_uid (ck d) = uint e \<and> cansignal ruid (cs d) q sig (ck d) = Some (Inr True)))"
proof -
  have z: "short_of x = 0" if "65536 dvd x" for x
  proof -
    have "(word_of_int x :: 16 word) = 0" using that by (simp add: word_of_int_eq_0_iff)
    then show ?thesis by (simp add: short_of_def)
  qed
  then show ?thesis
    by (auto simp: setuid_def seteuid_def cansignal_def Let_def)
qed

text \<open>A process of user 5 in groups 20 and 30, and the super-user with a limit in its memory.\<close>

definition demo_cred :: "int \<Rightarrow> ucred" where
  "demo_cred u =
     \<lparr>ck = (demo_kern 7 7 7)\<lparr>u_uid := u\<rparr>, cs = demo_usig\<lparr>u_ruid := u\<rparr>, u_svuid = u, u_rgid = 20, u_svgid = 20,
      u_groups = 20 # 30 # replicate 14 NOGROUP,
      u_rlimit = replicate 6 \<lparr>rlim_cur = 1000, rlim_max = 2000\<rparr>,
      ub = (\<lambda>_. 0)(0x7f009000 := 44, 0x7f009001 := 1, 0x7f009007 := 127)\<rparr>"

lemma demo_cred_fields [simp]:
  "u_uid (ck (demo_cred u)) = u" "u_ruid (cs (demo_cred u)) = u" "u_svuid (demo_cred u) = u"
  "u_groups (demo_cred u) = 20 # 30 # replicate 14 NOGROUP" "u_rgid (demo_cred u) = 20" "u_svgid (demo_cred u) = 20"
  "u_rlimit (demo_cred u) = replicate 6 \<lparr>rlim_cur = 1000, rlim_max = 2000\<rparr>"
  "ub (demo_cred u) = (\<lambda>_. 0)(0x7f009000 := 44, 0x7f009001 := 1, 0x7f009007 := 127)"
  "p_uid (curproc (demo_cred u)) = 0"
  by (simp_all add: demo_cred_def demo_proc_def)

theorem ids_never_escalate_witness:
  "u_uid (ck (fold cred_call [SetEUid 0, SetUid 5, SetGid 0, SetGroups 1 0x7f009000] (demo_cred 5))) = 5"
proof -
  let ?d = "fold cred_call [SetEUid 0, SetUid 5, SetGid 0, SetGroups 1 0x7f009000] (demo_cred 5)"
  have "{u_uid (ck ?d), u_ruid (cs ?d), u_svuid ?d} \<subseteq> {5}"
    using ids_never_escalate [of "demo_cred 5" ?d "[SetEUid 0, SetUid 5, SetGid 0, SetGroups 1 0x7f009000]"]
    by (simp del: fold_simps add: NGROUPS_def)
  then show ?thesis by blast
qed

theorem limits_never_raised_witness:
  "rlim_max (u_rlimit (fold res_call [SetRlimit 1 0x7f009000, SetPriority 0 0 5] (demo_cred 5)) ! 1) \<le> 2000"
  using limits_never_raised [of "demo_cred 5" _ "[SetRlimit 1 0x7f009000, SetPriority 0 0 5]", OF _ refl]
  by (simp del: fold_simps)

theorem rlimit_roundtrip_witness:
  "copyin 0x7f00a000 8 (ub (getrlimit 0 0x7f00a000 (setrlimit 0 0x7f009000 (demo_cred 0)))) =
     Inr (words_bytes [300, 0x7fffffff])"
proof -
  have b: "\<not> baduaddr 0x7f009000" "\<not> baduaddr 0x7f009007" "\<not> baduaddr 0x7f00a000" "\<not> baduaddr 0x7f00a007"
    by (simp_all add: baduaddr_def USER_DATA_START_def USER_DATA_END_def USER_FLASH_START_def USER_FLASH_END_def)
  have ci: "copyin 0x7f009000 8 (ub (demo_cred 0)) = Inr (words_bytes [300, 0x7f000000])"
    using b by (simp add: copyin_def words_bytes_simps word_bytes_def upt_rec [of 0] upt_rec [of "numeral n" for n]
        upt_conv_Cons)
  have ok: "u_error (ck (setrlimit 0 0x7f009000 (demo_cred 0))) = 0"
    unfolding setrlimit_def ci by (simp add: suser_def Let_def RLIM_NLIMITS_def)
  from rlimit_roundtrip [OF _ _ ci ok, where rlp = "0x7f00a000", OF _ _ _ _ _ refl] b
  show ?thesis by (simp add: RLIM_NLIMITS_def RLIM_INFINITY_def HZ_def)
qed

theorem stale_uid_signals_all_witness:
  "let d = seteuid 5 (demo_cred 5) in u_uid (ck d) = 5 \<and> cansignal (\<lambda>_. 9) (cs d) 1 15 (ck d) = Some (Inr True)"
  using stale_uid_signals_all [of "demo_cred 5" 5 "\<lambda>_. 9" 1 15] by simp

end
