(* ===== verification/Spec2Isabelle.thy ===== *)
theory Spec2Isabelle
  imports Rmap_Clients Callout Clist_Queue Sig_Calls Descrip Rdisk_Cache Ufs_Map Prot_Safe
begin

text \<open>
  A verification development for the kernel of RetroBSD, the port of 2.11BSD to the PIC32
  microcontroller (src/sys). The machine has no MMU, 128K of memory and one user process in
  memory at a time; the kernel is not preempted by itself, and interrupt handlers touch the shared
  data only where \<^verbatim>\<open>spl\<close> permits it. A kernel operation is therefore a function from state to
  state, and the places where another process can run are the calls that sleep.

  \<^bold>\<open>Parts of the program and how they are connected.\<close>

  \<^item> Resource maps (sys/kernel/subr_rmap.c) hand out swap space to fork, exec and the swapper.
  \<^item> The callout queue (sys/kernel/kern_clock.c) runs functions after a number of clock ticks; the
    sleep with a time limit of kern_synch.c uses it.
  \<^item> Character lists (sys/kernel/tty_subr.c) hold the characters of terminals, taken from a common
    pool of blocks.
  \<^item> The process table (kern_proc.c, kern_fork.c, kern_exit.c) with its lists, hash chains and
    process numbers; sleeping, waking and scheduling (kern_synch.c) over the same table; signals
    (kern_sig.c, kern_sig2.c, pic32/signal.c), which change the state of processes and enter user
    handlers; user and group identities and permissions (kern_prot.c, kern_prot2.c, ufs_fio.c).
  \<^item> File descriptors (kern_descrip.c, \<^verbatim>\<open>copen\<close> of ufs_syscalls.c) over the file table.
  \<^item> The buffer cache (ufs_bio.c) between the file system and the disk driver (rdisk.c), and the
    allocation of disk blocks (ufs_alloc.c), which keeps its tables in cached blocks.

  \<^bold>\<open>Theories, definitions and what the lemmas show.\<close>

  \<^descr>[Kernel_Prelude] Machine words, the two ways in which kernel code stops instead of returning
    (\<open>Panic\<close>, and \<open>Fault\<close> for an access outside an object), arrays with their bounds.
  \<^descr>[Rmap, Rmap_Three, Rmap_Clients] \<^verbatim>\<open>malloc\<close>, \<^verbatim>\<open>mfree\<close>, \<^verbatim>\<open>malloc3\<close> slot by slot on the array of
    segments. The invariant (segments ascending, apart, not empty, terminated), first fit, release
    with merging, the round trip, the three segments of a process taken together or not at all. The
    locale \<open>resource_map\<close> and its extension \<open>swap_map\<close> state what a client relies on; interpreted on
    the code, for maps with any limit, they give that no two holders of swap space ever overlap and
    that the one way to fail is a limit past the last slot. The limit that \<^verbatim>\<open>swapmap\<close> is
    initialised with is such a one, and a theorem shows when the write past the array happens.
  \<^descr>[Callout] \<^verbatim>\<open>timeout\<close>, \<^verbatim>\<open>untimeout\<close>, the parts of \<^verbatim>\<open>hardclock\<close> and \<^verbatim>\<open>softclock\<close> that work on the queue
    of differences, refining a list of absolute times; a function runs at the tick it was asked for.
  \<^descr>[Clist, Clist_Queue] The operations at the level of addresses, links and characters in memory,
    refining lists of characters; over any run the queues share the pool and lose no character.
  \<^descr>[Proc] \<^verbatim>\<open>pfind\<close>, \<^verbatim>\<open>inferior\<close>, the choice of a process number, \<^verbatim>\<open>newproc\<close>, \<^verbatim>\<open>fork1\<close>, \<^verbatim>\<open>exit\<close> and \<^verbatim>\<open>wait1\<close>
    on the table; the lists partition the table, a new number is in use by nobody except in one
    case (a process whose pid and group follow each other), and a theorem shows when that case arises;
    \<^verbatim>\<open>exit\<close> and \<^verbatim>\<open>wait1\<close> move an entry from list to list, except that a wait for a group misses the dead.
  \<^descr>[Synch] \<^verbatim>\<open>tsleep\<close> (split at the context switch), \<^verbatim>\<open>wakeup\<close>, \<^verbatim>\<open>unsleep\<close>, \<^verbatim>\<open>setrun\<close>, \<^verbatim>\<open>setpri\<close>,
    \<^verbatim>\<open>updatepri\<close> and the choice of \<^verbatim>\<open>swtch\<close>: nobody is lost between the queues, a wakeup finds every
    sleeper on its channel.
  \<^descr>[Sig, Sendsig, Sig_Calls] \<^verbatim>\<open>psignal\<close>, \<^verbatim>\<open>issignal\<close>, \<^verbatim>\<open>postsig\<close>, the system calls on masks and handlers,
    \<^verbatim>\<open>kill\<close> and \<^verbatim>\<open>killpg\<close>, the frame on the user stack. The masks in the process entry agree with the
    handlers over every sequence of calls; \<^verbatim>\<open>sigreturn\<close> undoes \<^verbatim>\<open>sendsig\<close>.
  \<^descr>[Descrip] Every operation of kern_descrip.c but \<^verbatim>\<open>fstat\<close>, and \<^verbatim>\<open>copen\<close>: reference counts equal the
    number of descriptors over every sequence of calls.
  \<^descr>[Bio, Bio_Cache, Bio_Client] All of ufs_bio.c. The locale \<open>blockdev\<close> is the contract of a disk
    that works; inside it every call is proved to keep the invariant of the pool and the logical
    contents of the disk, so that a run of reads and writes behaves like an array of blocks.
  \<^descr>[Rdisk, Rdisk_Cache] The disk driver with its partitions and open counts. The locale \<open>disk_unit\<close> is
    the contract of the unit below it; a \<open>sublocale\<close> shows that the driver turns it into a \<open>blockdev\<close>,
    and an \<open>interpretation\<close> provides it for a disk in memory. What happens to the data when the disk
    fails, when the boot record cannot be read, and when two processes race for a block is shown too.
  \<^descr>[Ufs_Alloc, Ufs_Free] \<^verbatim>\<open>balloc\<close> and \<^verbatim>\<open>free\<close> over the buffer cache: the chain of tables represents the
    list of free blocks, no block is ever given out twice.
  \<^descr>[Ufs_Bmap, Ufs_Tree, Ufs_File, Ufs_Map] \<^verbatim>\<open>bmap\<close>, \<^verbatim>\<open>iupdat\<close>, \<^verbatim>\<open>itrunc\<close> and what they call. Ufs_Tree is the
    abstract side, trees of blocks in an array of blocks; Ufs_File relates one step through an indirect
    block to it; Ufs_Map has the properties: reading is a lookup in the file, writing adds free blocks
    at the place asked for and nowhere else.
  \<^descr>[Prot, Prot_Safe] All of kern_prot.c, kern_prot2.c and kern_resource.c, and \<^verbatim>\<open>suser\<close>. The locale
    \<open>confined_calls\<close> is the contract of calls that stay within what a process may do; interpreted on the
    calls that change ids, and on those that change priorities and limits, it gives that no sequence of
    them leads to more privilege. A limit that was set is read back, and a theorem shows where the copy
    of the user id in the process table goes wrong.

  \<^bold>\<open>Loops and bounds.\<close> Loops over lists are structural; loops with an index are functions with a
  measure, and so are \<^verbatim>\<open>getnewbuf\<close>, \<^verbatim>\<open>blkflush\<close> and \<^verbatim>\<open>bflush\<close>, where each round writes out one of finitely many
  delayed buffers. Loops along links that the source does not bound are \<^theory_text>\<open>partial_function (option)\<close>, and
  their return is proved where a property speaks of a result: the retries of \<^verbatim>\<open>newproc\<close> end because a
  free number exists, \<^verbatim>\<open>softclock\<close> because each entry is taken off the queue once, the walks along
  character blocks because a queue is a finite chain. No fuel is used. Words are kept at their width
  where the source computes modulo it; an \<^verbatim>\<open>int\<close> of the source is \<^typ>\<open>int\<close> where no computation can leave its
  range.

  \<^bold>\<open>Sleeping.\<close> A call of the buffer cache that would sleep stops with the channel it sleeps on; the
  properties that speak of results show that it does not sleep when nobody else holds a buffer.
  \<^verbatim>\<open>tsleep\<close>, \<^verbatim>\<open>issignal\<close> and \<^verbatim>\<open>sigsuspend\<close> are modelled in two halves, before and after the switch.

  \<^bold>\<open>Parameters.\<close> The routines behind function pointers: the operations of the file types, the device
  switch, the units of the disk driver, and the functions that callouts call.

  \<^bold>\<open>Not modelled.\<close> The hardware drivers of sys/pic32, the context switch and the exception entry in
  assembler, the image handling of exec and of the swapper, directories (\<^verbatim>\<open>namei\<close>), the terminal
  line discipline above the character lists, and the user programs and libraries of src/src. The
  manifest names them one by one with the reason.
\<close>

end
